(* ===== verification/AESD_Prelude.thy ===== *)
theory AESD_Prelude
  imports Main "HOL-Library.Word"
begin

text \<open>
  The vocabulary the components share: C's integer types at their LP64 width, pointers and
  a memory of allocated blocks, the faults C calls undefined behaviour (and the two ways of
  not returning), results that are either a fault or a value, and the generic list, word
  and memory lemmas the component proofs use.
\<close>

named_theorems res_simps \<open>evaluation of fallible computations\<close>
named_theorems mem_simps \<open>reads after writes in the block memory\<close>

section \<open>C types\<close>

text \<open>
  \<^verbatim>\<open>size_t\<close>, \<^verbatim>\<open>ssize_t\<close>, \<^verbatim>\<open>loff_t\<close> and \<^verbatim>\<open>unsigned long\<close> are 64-bit words; the signed ones
  are read with \<^const>\<open>sint\<close>. Negative error codes are the word \<^term>\<open>- e\<close>.
\<close>

type_synonym byte = char
type_synonym uint8_t = "8 word"
type_synonym uint32_t = "32 word"
type_synonym size_t = "64 word"
type_synonym ssize_t = "64 word"
type_synonym loff_t = "64 word"

abbreviation NUL :: byte where "NUL \<equiv> CHR 0x00"
abbreviation NEWLINE :: byte where "NEWLINE \<equiv> CHR 0x0A"

section \<open>Faults and results\<close>

text \<open>
  A fault is an execution the C standard leaves undefined, or one that never returns.
  The model stops there: a faulting call has no resulting state.
\<close>

datatype fault =
    Out_Of_Bounds     \<comment> \<open>an access outside an array or an allocated block\<close>
  | Null_Deref        \<comment> \<open>an access through a null pointer\<close>
  | Wild_Pointer      \<comment> \<open>an access to an address that is no live object\<close>
  | Bad_Free          \<comment> \<open>a free of an address that is no live block\<close>
  | Uninit_Read       \<comment> \<open>a read of memory or of a variable never written\<close>
  | Signed_Overflow   \<comment> \<open>a signed integer computation out of its range\<close>
  | Diverges          \<comment> \<open>a loop that never ends\<close>
  | Blocks            \<comment> \<open>a call that waits for an event that never comes\<close>
  | Panic string      \<comment> \<open>the kernel stops itself with a message\<close>

type_synonym 'a res = "fault + 'a"

definition rbind :: "'a res \<Rightarrow> ('a \<Rightarrow> 'b res) \<Rightarrow> 'b res" where
  "rbind m f = (case m of Inl e \<Rightarrow> Inl e | Inr x \<Rightarrow> f x)"

definition guard_res :: "fault \<Rightarrow> bool \<Rightarrow> unit res" where
  "guard_res e b = (if b then Inr () else Inl e)"

lemma rbind_Inl [simp, res_simps]: "rbind (Inl e) f = Inl e"
  by (simp add: rbind_def)

lemma rbind_Inr [simp, res_simps]: "rbind (Inr x) f = f x"
  by (simp add: rbind_def)

lemma guard_res_True [simp, res_simps]: "guard_res e True = Inr ()"
  by (simp add: guard_res_def)

lemma guard_res_False [simp, res_simps]: "guard_res e False = Inl e"
  by (simp add: guard_res_def)

lemma rbind_eq_InrE:
  assumes "rbind m f = Inr y"
  obtains x where "m = Inr x" and "f x = Inr y"
  using assms by (cases m) auto

lemma rbind_eq_Inr_iff: "rbind m f = Inr y \<longleftrightarrow> (\<exists>x. m = Inr x \<and> f x = Inr y)"
  by (cases m) auto

section \<open>Arrays\<close>

definition array_get :: "'a list \<Rightarrow> nat \<Rightarrow> 'a res" where
  "array_get xs i = (if i < length xs then Inr (xs ! i) else Inl Out_Of_Bounds)"

definition array_set :: "'a list \<Rightarrow> nat \<Rightarrow> 'a \<Rightarrow> 'a list res" where
  "array_set xs i x = (if i < length xs then Inr (xs[i := x]) else Inl Out_Of_Bounds)"

lemma array_get_in [simp, res_simps]: "i < length xs \<Longrightarrow> array_get xs i = Inr (xs ! i)"
  by (simp add: array_get_def)

lemma array_get_out [simp, res_simps]: "length xs \<le> i \<Longrightarrow> array_get xs i = Inl Out_Of_Bounds"
  by (simp add: array_get_def)

lemma array_set_in [simp, res_simps]: "i < length xs \<Longrightarrow> array_set xs i x = Inr (xs[i := x])"
  by (simp add: array_set_def)

lemma array_set_out [simp, res_simps]:
  "length xs \<le> i \<Longrightarrow> array_set xs i x = Inl Out_Of_Bounds"
  by (simp add: array_set_def)

section \<open>Block memory\<close>

text \<open>
  Dynamic memory maps an address to the block allocated there: one cell per byte, \<^term>\<open>None\<close>
  in a cell never written. A pointer into a block is the block's address and a byte offset.
\<close>

datatype ptr = NULL | Ptr nat

type_synonym block = "byte option list"
type_synonym heap = "nat \<rightharpoonup> block"

definition mem_block :: "heap \<Rightarrow> ptr \<Rightarrow> block res" where
  "mem_block h p = (case p of NULL \<Rightarrow> Inl Null_Deref
     | Ptr a \<Rightarrow> (case h a of None \<Rightarrow> Inl Wild_Pointer | Some b \<Rightarrow> Inr b))"

definition mem_write :: "heap \<Rightarrow> ptr \<Rightarrow> nat \<Rightarrow> byte list \<Rightarrow> heap res" where
  "mem_write h p off bs =
     (if bs = [] then Inr h
      else rbind (mem_block h p) (\<lambda>b.
        if off + length bs \<le> length b
        then (case p of NULL \<Rightarrow> Inl Null_Deref
              | Ptr a \<Rightarrow> Inr (h(a \<mapsto> take off b @ map Some bs @ drop (off + length bs) b)))
        else Inl Out_Of_Bounds))"

definition mem_read :: "heap \<Rightarrow> ptr \<Rightarrow> nat \<Rightarrow> nat \<Rightarrow> byte list res" where
  "mem_read h p off n =
     (if n = 0 then Inr []
      else rbind (mem_block h p) (\<lambda>b.
        if off + n \<le> length b
        then (if None \<in> set (take n (drop off b)) then Inl Uninit_Read
              else Inr (map the (take n (drop off b))))
        else Inl Out_Of_Bounds))"

text \<open>
  \<^verbatim>\<open>memchr\<close> on the cells of a block: the cells are read one by one up to the first match.
\<close>

fun cell_scan :: "byte \<Rightarrow> nat \<Rightarrow> block \<Rightarrow> nat option res" where
  "cell_scan c 0 cs = Inr None"
| "cell_scan c (Suc n) [] = Inl Out_Of_Bounds"
| "cell_scan c (Suc n) (None # cs) = Inl Uninit_Read"
| "cell_scan c (Suc n) (Some x # cs) =
     (if x = c then Inr (Some 0)
      else rbind (cell_scan c n cs) (\<lambda>r. Inr (map_option Suc r)))"

definition mem_chr :: "heap \<Rightarrow> ptr \<Rightarrow> byte \<Rightarrow> nat \<Rightarrow> nat option res" where
  "mem_chr h p c n =
     (if n = 0 then Inr None else rbind (mem_block h p) (\<lambda>b. cell_scan c n b))"

text \<open>The bytes a pointer is known to hold: block \<open>a\<close> starts with the initialised bytes \<open>bs\<close>.\<close>

definition holds_bytes :: "heap \<Rightarrow> ptr \<Rightarrow> byte list \<Rightarrow> bool" where
  "holds_bytes h p bs \<longleftrightarrow>
     (case p of NULL \<Rightarrow> False
      | Ptr a \<Rightarrow> (case h a of None \<Rightarrow> False | Some b \<Rightarrow> take (length bs) b = map Some bs))"

lemma mem_block_Ptr [simp]: "h a = Some b \<Longrightarrow> mem_block h (Ptr a) = Inr b"
  by (simp add: mem_block_def)

lemma holds_bytes_Ptr:
  "holds_bytes h p bs \<longleftrightarrow> (\<exists>a rest. p = Ptr a \<and> h a = Some (map Some bs @ rest))"
proof
  assume "holds_bytes h p bs"
  then obtain a b where ab: "p = Ptr a" "h a = Some b" "take (length bs) b = map Some bs"
    by (auto simp: holds_bytes_def split: ptr.splits option.splits)
  then have "b = map Some bs @ drop (length bs) b"
    by (metis append_take_drop_id)
  with ab show "\<exists>a rest. p = Ptr a \<and> h a = Some (map Some bs @ rest)" by metis
qed (auto simp: holds_bytes_def)

lemma cell_scan_Some:
  "cell_scan c (length bs) (map Some bs @ rest) =
     Inr (if c \<in> set bs then Some (length (takeWhile (\<lambda>x. x \<noteq> c) bs)) else None)"
  by (induction bs) auto

lemma mem_chr_holds [mem_simps]:
  "holds_bytes h p bs \<Longrightarrow>
   mem_chr h p c (length bs) =
     Inr (if c \<in> set bs then Some (length (takeWhile (\<lambda>x. x \<noteq> c) bs)) else None)"
  by (auto simp: holds_bytes_Ptr mem_chr_def cell_scan_Some)

lemma mem_read_holds [mem_simps]:
  assumes "holds_bytes h p bs" and "off + n \<le> length bs"
  shows "mem_read h p off n = Inr (take n (drop off bs))"
proof -
  from assms(1) obtain a rest where "p = Ptr a" "h a = Some (map Some bs @ rest)"
    by (auto simp: holds_bytes_Ptr)
  moreover have "take n (drop off (map Some bs @ rest)) = map Some (take n (drop off bs))"
    using assms(2) by (simp add: take_map drop_map)
  ultimately show ?thesis
    using assms(2) by (auto simp: mem_read_def comp_def)
qed

lemma holds_bytes_other [mem_simps]:
  "p \<noteq> Ptr a \<Longrightarrow> holds_bytes (h(a := x)) p bs = holds_bytes h p bs"
  by (cases p) (auto simp: holds_bytes_def)

lemma holds_bytes_prefix: "holds_bytes h p (xs @ ys) \<Longrightarrow> holds_bytes h p xs"
  by (auto simp: holds_bytes_Ptr)

section \<open>Words\<close>

lemma unat_less_numeral_64 [simp]: "unat (w :: 64 word) < 18446744073709551616"
  by (rule less_le_trans [OF unsigned_less]) simp

lemma unat_less_numeral_8 [simp]: "unat (w :: 8 word) < 256"
  by (rule less_le_trans [OF unsigned_less]) simp

lemma unat_less_numeral_32 [simp]: "unat (w :: 32 word) < 4294967296"
  by (rule less_le_trans [OF unsigned_less]) simp

lemma unat_add_lt:
  fixes a b :: size_t
  assumes "unat a + unat b < 2 ^ 64"
  shows "unat (a + b) = unat a + unat b"
  using assms by (simp add: unat_word_ariths)

lemma unat_sub_le: "b \<le> a \<Longrightarrow> unat (a - b :: size_t) = unat a - unat b"
  by (rule unat_sub)

lemma unat_of_nat_64: "n < 2 ^ 64 \<Longrightarrow> unat (of_nat n :: size_t) = n"
  by (simp add: unat_of_nat take_bit_eq_mod)

lemma unat_ucast_32_64 [simp]: "unat (ucast (w :: uint32_t) :: size_t) = unat w"
  using less_trans [OF unat_less_numeral_32 [of w], of 18446744073709551616]
  by (simp add: unsigned_ucast_eq take_bit_eq_mod)


lemma sint_nonneg_iff: "0 \<le> sint (w :: 64 word) \<longleftrightarrow> unat w < 2 ^ 63"
proof -
  have "0 \<le> sint w \<longleftrightarrow> \<not> bit (uint w) 63"
    by (simp add: sint_uint)
  also have "\<dots> \<longleftrightarrow> even (uint w div 2 ^ 63)"
    by (simp add: bit_iff_odd)
  also have "\<dots> \<longleftrightarrow> even (unat w div 2 ^ 63)"
  proof -
    have "int (unat w div 2 ^ 63) = uint w div 2 ^ 63" by (simp add: of_nat_div)
    then show ?thesis unfolding even_of_nat [symmetric, where 'a = int] by simp
  qed
  also have "\<dots> \<longleftrightarrow> unat w < 2 ^ 63"
  proof -
    have "unat w div 2 ^ 63 < 2" using unat_less_numeral_64 [of w] by (simp add: div_less_iff_less_mult)
    then have "even (unat w div 2 ^ 63) \<longleftrightarrow> unat w div 2 ^ 63 = 0" by (auto simp: less_2_cases_iff)
    then show ?thesis by (simp add: div_eq_0_iff)
  qed
  finally show ?thesis .
qed

lemma sint_add_exact:
  fixes a b :: "64 word"
  assumes "- (2 ^ 63) \<le> sint a + sint b" and "sint a + sint b < 2 ^ 63"
  shows "sint (a + b) = sint a + sint b"
  using assms by (simp add: sint_word_ariths signed_take_bit_int_eq_self)

lemma of_nat_diff_unat: "b \<le> a \<Longrightarrow> of_nat (unat a - unat b) = (a - b :: size_t)"
  by (simp flip: unat_sub_le)

section \<open>Lists\<close>

lemma drop_last_n:
  assumes "k \<le> length zs - n"
  shows "drop (length (drop k zs) - n) (drop k zs) = drop (length zs - n) zs"
proof -
  from assms have "length zs - (k + n) + k = length zs - n" by arith
  then show ?thesis by simp
qed

lemma take_Suc_update:
  "i < length xs \<Longrightarrow> take (Suc i) (xs[i := x]) = take i xs @ [x]"
  by (simp add: take_Suc_conv_app_nth)

lemma drop_Suc_update: "drop (Suc i) (xs[i := x]) = drop (Suc i) xs"
  by simp

section \<open>Locating a position in a list of pieces\<close>

text \<open>
  The reference for every position computation of the driver: piece number and offset
  inside the piece of the \<open>p\<close>-th element of the concatenation.
\<close>

fun locate :: "nat list \<Rightarrow> nat \<Rightarrow> (nat \<times> nat) option" where
  "locate [] p = None"
| "locate (s # ss) p =
     (if p < s then Some (0, p)
      else map_option (\<lambda>(i, q). (Suc i, q)) (locate ss (p - s)))"

lemma locate_None_iff: "locate ss p = None \<longleftrightarrow> sum_list ss \<le> p"
  by (induction ss p rule: locate.induct) auto

lemma locate_zeros [simp]: "locate (replicate n 0) p = None"
  by (simp add: locate_None_iff sum_list_replicate)

lemma locate_Some_bounds:
  "locate ss p = Some (i, q) \<Longrightarrow> i < length ss \<and> q < ss ! i"
  by (induction ss p arbitrary: i rule: locate.induct) (auto split: if_splits)

lemma locate_Some_sum:
  "locate ss p = Some (i, q) \<Longrightarrow> p = sum_list (take i ss) + q"
  by (induction ss p arbitrary: i rule: locate.induct) (auto split: if_splits)

lemma locate_append: "locate ss p = Some iq \<Longrightarrow> locate (ss @ ts) p = Some iq"
  by (induction ss p arbitrary: iq rule: locate.induct) (auto split: if_splits)

lemma locate_at:
  "i < length ss \<Longrightarrow> q < ss ! i \<Longrightarrow> locate ss (sum_list (take i ss) + q) = Some (i, q)"
proof (induction ss arbitrary: i)
  case Nil
  then show ?case by simp
next
  case (Cons s ss)
  show ?case
  proof (cases i)
    case 0
    with Cons.prems show ?thesis by simp
  next
    case (Suc j)
    with Cons have "locate ss (sum_list (take j ss) + q) = Some (j, q)" by simp
    with Suc show ?thesis by (simp add: add.assoc)
  qed
qed

lemma locate_concat_drop:
  "locate (map length cs) p = Some (i, q) \<Longrightarrow>
   drop p (concat cs) = drop q (cs ! i) @ concat (drop (Suc i) cs)"
proof (induction cs arbitrary: p i)
  case Nil
  then show ?case by simp
next
  case (Cons c cs)
  show ?case
  proof (cases "p < length c")
    case True
    with Cons.prems show ?thesis by auto
  next
    case False
    with Cons.prems obtain j where "locate (map length cs) (p - length c) = Some (j, q)"
      and "i = Suc j" by auto
    with False Cons.IH show ?thesis by simp
  qed
qed

lemma locate_concat_nth:
  assumes "locate (map length cs) p = Some (i, q)"
  shows "concat cs ! p = cs ! i ! q"
proof -
  have q: "i < length cs" "q < length (cs ! i)"
    using locate_Some_bounds [OF assms] by auto
  have "p < length (concat cs)"
    using assms locate_None_iff [of "map length cs" p] by (simp add: length_concat)
  then have "concat cs ! p = hd (drop p (concat cs))" by (simp add: hd_drop_conv_nth)
  also have "\<dots> = cs ! i ! q"
    using q by (simp add: locate_concat_drop [OF assms] hd_append hd_drop_conv_nth)
  finally show ?thesis .
qed

section \<open>State machines\<close>

text \<open>The states a machine reaches from its start states, and invariants of them.\<close>

inductive reachable :: "('s \<Rightarrow> bool) \<Rightarrow> ('s \<Rightarrow> 's \<Rightarrow> bool) \<Rightarrow> 's \<Rightarrow> bool"
  for start :: "'s \<Rightarrow> bool" and step :: "'s \<Rightarrow> 's \<Rightarrow> bool" where
  reach_start: "start s \<Longrightarrow> reachable start step s"
| reach_step: "reachable start step s \<Longrightarrow> step s t \<Longrightarrow> reachable start step t"

locale invariant_machine =
  fixes start :: "'s \<Rightarrow> bool"
    and step :: "'s \<Rightarrow> 's \<Rightarrow> bool"
    and inv :: "'s \<Rightarrow> bool"
  assumes inv_start: "start s \<Longrightarrow> inv s"
    and inv_step: "inv s \<Longrightarrow> step s t \<Longrightarrow> inv t"
begin

lemma reachable_inv: "reachable start step s \<Longrightarrow> inv s"
  by (induction rule: reachable.induct) (auto intro: inv_start inv_step)

end

text \<open>Runs of a machine whose steps show events, and invariants that follow the events.\<close>

inductive run :: "('s \<Rightarrow> 'e \<Rightarrow> 's \<Rightarrow> bool) \<Rightarrow> 's \<Rightarrow> 'e list \<Rightarrow> 's \<Rightarrow> bool" for step where
  Run_Nil: "run step s [] s"
| Run_Snoc: "run step s tr t \<Longrightarrow> step t ev u \<Longrightarrow> run step s (tr @ [ev]) u"

inductive_simps run_Nil_iff: "run step s [] t"

lemma run_append:
  assumes "run step t tr' u" and "run step s tr t"
  shows "run step s (tr @ tr') u"
  using assms
  by (induction rule: run.induct) (auto simp: append_assoc [symmetric] simp del: append_assoc intro: Run_Snoc)

lemma run_one: "step s ev t \<Longrightarrow> run step s [ev] t"
  using Run_Snoc [OF Run_Nil, of step s ev t] by simp

locale event_machine =
  fixes step :: "'s \<Rightarrow> 'e \<Rightarrow> 's \<Rightarrow> bool"
    and inv :: "'a \<Rightarrow> 's \<Rightarrow> bool"
    and after :: "'a \<Rightarrow> 'e \<Rightarrow> 'a"
  assumes step_inv: "step s ev t \<Longrightarrow> inv a s \<Longrightarrow> inv (after a ev) t"
begin

lemma run_inv: "run step s tr t \<Longrightarrow> inv a s \<Longrightarrow> inv (foldl after a tr) t"
  by (induction rule: run.induct) (auto intro: step_inv)

end

text \<open>
  Machines that finish: every step lowers a rank, and a state that is not final can step. Their
  runs are bounded, and from every state of the invariant a final one is reached.
\<close>

locale finishing_machine = event_machine step inv after
  for step :: "'s \<Rightarrow> 'e \<Rightarrow> 's \<Rightarrow> bool" and inv :: "'a \<Rightarrow> 's \<Rightarrow> bool" and after :: "'a \<Rightarrow> 'e \<Rightarrow> 'a" +
  fixes rank :: "'s \<Rightarrow> nat"
    and final :: "'s \<Rightarrow> bool"
  assumes rank_step: "step s ev t \<Longrightarrow> inv a s \<Longrightarrow> rank t < rank s"
    and progress: "inv a s \<Longrightarrow> \<not> final s \<Longrightarrow> \<exists>ev t. step s ev t"
begin

lemma run_bounded: "run step s tr t \<Longrightarrow> inv a s \<Longrightarrow> length tr + rank t \<le> rank s"
proof (induction rule: run.induct)
  case (Run_Snoc s tr t ev u)
  then show ?case using rank_step [OF Run_Snoc.hyps(2) run_inv [OF Run_Snoc.hyps(1) Run_Snoc.prems]] by simp
qed simp

lemma run_finishes: "inv a s \<Longrightarrow> \<exists>tr t. run step s tr t \<and> final t"
proof (induction "rank s" arbitrary: a s rule: less_induct)
  case less
  show ?case
  proof (cases "final s")
    case True
    then show ?thesis by (auto intro: Run_Nil)
  next
    case False
    then obtain ev t where t: "step s ev t" using progress less.prems by blast
    then obtain tr u where "run step t tr u" "final u"
      using less.hyps [OF rank_step [OF t less.prems] step_inv [OF t less.prems]] by blast
    then show ?thesis using run_append [OF _ run_one [of step, OF t]] by blast
  qed
qed

end

lemma run_mono:
  assumes "run step s tr t" and "\<And>s ev t. step s ev t \<Longrightarrow> step' s ev t"
  shows "run step' s tr t"
  using assms by (induction rule: run.induct) (auto intro: Run_Nil Run_Snoc)

text \<open>How many elements of a list have a property, when one element changes.\<close>

lemma length_filter_upd:
  assumes "i < length xs"
  shows "length (filter P (xs[i := x])) + of_bool (P (xs ! i)) = length (filter P xs) + of_bool (P x)"
  using assms
proof (induction xs arbitrary: i)
  case (Cons a xs)
  then show ?case by (cases i) (use Cons.IH in \<open>auto simp flip: add_Suc\<close>)
qed simp

lemma filter_one:
  assumes "length (filter P xs) \<le> 1" and "i < length xs" and "j < length xs" and "P (xs ! i)" and "P (xs ! j)"
  shows "i = j"
proof (rule ccontr)
  assume "i \<noteq> j"
  then have "{i, j} \<subseteq> {n. n < length xs \<and> P (xs ! n)}" "card {i, j} = 2" using assms by auto
  moreover have "finite {n. n < length xs \<and> P (xs ! n)}" by simp
  ultimately have "2 \<le> card {n. n < length xs \<and> P (xs ! n)}" by (metis card_mono)
  then show False using assms(1) by (simp add: length_filter_conv_card)
qed

end
