(* ===== verification/Circular_Buffer.thy ===== *)
theory Circular_Buffer
  imports AESD_Prelude
begin

text \<open>
  The circular buffer of \<^verbatim>\<open>aesd-char-driver/aesd-circular-buffer.h\<close> and
  \<^verbatim>\<open>aesd-char-driver/aesd-circular-buffer.c\<close>: the ten most recent write commands. The ring
  refines a bounded FIFO (\<open>fifo_push\<close>), and the position search refines \<^const>\<open>locate\<close> on the
  concatenation of the stored commands.
\<close>

section \<open>The structures and operations of the source\<close>

abbreviation AESDCHAR_MAX_WRITE_OPERATIONS_SUPPORTED :: nat where
  "AESDCHAR_MAX_WRITE_OPERATIONS_SUPPORTED \<equiv> 10"

text \<open>
  The fields \<^verbatim>\<open>size\<close> and \<^verbatim>\<open>offset\<close> of an entry are \<open>entry_size\<close> and \<open>entry_offset\<close>, the
  field \<^verbatim>\<open>size\<close> of the buffer is \<open>cb_size\<close>.
\<close>

record aesd_buffer_entry =
  buffptr :: ptr
  entry_size :: size_t
  entry_offset :: size_t

record aesd_circular_buffer =
  entry :: "aesd_buffer_entry list"
  in_offs :: uint8_t
  out_offs :: uint8_t
  full :: bool
  cb_size :: size_t

text \<open>\<^verbatim>\<open>memset(..., 0, ...)\<close> leaves null pointers, zeros and \<^verbatim>\<open>false\<close>.\<close>

definition zero_entry :: aesd_buffer_entry where
  "zero_entry = \<lparr>buffptr = NULL, entry_size = 0, entry_offset = 0\<rparr>"

definition aesd_circular_buffer_init :: "aesd_circular_buffer \<Rightarrow> aesd_circular_buffer" where
  "aesd_circular_buffer_init buffer =
     \<lparr>entry = replicate AESDCHAR_MAX_WRITE_OPERATIONS_SUPPORTED zero_entry,
      in_offs = 0, out_offs = 0, full = False, cb_size = 0\<rparr>"

text \<open>
  The \<^verbatim>\<open>do ... while\<close> loop of the search. The returned entry pointer is the entry's index
  in the array, paired with the value stored through \<^verbatim>\<open>entry_offset_byte_rtn\<close>; the outer
  \<^term>\<open>None\<close> is a loop that never ends (an \<^verbatim>\<open>in_offs\<close> outside the array is never reached).
\<close>

partial_function (option) find_entry_loop ::
  "aesd_circular_buffer \<Rightarrow> size_t \<Rightarrow> size_t \<Rightarrow> size_t \<Rightarrow> (nat \<times> size_t) option res option" where
  "find_entry_loop buffer char_offset total_chars current_offset =
     (case array_get (entry buffer) (unat current_offset) of
        Inl e \<Rightarrow> Some (Inl e)
      | Inr current_entry \<Rightarrow>
          if char_offset < total_chars + entry_size current_entry
          then Some (Inr (Some (unat current_offset, char_offset - total_chars)))
          else
            let total_chars' = total_chars + entry_size current_entry;
                current_offset' =
                  (current_offset + 1) mod of_nat AESDCHAR_MAX_WRITE_OPERATIONS_SUPPORTED
            in if current_offset' \<noteq> ucast (in_offs buffer)
               then find_entry_loop buffer char_offset total_chars' current_offset'
               else Some (Inr None))"

definition aesd_circular_buffer_find_entry_offset_for_fpos ::
  "aesd_circular_buffer \<Rightarrow> size_t \<Rightarrow> (nat \<times> size_t) option res option" where
  "aesd_circular_buffer_find_entry_offset_for_fpos buffer char_offset =
     find_entry_loop buffer char_offset 0 (ucast (out_offs buffer))"

text \<open>
  \<^verbatim>\<open>value\<close> is the pointer of the overwritten entry, or null. The branch for a buffer of zero
  entries compares two constants, \<^verbatim>\<open>10 == 0\<close>, and is never taken.
\<close>

definition cb_evict :: "aesd_circular_buffer \<Rightarrow> (ptr \<times> aesd_circular_buffer) res" where
  "cb_evict buffer =
     (if full buffer
      then rbind (array_get (entry buffer) (unat (out_offs buffer))) (\<lambda>e.
        let out1 = out_offs buffer + 1;
            out2 = (if out1 = of_nat AESDCHAR_MAX_WRITE_OPERATIONS_SUPPORTED then 0 else out1)
        in Inr (buffptr e, buffer\<lparr>out_offs := out2\<rparr>))
      else Inr (NULL, buffer))"

definition cb_store ::
  "aesd_circular_buffer \<Rightarrow> aesd_buffer_entry \<Rightarrow> aesd_circular_buffer res" where
  "cb_store buffer add_entry =
     rbind (array_set (entry buffer) (unat (in_offs buffer)) add_entry) (\<lambda>es.
       let in1 = in_offs buffer + 1;
           in2 = (if in1 = of_nat AESDCHAR_MAX_WRITE_OPERATIONS_SUPPORTED then 0 else in1);
           b = buffer\<lparr>entry := es, in_offs := in2\<rparr>
       in Inr (if in2 = out_offs b then b\<lparr>full := True\<rparr> else b))"

definition aesd_circular_buffer_add_entry ::
  "aesd_circular_buffer \<Rightarrow> aesd_buffer_entry \<Rightarrow> (ptr \<times> aesd_circular_buffer) res" where
  "aesd_circular_buffer_add_entry buffer add_entry =
     rbind (cb_evict buffer) (\<lambda>(value, b). rbind (cb_store b add_entry) (\<lambda>b'. Inr (value, b')))"

text \<open>
  The iteration \<^verbatim>\<open>AESD_CIRCULAR_BUFFER_FOREACH\<close> over all slots of the array from \<^verbatim>\<open>index\<close> on,
  used or not. The body may change the entry it is given; \<open>x\<close> is what else it changes. The
  address of the entry after the last one is taken and not used.
\<close>

function AESD_CIRCULAR_BUFFER_FOREACH ::
  "(aesd_buffer_entry \<Rightarrow> 'x \<Rightarrow> (aesd_buffer_entry \<times> 'x) res) \<Rightarrow> nat \<Rightarrow>
   aesd_buffer_entry list \<Rightarrow> 'x \<Rightarrow> (aesd_buffer_entry list \<times> 'x) res" where
  "AESD_CIRCULAR_BUFFER_FOREACH body index es x =
     (if index < AESDCHAR_MAX_WRITE_OPERATIONS_SUPPORTED
      then rbind (array_get es index) (\<lambda>entryptr.
        rbind (body entryptr x) (\<lambda>(e', x').
          rbind (array_set es index e') (\<lambda>es'. AESD_CIRCULAR_BUFFER_FOREACH body (index + 1) es' x')))
      else Inr (es, x))"
  by pat_completeness auto
termination
  by (relation "measure (\<lambda>(body, index, es, x). AESDCHAR_MAX_WRITE_OPERATIONS_SUPPORTED - index)") auto

declare AESD_CIRCULAR_BUFFER_FOREACH.simps [simp del]

section \<open>Invariant and abstraction\<close>

definition blank_entry :: "aesd_buffer_entry \<Rightarrow> bool" where
  "blank_entry e \<longleftrightarrow> buffptr e = NULL \<and> entry_size e = 0"

text \<open>
  Entries are only ever added: until the ring is full the oldest entry stays at index 0 and
  the slots from \<^const>\<open>in_offs\<close> on are blank; once full, both offsets move together.
\<close>

definition cb_wf :: "aesd_circular_buffer \<Rightarrow> bool" where
  "cb_wf b \<longleftrightarrow>
     length (entry b) = AESDCHAR_MAX_WRITE_OPERATIONS_SUPPORTED \<and>
     unat (in_offs b) < AESDCHAR_MAX_WRITE_OPERATIONS_SUPPORTED \<and>
     unat (out_offs b) < AESDCHAR_MAX_WRITE_OPERATIONS_SUPPORTED \<and>
     (if full b then in_offs b = out_offs b
      else out_offs b = 0 \<and> list_all blank_entry (drop (unat (in_offs b)) (entry b)))"

definition cb_list :: "aesd_circular_buffer \<Rightarrow> aesd_buffer_entry list" where
  "cb_list b =
     (if full b then drop (unat (out_offs b)) (entry b) @ take (unat (out_offs b)) (entry b)
      else take (unat (in_offs b)) (entry b))"

definition entry_sizes :: "aesd_buffer_entry list \<Rightarrow> nat list" where
  "entry_sizes es = map (\<lambda>e. unat (entry_size e)) es"

text \<open>The abstract specification: a FIFO that keeps the last \<open>n\<close> elements.\<close>

definition fifo_push :: "nat \<Rightarrow> 'a list \<Rightarrow> 'a \<Rightarrow> 'a list" where
  "fifo_push n xs x = (if length xs < n then xs @ [x] else tl xs @ [x])"

definition fifo_evicted :: "nat \<Rightarrow> 'a list \<Rightarrow> 'a option" where
  "fifo_evicted n xs = (if length xs < n then None else Some (hd xs))"

fun push_all :: "('q \<Rightarrow> 'a \<Rightarrow> ('v \<times> 'q) res) \<Rightarrow> 'q \<Rightarrow> 'a list \<Rightarrow> 'q res" where
  "push_all push q [] = Inr q"
| "push_all push q (x # xs) = rbind (push q x) (\<lambda>(v, q'). push_all push q' xs)"

section \<open>Facts about the FIFO\<close>

lemma fifo_push_last_n:
  assumes "0 < n" and "length xs \<le> n"
  shows "fifo_push n xs x = drop (length (xs @ [x]) - n) (xs @ [x])"
proof (cases "length xs < n")
  case True
  then show ?thesis by (simp add: fifo_push_def)
next
  case False
  with assms have "length xs = n" by simp
  with assms show ?thesis by (cases xs) (auto simp: fifo_push_def)
qed

lemma length_fifo_push: "0 < n \<Longrightarrow> length xs \<le> n \<Longrightarrow> length (fifo_push n xs x) \<le> n"
  by (auto simp: fifo_push_def)

lemma fifo_history:
  assumes "0 < n" and "length xs \<le> n"
  shows "foldl (fifo_push n) xs ys = drop (length (xs @ ys) - n) (xs @ ys)"
  using assms(2)
proof (induction ys arbitrary: xs)
  case Nil
  then show ?case by simp
next
  case (Cons y ys)
  let ?k = "length (xs @ [y]) - n"
  have k: "?k \<le> length (xs @ y # ys) - n" by simp
  have "foldl (fifo_push n) (fifo_push n xs y) ys =
      drop (length (fifo_push n xs y @ ys) - n) (fifo_push n xs y @ ys)"
    using Cons assms(1) by (intro Cons.IH length_fifo_push)
  moreover have "fifo_push n xs y @ ys = drop ?k (xs @ y # ys)"
    using assms(1) Cons.prems by (simp add: fifo_push_last_n Suc_diff_le)
  ultimately show ?case
    using drop_last_n [OF k] by simp
qed

section \<open>The bounded FIFO as an interface\<close>

text \<open>
  What a client of the buffer relies on: a fallible \<open>push\<close> that, on a well-formed buffer,
  succeeds, keeps the buffer well formed, and keeps the last \<open>n\<close> elements.
\<close>

locale bounded_fifo =
  fixes n :: nat
    and empty :: "'q"
    and push :: "'q \<Rightarrow> 'a \<Rightarrow> ('v \<times> 'q) res"
    and abs :: "'q \<Rightarrow> 'a list"
    and wf :: "'q \<Rightarrow> bool"
  assumes n_pos: "0 < n"
    and wf_empty: "wf empty"
    and abs_empty: "abs empty = []"
    and abs_bound: "wf q \<Longrightarrow> length (abs q) \<le> n"
    and push_ok: "wf q \<Longrightarrow> \<exists>v q'. push q x = Inr (v, q') \<and> wf q' \<and> abs q' = fifo_push n (abs q) x"
begin

lemma push_all_foldl:
  "wf q \<Longrightarrow> \<exists>q'. push_all push q xs = Inr q' \<and> wf q' \<and> abs q' = foldl (fifo_push n) (abs q) xs"
proof (induction xs arbitrary: q)
  case Nil
  then show ?case by simp
next
  case (Cons x xs)
  then show ?case
    using push_ok [of q x] by (fastforce simp del: split_paired_Ex)
qed

lemma push_all_last_n:
  assumes "wf q"
  shows "\<exists>q'. push_all push q xs = Inr q' \<and> wf q' \<and>
     abs q' = drop (length (abs q @ xs) - n) (abs q @ xs)"
  using push_all_foldl [OF assms] fifo_history [OF n_pos abs_bound [OF assms]] by simp

end

section \<open>Adding an entry\<close>

lemma unat_Suc_8: "unat (w :: uint8_t) < 10 \<Longrightarrow> unat (w + 1) = Suc (unat w)"
  by (simp add: unat_word_ariths)

lemma word8_eq_10: "unat (w :: uint8_t) = 10 \<longleftrightarrow> w = 10"
  by (simp add: word_unat_eq_iff)

lemma unat_step_8:
  "unat (w :: uint8_t) < 10 \<Longrightarrow> unat (if w + 1 = 10 then 0 else w + 1) = Suc (unat w) mod 10"
  using word8_eq_10 [of "w + 1"] by (auto simp: unat_Suc_8)

lemma cb_wf_init: "cb_wf (aesd_circular_buffer_init b)"
  by (simp add: cb_wf_def aesd_circular_buffer_init_def list_all_iff blank_entry_def zero_entry_def)

lemma cb_list_init: "cb_list (aesd_circular_buffer_init b) = []"
  by (simp add: cb_list_def aesd_circular_buffer_init_def)

lemma cb_wf_length: "cb_wf b \<Longrightarrow> length (entry b) = 10"
  by (simp add: cb_wf_def)

lemma length_cb_list:
  "cb_wf b \<Longrightarrow> length (cb_list b) = (if full b then 10 else unat (in_offs b))"
  by (auto simp: cb_wf_def cb_list_def)

lemma cb_list_bound: "cb_wf b \<Longrightarrow> length (cb_list b) \<le> 10"
  by (simp add: length_cb_list) (simp add: cb_wf_def)

lemma cb_full_iff: "cb_wf b \<Longrightarrow> full b \<longleftrightarrow> length (cb_list b) = 10"
  by (auto simp: length_cb_list cb_wf_def)

text \<open>The two cases of an addition: a free slot, and a full ring.\<close>

lemma add_entry_not_full:
  assumes "cb_wf b" and "\<not> full b"
  shows "\<exists>b'. aesd_circular_buffer_add_entry b e = Inr (NULL, b') \<and> cb_wf b' \<and>
    cb_list b' = cb_list b @ [e]"
proof -
  let ?i = "unat (in_offs b)"
  let ?in = "if in_offs b + 1 = 10 then 0 else in_offs b + 1"
  let ?b = "b\<lparr>entry := (entry b)[?i := e], in_offs := ?in\<rparr>"
  let ?b' = "if ?in = out_offs b then ?b\<lparr>full := True\<rparr> else ?b"
  have wf: "length (entry b) = 10" "?i < 10" "out_offs b = 0"
    "list_all blank_entry (drop ?i (entry b))"
    using assms by (auto simp: cb_wf_def)
  have add: "aesd_circular_buffer_add_entry b e = Inr (NULL, ?b')"
    using assms wf by (simp add: aesd_circular_buffer_add_entry_def cb_evict_def cb_store_def Let_def)
  have u: "unat ?in = Suc ?i mod 10"
    using wf(2) by (rule unat_step_8)
  have z: "?in = 0 \<longleftrightarrow> ?i = 9"
    using u wf(2) by (auto simp: word_unat_eq_iff mod_Suc)
  have blank: "list_all blank_entry (drop (Suc ?i) (entry b))"
    using wf by (simp add: list_all_iff) (meson set_drop_subset_set_drop lessI less_imp_le subsetD)
  have "cb_wf ?b' \<and> cb_list ?b' = cb_list b @ [e]"
  proof (cases "?i = 9")
    case True
    then show ?thesis
      using wf assms z take_Suc_update [of 9 "entry b" e] by (simp add: cb_wf_def cb_list_def)
  next
    case False
    then have "?in \<noteq> 0" and "unat ?in = Suc ?i" and "?i < 9" using wf(2) z u by auto
    then show ?thesis
      using wf assms blank take_Suc_update [of ?i "entry b" e]
      by (simp add: cb_wf_def cb_list_def del: unat_eq_zero)
  qed
  with add show ?thesis by blast
qed

lemma add_entry_full:
  assumes "cb_wf b" and "full b"
  shows "\<exists>b'. aesd_circular_buffer_add_entry b e = Inr (buffptr (hd (cb_list b)), b') \<and> cb_wf b' \<and>
    full b' \<and> cb_list b' = tl (cb_list b) @ [e]"
proof -
  let ?i = "unat (out_offs b)"
  let ?o = "if out_offs b + 1 = 10 then 0 else out_offs b + 1"
  let ?b' = "b\<lparr>entry := (entry b)[?i := e], in_offs := ?o, out_offs := ?o, full := True\<rparr>"
  have wf: "length (entry b) = 10" "?i < 10" "in_offs b = out_offs b"
    using assms by (auto simp: cb_wf_def)
  have hd: "hd (cb_list b) = entry b ! ?i"
    using assms wf by (simp add: cb_list_def hd_drop_conv_nth)
  have add: "aesd_circular_buffer_add_entry b e = Inr (buffptr (hd (cb_list b)), ?b')"
    using assms wf
    by (simp add: aesd_circular_buffer_add_entry_def cb_evict_def cb_store_def Let_def hd)
  have u: "unat ?o = Suc ?i mod 10"
    using wf(2) by (rule unat_step_8)
  have tl: "tl (cb_list b) = drop (Suc ?i) (entry b) @ take ?i (entry b)"
    using assms wf by (simp add: cb_list_def tl_drop flip: drop_Suc)
  have "cb_list ?b' = tl (cb_list b) @ [e]"
  proof (cases "?i = 9")
    case True
    then show ?thesis
      using u wf take_Suc_update [of 9 "entry b" e] unfolding tl by (simp add: cb_list_def)
  next
    case False
    then show ?thesis
      using u wf take_Suc_update [of ?i "entry b" e] unfolding tl by (simp add: cb_list_def)
  qed
  moreover have "cb_wf ?b'"
    using wf u by (simp add: cb_wf_def)
  ultimately show ?thesis using add by (intro exI [of _ ?b']) simp
qed

lemma add_entry_fifo:
  assumes "cb_wf b"
  shows "\<exists>v b'. aesd_circular_buffer_add_entry b e = Inr (v, b') \<and> cb_wf b' \<and>
    cb_list b' = fifo_push 10 (cb_list b) e"
proof (cases "full b")
  case True
  with assms cb_full_iff [OF assms] show ?thesis
    using add_entry_full [OF assms True, of e] by (auto simp: fifo_push_def)
next
  case False
  with assms have "length (cb_list b) < 10"
    using cb_full_iff [OF assms] cb_list_bound [OF assms] by simp
  with assms show ?thesis
    using add_entry_not_full [OF assms False, of e] by (auto simp: fifo_push_def)
qed

interpretation cbuf: bounded_fifo AESDCHAR_MAX_WRITE_OPERATIONS_SUPPORTED
  "aesd_circular_buffer_init b" aesd_circular_buffer_add_entry cb_list cb_wf
  for b
  by unfold_locales (simp_all add: cb_wf_init cb_list_init cb_list_bound add_entry_fifo)

section \<open>The position search\<close>

text \<open>The sizes the loop meets: \<open>n\<close> slots of the ring from index \<open>c\<close> on.\<close>

definition ring_sizes :: "aesd_circular_buffer \<Rightarrow> nat \<Rightarrow> nat \<Rightarrow> nat list" where
  "ring_sizes b c n = map (\<lambda>i. unat (entry_size (entry b ! ((c + i) mod 10)))) [0..<n]"

lemma ring_sizes_0 [simp]: "ring_sizes b c 0 = []"
  by (simp add: ring_sizes_def)

lemma ring_sizes_Suc:
  "c < 10 \<Longrightarrow> ring_sizes b c (Suc n) =
     unat (entry_size (entry b ! c)) # ring_sizes b (Suc c mod 10) n"
  by (simp add: ring_sizes_def map_upt_Suc mod_simps del: upt_Suc)

lemma size_t_of_nat_step:
  "c < 10 \<Longrightarrow> (of_nat c + 1 :: size_t) mod 10 = of_nat (Suc c mod 10)"
  by (simp add: word_unat_eq_iff unat_word_ariths unat_of_nat unat_mod take_bit_eq_mod)

lemma unat_mod_64: "unat (w :: uint8_t) mod 18446744073709551616 = unat w"
  by (rule mod_less) (rule less_trans [OF unat_less_numeral_8], simp)

lemma size_t_of_nat_eq_ucast:
  "c < 10 \<Longrightarrow> (of_nat c :: size_t) = ucast (w :: uint8_t) \<longleftrightarrow> c = unat w"
  by (simp add: word_unat_eq_iff unat_of_nat take_bit_eq_mod unsigned_ucast_eq unat_mod_64)

lemma unat_of_nat_10 [simp]: "c < 10 \<Longrightarrow> unat (of_nat c :: size_t) = c"
  by (simp add: unat_of_nat take_bit_eq_mod)

lemma ring_distance: "m < 10 \<Longrightarrow> (c + m) mod 10 = c mod 10 \<longleftrightarrow> m = (0 :: nat)"
  using mod_eq_dvd_iff_nat [of c "c + m" 10] by (auto dest: nat_dvd_not_less)

lemma find_entry_loop_locate:
  assumes "length (entry b) = 10" and "c < 10" and "0 < n" and "n \<le> 10"
    and "(c + n) mod 10 = unat (in_offs b)"
    and "unat t + sum_list (ring_sizes b c n) < 2 ^ 64" and "t \<le> p"
  shows "find_entry_loop b p t (of_nat c) =
    Some (Inr (map_option (\<lambda>(i, q). ((c + i) mod 10, of_nat q))
      (locate (ring_sizes b c n) (unat p - unat t))))"
  using assms(2-)
proof (induction n arbitrary: c t)
  case 0
  then show ?case by simp
next
  case (Suc m)
  let ?e = "entry b ! c" and ?c' = "Suc c mod 10"
  let ?s = "unat (entry_size ?e)" and ?t' = "t + entry_size (entry b ! c)"
  have sizes: "ring_sizes b c (Suc m) = ?s # ring_sizes b ?c' m"
    using Suc.prems by (simp add: ring_sizes_Suc)
  have t': "unat ?t' = unat t + ?s"
    using Suc.prems(5) by (intro unat_add_lt) (simp add: sizes)
  have tp: "unat t \<le> unat p"
    using Suc.prems(6) by (simp add: word_le_nat_alt)
  have hit: "p < ?t' \<longleftrightarrow> unat p - unat t < ?s"
    using tp by (auto simp: word_less_nat_alt t')
  have step: "(of_nat c + 1 :: size_t) mod 10 = of_nat ?c'"
    using Suc.prems(1) by (rule size_t_of_nat_step)
  have last: "of_nat ?c' = (ucast (in_offs b) :: size_t) \<longleftrightarrow> m = 0"
    using Suc.prems(1,3,4) ring_distance [of m "Suc c"] by (auto simp: size_t_of_nat_eq_ucast)
  show ?case
  proof (cases "p < ?t'")
    case True
    then show ?thesis
      using hit Suc.prems(1,6) assms(1)
      by (simp add: find_entry_loop.simps [of b p t "of_nat c"] sizes of_nat_diff_unat del: of_nat_diff)
  next
    case False
    show ?thesis
    proof (cases "m = 0")
      case True
      with False show ?thesis
        using hit last Suc.prems(1) assms(1)
        by (simp add: find_entry_loop.simps [of b p t "of_nat c"] ring_sizes_Suc step)
    next
      case m: False
      have "find_entry_loop b p ?t' (of_nat ?c') =
        Some (Inr (map_option (\<lambda>(i, q). ((?c' + i) mod 10, of_nat q))
          (locate (ring_sizes b ?c' m) (unat p - unat ?t'))))"
        using m False Suc.prems by (intro Suc.IH) (auto simp: mod_simps t' sizes)
      then show ?thesis
        using hit last m False Suc.prems(1) assms(1)
        by (simp add: find_entry_loop.simps [of b p t "of_nat c"] sizes step t' Let_def
            option.map_comp comp_def case_prod_unfold mod_simps)
    qed
  qed
qed

lemma ring_sizes_full:
  assumes "length (entry b) = 10" and "c < 10"
  shows "ring_sizes b c 10 = entry_sizes (drop c (entry b) @ take c (entry b))"
proof (rule nth_equalityI)
  fix i assume "i < length (ring_sizes b c 10)"
  then have i: "i < 10" by (simp add: ring_sizes_def)
  have "(c + i) mod 10 = (if i < 10 - c then c + i else i - (10 - c))"
    using i assms(2) by (auto simp: mod_if)
  then show "ring_sizes b c 10 ! i = entry_sizes (drop c (entry b) @ take c (entry b)) ! i"
    using i assms by (auto simp: ring_sizes_def entry_sizes_def nth_append)
qed (use assms in \<open>simp add: ring_sizes_def entry_sizes_def\<close>)

lemma ring_sizes_prefix:
  "length (entry b) = 10 \<Longrightarrow> n \<le> 10 \<Longrightarrow> ring_sizes b 0 n = entry_sizes (take n (entry b))"
  by (rule nth_equalityI) (auto simp: ring_sizes_def entry_sizes_def)

lemma entry_sizes_blank: "list_all blank_entry es \<Longrightarrow> entry_sizes es = replicate (length es) 0"
  by (induction es) (auto simp: entry_sizes_def blank_entry_def)

text \<open>The loop visits the stored entries, or, in an empty buffer, ten blank ones.\<close>

lemma find_entry_scan:
  assumes "cb_wf b"
  obtains n where "0 < n" and "n \<le> 10" and "(unat (out_offs b) + n) mod 10 = unat (in_offs b)"
    and "locate (ring_sizes b (unat (out_offs b)) n) = locate (entry_sizes (cb_list b))"
    and "sum_list (ring_sizes b (unat (out_offs b)) n) = sum_list (entry_sizes (cb_list b))"
proof -
  have wf: "length (entry b) = 10" "unat (in_offs b) < 10" "unat (out_offs b) < 10"
    using assms by (auto simp: cb_wf_def)
  consider (full) "full b" "in_offs b = out_offs b" | (some) "\<not> full b" "0 < unat (in_offs b)" "out_offs b = 0"
    | (none) "\<not> full b" "in_offs b = 0" "out_offs b = 0" "list_all blank_entry (entry b)"
    using assms by (cases "in_offs b = 0") (auto simp: cb_wf_def unat_gt_0 split: if_splits)
  then show ?thesis
  proof cases
    case full
    then show ?thesis
      using wf by (intro that [of 10]) (simp_all add: ring_sizes_full cb_list_def)
  next
    case some
    then show ?thesis
      using wf by (intro that [of "unat (in_offs b)"]) (simp_all add: ring_sizes_prefix cb_list_def)
  next
    case none
    then have "ring_sizes b 0 10 = replicate 10 0"
      using wf by (simp add: ring_sizes_prefix entry_sizes_blank)
    with none show ?thesis
      by (intro that [of 10])
        (simp_all add: cb_list_def entry_sizes_def fun_eq_iff sum_list_replicate)
  qed
qed

lemma find_entry_locate:
  assumes "cb_wf b" and "sum_list (entry_sizes (cb_list b)) < 2 ^ 64"
  shows "aesd_circular_buffer_find_entry_offset_for_fpos b p =
    Some (Inr (map_option (\<lambda>(i, q). ((unat (out_offs b) + i) mod 10, of_nat q))
      (locate (entry_sizes (cb_list b)) (unat p))))"
proof -
  let ?c = "unat (out_offs b)"
  from find_entry_scan [OF assms(1)] obtain n where
    n: "0 < n" "n \<le> 10" "(?c + n) mod 10 = unat (in_offs b)"
      "locate (ring_sizes b ?c n) = locate (entry_sizes (cb_list b))"
      "sum_list (ring_sizes b ?c n) = sum_list (entry_sizes (cb_list b))" .
  have c: "?c < 10" "length (entry b) = 10"
    using assms(1) by (auto simp: cb_wf_def)
  have "(ucast (out_offs b) :: size_t) = of_nat ?c"
    using size_t_of_nat_eq_ucast [OF c(1)] by simp
  then show ?thesis
    using find_entry_loop_locate [of b ?c n 0 p] n c assms(2)
    by (simp add: aesd_circular_buffer_find_entry_offset_for_fpos_def)
qed

lemma cb_list_nth:
  assumes "cb_wf b" and "i < length (cb_list b)"
  shows "cb_list b ! i = entry b ! ((unat (out_offs b) + i) mod 10)"
proof (cases "full b")
  case True
  have wf: "length (entry b) = 10" "unat (out_offs b) < 10"
    using assms(1) by (auto simp: cb_wf_def)
  have i: "i < 10" using assms True by (simp add: length_cb_list)
  have "(unat (out_offs b) + i) mod 10 =
    (if i < 10 - unat (out_offs b) then unat (out_offs b) + i else i - (10 - unat (out_offs b)))"
    using i wf(2) by (auto simp: mod_if)
  then show ?thesis
    using True wf i by (auto simp: cb_list_def nth_append)
next
  case False
  with assms have "out_offs b = 0" "i < unat (in_offs b)" "unat (in_offs b) < 10"
    by (auto simp: cb_wf_def length_cb_list)
  with False show ?thesis by (simp add: cb_list_def)
qed

end
