(* ===== verification/Char_Driver.thy ===== *)
theory Char_Driver
  imports Circular_Buffer
begin

text \<open>
  The character driver of \<^verbatim>\<open>aesd-char-driver/main.c\<close> with the structures of
  \<^verbatim>\<open>aesdchar.h\<close> and \<^verbatim>\<open>aesd_ioctl.h\<close>: open, release, read, write, llseek, ioctl, module
  initialisation and clean-up over one device and the kernel heap. The kernel services the
  driver calls are not part of the repository; what they answer in a call (the address an
  allocation returns, the bytes a user copy could not transfer, whether a wait was
  interrupted) is an argument of the handler, and their documented effect on the memory
  and the mutex is written out.
\<close>

section \<open>Constants and structures\<close>

abbreviation EINTR :: "64 word" where "EINTR \<equiv> 4"
abbreviation ENOMEM :: "64 word" where "ENOMEM \<equiv> 12"
abbreviation EFAULT :: "64 word" where "EFAULT \<equiv> 14"
abbreviation EINVAL :: "64 word" where "EINVAL \<equiv> 22"
abbreviation ERESTARTSYS :: "64 word" where "ERESTARTSYS \<equiv> 512"

abbreviation SEEK_SET :: "32 word" where "SEEK_SET \<equiv> 0"
abbreviation SEEK_CUR :: "32 word" where "SEEK_CUR \<equiv> 1"
abbreviation SEEK_END :: "32 word" where "SEEK_END \<equiv> 2"

text \<open>The encoding of an ioctl number in \<^verbatim>\<open>asm-generic/ioctl.h\<close>: direction, size, type, number.\<close>

definition IOWR :: "nat \<Rightarrow> nat \<Rightarrow> nat \<Rightarrow> 32 word" where
  "IOWR ty nr sz = of_nat (3 * 2 ^ 30 + sz * 2 ^ 16 + ty * 2 ^ 8 + nr)"

record aesd_seekto =
  write_cmd :: uint32_t
  write_cmd_offset :: uint32_t

definition AESDCHAR_IOCSEEKTO :: "32 word" where
  "AESDCHAR_IOCSEEKTO = IOWR 0x16 1 8"

text \<open>
  The one object of type \<^verbatim>\<open>struct aesd_dev\<close> is the global \<^verbatim>\<open>aesd_device\<close>; an inode's
  \<^verbatim>\<open>i_cdev\<close> points to the \<^verbatim>\<open>cdev\<close> member of it.
\<close>

datatype aesd_dev_ref = Ref_aesd_device
datatype cdev_ref = Cdev_of aesd_dev_ref
datatype fops_ref = No_fops | Ref_aesd_fops

record cdev =
  owner_this_module :: bool
  cdev_ops :: fops_ref
  cdev_live :: bool

record aesd_dev =
  cdev :: cdev
  aesd_cb :: aesd_circular_buffer
  mx_lock :: bool
  tmp_buf :: ptr
  tmp_size :: size_t
  buffer_size :: "64 word"

record inode =
  i_cdev :: cdev_ref

record struct_file =
  private_data :: "aesd_dev_ref option"
  f_pos :: loff_t

record kernel =
  aesd_major :: nat
  chrdev_region :: bool
  aesd_device :: aesd_dev
  kheap :: heap

section \<open>Kernel services\<close>

text \<open>What the kernel answered during one call of a handler.\<close>

record answers =
  interrupted :: bool       \<comment> \<open>a signal ends the wait for a held mutex\<close>
  alloc :: "nat option"     \<comment> \<open>the address an allocation returns, \<^term>\<open>None\<close> when it fails\<close>
  missing :: size_t         \<comment> \<open>the bytes the user copy could not transfer\<close>
  stack_junk :: size_t      \<comment> \<open>the value of an uninitialised stack slot\<close>

abbreviation ZERO_SIZE_PTR :: ptr where "ZERO_SIZE_PTR \<equiv> Ptr 16"

definition mutex_lock_interruptible :: "bool \<Rightarrow> bool \<Rightarrow> (64 word \<times> bool) res" where
  "mutex_lock_interruptible intr locked =
     (if \<not> locked then Inr (0, True) else if intr then Inr (- EINTR, locked) else Inl Blocks)"

definition kmalloc :: "nat option \<Rightarrow> heap \<Rightarrow> nat \<Rightarrow> ptr \<times> heap" where
  "kmalloc ans h n =
     (if n = 0 then (ZERO_SIZE_PTR, h)
      else case ans of None \<Rightarrow> (NULL, h) | Some a \<Rightarrow> (Ptr a, h(a \<mapsto> replicate n None)))"

definition kfree :: "heap \<Rightarrow> ptr \<Rightarrow> heap res" where
  "kfree h p =
     (if p = NULL \<or> p = ZERO_SIZE_PTR then Inr h
      else case p of Ptr a \<Rightarrow> if h a = None then Inl Bad_Free else Inr (h(a := None)))"

definition krealloc :: "nat option \<Rightarrow> heap \<Rightarrow> ptr \<Rightarrow> nat \<Rightarrow> (ptr \<times> heap) res" where
  "krealloc ans h p n =
     (if p = NULL \<or> p = ZERO_SIZE_PTR then Inr (kmalloc ans h n)
      else if n = 0 then rbind (kfree h p) (\<lambda>h'. Inr (ZERO_SIZE_PTR, h'))
      else rbind (mem_block h p) (\<lambda>b.
        case ans of None \<Rightarrow> Inr (NULL, h)
        | Some a \<Rightarrow> rbind (kfree h p) (\<lambda>h'.
            Inr (Ptr a, h'(a \<mapsto> take n b @ replicate (n - length b) None)))))"

text \<open>
  \<^verbatim>\<open>copy_from_user\<close> copies the first \<open>count - missing\<close> of the user's bytes.
\<close>

definition copy_from_user ::
  "heap \<Rightarrow> ptr \<Rightarrow> nat \<Rightarrow> byte list \<Rightarrow> size_t \<Rightarrow> size_t \<Rightarrow> heap res" where
  "copy_from_user h p off ub count miss = mem_write h p off (take (unat (count - miss)) ub)"

section \<open>Open, release, read\<close>

definition container_of_cdev :: "cdev_ref \<Rightarrow> aesd_dev_ref" where
  "container_of_cdev r = (case r of Cdev_of d \<Rightarrow> d)"

definition aesd_open :: "inode \<Rightarrow> struct_file \<Rightarrow> 64 word \<times> struct_file" where
  "aesd_open inode filp =
     (let dev = container_of_cdev (i_cdev inode) in (0, filp\<lparr>private_data := Some dev\<rparr>))"

definition aesd_release :: "inode \<Rightarrow> struct_file \<Rightarrow> 64 word \<times> struct_file" where
  "aesd_release inode filp = (0, filp)"

definition file_dev :: "kernel \<Rightarrow> struct_file \<Rightarrow> aesd_dev res" where
  "file_dev k filp =
     (case private_data filp of None \<Rightarrow> Inl Null_Deref | Some Ref_aesd_device \<Rightarrow> Inr (aesd_device k))"

text \<open>
  A read returns the result, the new \<^verbatim>\<open>*f_pos\<close> and the bytes that reached the user's buffer;
  \<open>buf\<close> is the user's pointer, \<open>miss\<close> the bytes \<^verbatim>\<open>copy_to_user\<close> could not transfer.
\<close>

definition aesd_read ::
  "kernel \<Rightarrow> struct_file \<Rightarrow> ptr \<Rightarrow> size_t \<Rightarrow> loff_t \<Rightarrow> size_t \<Rightarrow> (ssize_t \<times> loff_t \<times> byte list) res" where
  "aesd_read k filp buf count pos miss =
     (if buf = NULL then Inr (- EFAULT, pos, [])
      else rbind (file_dev k filp) (\<lambda>dev.
        case aesd_circular_buffer_find_entry_offset_for_fpos (aesd_cb dev) pos of
          None \<Rightarrow> Inl Diverges
        | Some found \<Rightarrow> rbind found (\<lambda>start.
            case start of
              None \<Rightarrow> Inr (0, pos, [])
            | Some (i, start_entry_off) \<Rightarrow>
                rbind (array_get (entry (aesd_cb dev)) i) (\<lambda>start_entry.
                  let avail = entry_size start_entry - start_entry_off;
                      read_length = (if avail > count then count else avail)
                  in rbind (mem_read (kheap k) (buffptr start_entry) (unat start_entry_off)
                             (unat read_length)) (\<lambda>bytes.
                       if miss \<noteq> 0
                       then Inr (- EFAULT, pos, take (unat read_length - unat miss) bytes)
                       else Inr (read_length, pos + read_length, bytes))))))"

section \<open>Write\<close>

text \<open>
  Filling the pending buffer: a growing command is reallocated, a new one allocated; the new
  part is cleared and copied from the user. \<^term>\<open>None\<close> is a failed allocation, after which
  the handler returns \<^verbatim>\<open>-ENOMEM\<close> at once.
\<close>

definition write_fill ::
  "kernel \<Rightarrow> byte list \<Rightarrow> size_t \<Rightarrow> answers \<Rightarrow> (ssize_t option \<times> kernel) res" where
  "write_fill k ub count ans =
     (let dev = aesd_device k in
      if tmp_size dev > 0
      then rbind (krealloc (alloc ans) (kheap k) (tmp_buf dev) (unat (tmp_size dev + count)))
        (\<lambda>(p, h).
          if p = NULL then Inr (None, k\<lparr>aesd_device := dev\<lparr>tmp_buf := p\<rparr>, kheap := h\<rparr>)
          else rbind (mem_write h p (unat (tmp_size dev)) (replicate (unat count) NUL)) (\<lambda>h1.
            rbind (copy_from_user h1 p (unat (tmp_size dev)) ub count (missing ans)) (\<lambda>h2.
              let retval = count - missing ans
              in Inr (Some retval,
                   k\<lparr>aesd_device := dev\<lparr>tmp_buf := p, tmp_size := tmp_size dev + retval\<rparr>,
                     kheap := h2\<rparr>))))
      else (let (p, h) = kmalloc (alloc ans) (kheap k) (unat count)
        in if p = NULL then Inr (None, k\<lparr>aesd_device := dev\<lparr>tmp_buf := p\<rparr>, kheap := h\<rparr>)
           else rbind (mem_write h p 0 (replicate (unat count) NUL)) (\<lambda>h1.
             rbind (copy_from_user h1 p 0 ub count (missing ans)) (\<lambda>h2.
               let retval = count - missing ans
               in Inr (Some retval,
                    k\<lparr>aesd_device := dev\<lparr>tmp_buf := p, tmp_size := retval\<rparr>, kheap := h2\<rparr>)))))"

text \<open>Releasing the slot a full ring is about to overwrite.\<close>

definition write_evict ::
  "heap \<Rightarrow> aesd_circular_buffer \<Rightarrow> (heap \<times> aesd_circular_buffer) res" where
  "write_evict h cb =
     (if full cb
      then rbind (array_get (entry cb) (unat (in_offs cb))) (\<lambda>e.
        rbind (if buffptr e \<noteq> NULL then kfree h (buffptr e) else Inr h) (\<lambda>h'.
          rbind (array_set (entry cb) (unat (in_offs cb)) (e\<lparr>entry_size := 0\<rparr>)) (\<lambda>es.
            Inr (h', cb\<lparr>entry := es\<rparr>))))
      else Inr (h, cb))"

text \<open>
  Committing a pending buffer that holds a newline. The entry's \<^verbatim>\<open>offset\<close> member is the
  content of an uninitialised local variable; no code reads it.
\<close>

definition write_commit :: "kernel \<Rightarrow> answers \<Rightarrow> kernel res" where
  "write_commit k ans =
     (let dev = aesd_device k in
      rbind (mem_chr (kheap k) (tmp_buf dev) NEWLINE (unat (tmp_size dev))) (\<lambda>nl.
        if nl = None then Inr k
        else rbind (write_evict (kheap k) (aesd_cb dev)) (\<lambda>(h, cb).
          let new_entry = \<lparr>buffptr = tmp_buf dev, entry_size = tmp_size dev,
                           entry_offset = stack_junk ans\<rparr>
          in rbind (aesd_circular_buffer_add_entry cb new_entry) (\<lambda>(_, cb').
               Inr (k\<lparr>aesd_device := dev\<lparr>aesd_cb := cb', tmp_buf := NULL, tmp_size := 0\<rparr>,
                      kheap := h\<rparr>)))))"

definition set_lock :: "bool \<Rightarrow> kernel \<Rightarrow> kernel" where
  "set_lock l k = k\<lparr>aesd_device := (aesd_device k)\<lparr>mx_lock := l\<rparr>\<rparr>"

text \<open>
  \<open>buf\<close> is the user's buffer, \<^term>\<open>None\<close> for a null pointer. The failed allocation returns
  without releasing the mutex, as the source does.
\<close>

definition aesd_write ::
  "kernel \<Rightarrow> struct_file \<Rightarrow> byte list option \<Rightarrow> size_t \<Rightarrow> answers \<Rightarrow> (ssize_t \<times> kernel) res" where
  "aesd_write k filp buf count ans =
     (case buf of
        None \<Rightarrow> Inr (- EFAULT, k)
      | Some ub \<Rightarrow> rbind (file_dev k filp) (\<lambda>dev.
          rbind (mutex_lock_interruptible (interrupted ans) (mx_lock dev)) (\<lambda>(r, locked).
            if r \<noteq> 0 then Inr (- ERESTARTSYS, k)
            else rbind (write_fill (set_lock locked k) ub count ans) (\<lambda>(res, k1).
              case res of
                None \<Rightarrow> Inr (- ENOMEM, k1)
              | Some retval \<Rightarrow> rbind (write_commit k1 ans) (\<lambda>k2.
                  let k3 = set_lock False k2; d = aesd_device k3
                  in Inr (retval, k3\<lparr>aesd_device := d\<lparr>buffer_size := buffer_size d + retval\<rparr>\<rparr>))))))"

section \<open>Seeking\<close>

text \<open>
  The kernel is compiled so that signed overflow wraps (\<^verbatim>\<open>-fno-strict-overflow\<close>), and the
  end position is computed in \<^verbatim>\<open>unsigned long\<close>.
\<close>

definition aesd_llseek :: "kernel \<Rightarrow> struct_file \<Rightarrow> loff_t \<Rightarrow> 32 word \<Rightarrow> loff_t \<times> struct_file" where
  "aesd_llseek k filp off whence =
     (let newpos = (if whence = SEEK_SET then Some off
                    else if whence = SEEK_CUR then Some (f_pos filp + off)
                    else if whence = SEEK_END then Some (buffer_size (aesd_device k) + off)
                    else None)
      in case newpos of
           None \<Rightarrow> (- EINVAL, filp)
         | Some np \<Rightarrow> if sint np < 0 then (- EINVAL, filp) else (np, filp\<lparr>f_pos := np\<rparr>))"

text \<open>
  The loop over the entries before the requested command; the \<^verbatim>\<open>break\<close> on an unused entry
  leaves the loop with \<^verbatim>\<open>retval = -EINVAL\<close> and the sum so far.
\<close>

function seek_loop :: "aesd_buffer_entry list \<Rightarrow> nat \<Rightarrow> nat \<Rightarrow> loff_t \<Rightarrow> (64 word \<times> loff_t) res" where
  "seek_loop es index cmd loc_off =
     (if index < cmd
      then rbind (array_get es index) (\<lambda>e.
        if buffptr e \<noteq> NULL \<and> entry_size e > 0
        then seek_loop es (Suc index) cmd (loc_off + entry_size e)
        else Inr (- EINVAL, loc_off))
      else Inr (0, loc_off))"
  by pat_completeness auto
termination
  by (relation "measure (\<lambda>(es, index, cmd, loc_off). cmd - index)") auto

definition seek_entry ::
  "aesd_buffer_entry list \<Rightarrow> aesd_seekto \<Rightarrow> struct_file \<Rightarrow> (64 word \<times> struct_file) res" where
  "seek_entry es seek filp =
     rbind (seek_loop es 0 (unat (write_cmd seek)) 0) (\<lambda>(retval, loc_off).
       rbind (array_get es (unat (write_cmd seek))) (\<lambda>e.
         if buffptr e \<noteq> NULL \<and> entry_size e > 0
         then if ucast (write_cmd_offset seek) > entry_size e then Inr (- EINVAL, filp)
              else Inr (retval, filp\<lparr>f_pos := loc_off + ucast (write_cmd_offset seek)\<rparr>)
         else Inr (- EINVAL, filp)))"

text \<open>
  \<open>seek\<close> is the structure at the user's \<^verbatim>\<open>arg\<close>. The mutex taken before the loop is released
  on every path after it, so the device is unchanged. The test \<^verbatim>\<open>write_cmd < 0\<close> of an
  unsigned member never holds.
\<close>

definition aesd_ioctl ::
  "kernel \<Rightarrow> struct_file \<Rightarrow> 32 word \<Rightarrow> aesd_seekto \<Rightarrow> answers \<Rightarrow> (64 word \<times> struct_file \<times> kernel) res" where
  "aesd_ioctl k filp cmd seek ans =
     (if cmd = AESDCHAR_IOCSEEKTO
      then if missing ans \<noteq> 0 then Inr (- EINVAL, filp, k)
        else if unat (write_cmd seek) > AESDCHAR_MAX_WRITE_OPERATIONS_SUPPORTED
        then Inr (- EINVAL, filp, k)
        else rbind (file_dev k filp) (\<lambda>dev.
          rbind (mutex_lock_interruptible (interrupted ans) (mx_lock dev)) (\<lambda>(r, locked).
            if r \<noteq> 0 then Inr (- ERESTARTSYS, filp, k)
            else rbind (seek_entry (entry (aesd_cb dev)) seek filp) (\<lambda>(retval, filp').
              Inr (retval, filp', set_lock False k))))
      else Inr (- EINVAL, filp, k))"

section \<open>The module\<close>

definition aesd_setup_cdev :: "aesd_dev \<Rightarrow> int \<Rightarrow> int \<times> aesd_dev" where
  "aesd_setup_cdev dev cdev_add_result =
     (let c1 = \<lparr>owner_this_module = False, cdev_ops = Ref_aesd_fops, cdev_live = False\<rparr>;
          c2 = c1\<lparr>owner_this_module := True\<rparr>;
          c3 = c2\<lparr>cdev_ops := Ref_aesd_fops\<rparr>
      in (cdev_add_result, dev\<lparr>cdev := c3\<lparr>cdev_live := (cdev_add_result = 0)\<rparr>\<rparr>))"

definition zero_dev :: "aesd_dev \<Rightarrow> aesd_dev" where
  "zero_dev dev =
     \<lparr>cdev = \<lparr>owner_this_module = False, cdev_ops = No_fops, cdev_live = False\<rparr>,
      aesd_cb = aesd_circular_buffer_init (aesd_cb dev),
      mx_lock = False, tmp_buf = NULL, tmp_size = 0, buffer_size = 0\<rparr>"

text \<open>
  \<open>region\<close> is the result of \<^verbatim>\<open>alloc_chrdev_region\<close> with the major number it stored,
  \<open>cdev_add_result\<close> the result of \<^verbatim>\<open>cdev_add\<close>.
\<close>

definition aesd_init_module :: "kernel \<Rightarrow> int \<Rightarrow> nat \<Rightarrow> int \<Rightarrow> int \<times> kernel" where
  "aesd_init_module k region major cdev_add_result =
     (let k1 = k\<lparr>aesd_major := major\<rparr> in
      if region < 0 then (region, k1)
      else
        let d1 = zero_dev (aesd_device k1);
            d2 = d1\<lparr>aesd_cb := aesd_circular_buffer_init (aesd_cb d1), tmp_buf := NULL,
                    tmp_size := 0, mx_lock := False\<rparr>;
            (result, d3) = aesd_setup_cdev d2 cdev_add_result
        in (result, k1\<lparr>chrdev_region := (result = 0), aesd_device := d3\<rparr>))"

text \<open>The clean-up iterates with \<^verbatim>\<open>AESD_CIRCULAR_BUFFER_FOREACH\<close> over all ten slots.\<close>

definition cleanup_body :: "aesd_buffer_entry \<Rightarrow> heap \<Rightarrow> (aesd_buffer_entry \<times> heap) res" where
  "cleanup_body e h =
     (if entry_size e > 0 \<and> buffptr e \<noteq> NULL
      then rbind (kfree h (buffptr e)) (\<lambda>h'. Inr (e\<lparr>entry_size := 0\<rparr>, h'))
      else Inr (e, h))"

definition aesd_cleanup_module :: "kernel \<Rightarrow> kernel res" where
  "aesd_cleanup_module k =
     (let d1 = (aesd_device k)\<lparr>cdev := (cdev (aesd_device k))\<lparr>cdev_live := False\<rparr>\<rparr> in
      rbind (AESD_CIRCULAR_BUFFER_FOREACH cleanup_body 0 (entry (aesd_cb d1)) (kheap k)) (\<lambda>(es, h).
        Inr (k\<lparr>aesd_device := d1\<lparr>aesd_cb := (aesd_cb d1)\<lparr>entry := es\<rparr>\<rparr>,
               kheap := h, chrdev_region := False\<rparr>)))"

declare seek_loop.simps [simp del]

lemma cleanup_step:
  "AESD_CIRCULAR_BUFFER_FOREACH cleanup_body index es h =
     (if index < AESDCHAR_MAX_WRITE_OPERATIONS_SUPPORTED
      then rbind (array_get es index) (\<lambda>e.
        if entry_size e > 0 \<and> buffptr e \<noteq> NULL
        then rbind (kfree h (buffptr e)) (\<lambda>h'. rbind (array_set es index (e\<lparr>entry_size := 0\<rparr>))
          (\<lambda>es'. AESD_CIRCULAR_BUFFER_FOREACH cleanup_body (Suc index) es' h'))
        else AESD_CIRCULAR_BUFFER_FOREACH cleanup_body (Suc index) es h)
      else Inr (es, h))"
  by (subst AESD_CIRCULAR_BUFFER_FOREACH.simps)
    (auto simp: cleanup_body_def array_get_def array_set_def rbind_def split: sum.splits)

end
