(* ===== verification/Device_Interface.thy ===== *)
theory Device_Interface
  imports Circular_Buffer
begin

text \<open>
  The contract between the character device and its users. The abstract device is the list
  of the last ten commands and the bytes of a command still without a newline. The locale
  \<open>char_device\<close> states what a user of the device relies on; what users derive from it
  (draining the device with a read loop, writing a command in pieces) is proved inside.
\<close>

section \<open>The abstract device\<close>

type_synonym device = "byte list list \<times> byte list"

definition empty_device :: device where
  "empty_device = ([], [])"

definition device_write :: "device \<Rightarrow> byte list \<Rightarrow> device" where
  "device_write st bs =
     (let cmds = fst st; pend = snd st @ bs
      in if NEWLINE \<in> set pend then (fifo_push 10 cmds pend, []) else (cmds, pend))"

definition device_bytes :: "device \<Rightarrow> byte list" where
  "device_bytes st = concat (fst st)"

text \<open>One read returns bytes of one command only: at most the rest of it.\<close>

definition device_read :: "device \<Rightarrow> nat \<Rightarrow> nat \<Rightarrow> byte list" where
  "device_read st pos count =
     (case locate (map length (fst st)) pos of
        None \<Rightarrow> []
      | Some (i, q) \<Rightarrow> take count (drop q (fst st ! i)))"

text \<open>A user that reads until it gets nothing, with fuel for the number of reads.\<close>

fun drain :: "(nat \<Rightarrow> byte list res) \<Rightarrow> nat \<Rightarrow> nat \<Rightarrow> byte list res" where
  "drain rd 0 pos = Inl Diverges"
| "drain rd (Suc n) pos =
     rbind (rd pos) (\<lambda>bs. if bs = [] then Inr []
       else rbind (drain rd n (pos + length bs)) (\<lambda>rest. Inr (bs @ rest)))"

text \<open>A user that writes a command in pieces, with the answers the kernel gives to each.\<close>

fun write_pieces :: "('k \<Rightarrow> 'ans \<Rightarrow> byte list \<Rightarrow> (nat \<times> 'k) res) \<Rightarrow> 'k \<Rightarrow>
    ('ans \<times> byte list) list \<Rightarrow> 'k res" where
  "write_pieces wr k [] = Inr k"
| "write_pieces wr k ((a, bs) # ps) = rbind (wr k a bs) (\<lambda>(n, k'). write_pieces wr k' ps)"

text \<open>The answers are acceptable at every state the writes go through.\<close>

fun pieces_ok :: "('k \<Rightarrow> 'ans \<Rightarrow> byte list \<Rightarrow> (nat \<times> 'k) res) \<Rightarrow>
    ('k \<Rightarrow> 'ans \<Rightarrow> byte list \<Rightarrow> bool) \<Rightarrow> 'k \<Rightarrow> ('ans \<times> byte list) list \<Rightarrow> bool" where
  "pieces_ok wr okp k [] = True"
| "pieces_ok wr okp k ((a, bs) # ps) =
     (okp k a bs \<and> (case wr k a bs of Inl e \<Rightarrow> False | Inr (n, k') \<Rightarrow> pieces_ok wr okp k' ps))"

section \<open>Facts about the abstract device\<close>

lemma device_read_prefix:
  "\<exists>rest. drop pos (device_bytes st) = device_read st pos count @ rest"
proof (cases "locate (map length (fst st)) pos")
  case None
  then show ?thesis by (simp add: device_read_def)
next
  case (Some iq)
  then obtain i q where l: "locate (map length (fst st)) pos = Some (i, q)" by (cases iq) auto
  have "drop q (fst st ! i) = take count (drop q (fst st ! i)) @ drop count (drop q (fst st ! i))"
    by (rule append_take_drop_id [symmetric])
  then have "drop pos (device_bytes st) =
      take count (drop q (fst st ! i)) @ drop count (drop q (fst st ! i)) @ concat (drop (Suc i) (fst st))"
    using locate_concat_drop [OF l] by (simp add: device_bytes_def)
  with l show ?thesis by (auto simp: device_read_def)
qed

lemma device_read_drop:
  "drop pos (device_bytes st) =
     device_read st pos count @ drop (pos + length (device_read st pos count)) (device_bytes st)"
proof -
  obtain rest where r: "drop pos (device_bytes st) = device_read st pos count @ rest"
    using device_read_prefix by blast
  then have "rest = drop (length (device_read st pos count)) (drop pos (device_bytes st))"
    by simp
  with r show ?thesis by (simp add: add.commute)
qed

lemma device_read_empty_iff:
  assumes "0 < count"
  shows "device_read st pos count = [] \<longleftrightarrow> length (device_bytes st) \<le> pos"
proof (cases "locate (map length (fst st)) pos")
  case None
  then show ?thesis
    using locate_None_iff [of "map length (fst st)" pos]
    by (simp add: device_read_def device_bytes_def length_concat)
next
  case (Some iq)
  then obtain i q where l: "locate (map length (fst st)) pos = Some (i, q)" by (cases iq) auto
  then have "\<not> sum_list (map length (fst st)) \<le> pos"
    using locate_None_iff [of "map length (fst st)" pos] by auto
  moreover have "q < length (fst st ! i)"
    using locate_Some_bounds [OF l] by auto
  ultimately show ?thesis
    using l assms by (simp add: device_read_def device_bytes_def length_concat)
qed

text \<open>Pieces that complete one command, the newline being its last byte.\<close>

lemma device_write_pieces:
  assumes "NEWLINE \<notin> set pend" and "concat ps = bs @ [NEWLINE]" and "NEWLINE \<notin> set bs"
    and "list_all (\<lambda>p. p \<noteq> []) ps"
  shows "foldl device_write (cmds, pend) ps = (fifo_push 10 cmds (pend @ bs @ [NEWLINE]), [])"
  using assms
proof (induction ps arbitrary: pend bs)
  case Nil
  then show ?case by simp
next
  case (Cons p ps)
  show ?case
  proof (cases "ps = []")
    case True
    with Cons.prems show ?thesis by (simp add: device_write_def)
  next
    case False
    then have "concat ps \<noteq> []" using Cons.prems(4) by (cases ps) auto
    then obtain bs' where bs': "concat ps = bs' @ [NEWLINE]" "bs = p @ bs'"
      using Cons.prems(2) by (metis append_assoc append_butlast_last_id butlast_append concat.simps(2)
          last_appendR last_snoc butlast_snoc)
    with Cons show ?thesis by (simp add: device_write_def)
  qed
qed

text \<open>Pieces of bytes whose only newline, if there is one, is the last byte.\<close>

lemma device_write_none:
  "NEWLINE \<notin> set pend \<Longrightarrow> NEWLINE \<notin> set (concat ps) \<Longrightarrow>
   foldl device_write (cmds, pend) ps = (cmds, pend @ concat ps)"
  by (induction ps arbitrary: pend) (auto simp: device_write_def)

lemma device_write_split:
  assumes "NEWLINE \<notin> set pend" and "NEWLINE \<notin> set (butlast (concat ps))" and "list_all (\<lambda>p. p \<noteq> []) ps"
  shows "foldl device_write (cmds, pend) ps = device_write (cmds, pend) (concat ps)"
proof (cases "NEWLINE \<in> set (concat ps)")
  case False
  with assms(1) show ?thesis
    using device_write_none [of pend ps cmds] by (simp add: device_write_def)
next
  case True
  then have ne: "concat ps \<noteq> []" by (metis empty_iff list.set(1))
  have "last (concat ps) = NEWLINE"
    using True assms(2) append_butlast_last_id [OF ne] by (metis Un_iff set_append set_ConsD empty_iff list.set(1))
  then have "concat ps = butlast (concat ps) @ [NEWLINE]"
    using append_butlast_last_id [OF ne] by simp
  then show ?thesis
    using device_write_pieces [OF assms(1) _ assms(2,3), of cmds] True by (simp add: device_write_def)
qed

text \<open>Whole commands, one write each.\<close>

lemma device_write_commands:
  "list_all (\<lambda>c. NEWLINE \<in> set c) cs \<Longrightarrow>
   foldl device_write (cmds, []) cs = (foldl (fifo_push 10) cmds cs, [])"
  by (induction cs arbitrary: cmds) (auto simp: device_write_def)

section \<open>The interface\<close>

locale char_device =
  fixes rel :: "'k \<Rightarrow> device \<Rightarrow> bool"
    and wr :: "'k \<Rightarrow> 'ans \<Rightarrow> byte list \<Rightarrow> (nat \<times> 'k) res"
    and wr_ok :: "'k \<Rightarrow> 'ans \<Rightarrow> byte list \<Rightarrow> bool"
    and rd :: "'k \<Rightarrow> nat \<Rightarrow> nat \<Rightarrow> byte list res"
    and max_pos :: nat
  assumes no_pending_newline: "rel k st \<Longrightarrow> NEWLINE \<notin> set (snd st)"
    and bytes_bound: "rel k st \<Longrightarrow> length (device_bytes st) < max_pos"
    and write_law: "rel k st \<Longrightarrow> wr_ok k a bs \<Longrightarrow>
      \<exists>k'. wr k a bs = Inr (length bs, k') \<and> rel k' (device_write st bs)"
    and read_law: "rel k st \<Longrightarrow> pos < max_pos \<Longrightarrow> count < max_pos \<Longrightarrow>
      rd k pos count = Inr (device_read st pos count)"
begin

lemma drain_all:
  assumes "rel k st" and "0 < count" and "count < max_pos"
    and "length (device_bytes st) - pos < fuel" and "pos < max_pos"
  shows "drain (\<lambda>p. rd k p count) fuel pos = Inr (drop pos (device_bytes st))"
  using assms(4,5)
proof (induction fuel arbitrary: pos)
  case 0
  then show ?case by simp
next
  case (Suc n)
  let ?r = "device_read st pos count"
  have r: "rd k pos count = Inr ?r"
    using assms Suc.prems by (simp add: read_law)
  show ?case
  proof (cases "?r = []")
    case True
    with r assms(2) show ?thesis by (simp add: device_read_empty_iff)
  next
    case False
    have split: "drop pos (device_bytes st) = ?r @ drop (pos + length ?r) (device_bytes st)"
      by (rule device_read_drop)
    have "pos < length (device_bytes st)"
      using False assms(2) device_read_empty_iff [of count st pos] by simp
    moreover have "length ?r \<le> length (device_bytes st) - pos"
      using arg_cong [OF split, of length] by simp
    ultimately have "drain (\<lambda>p. rd k p count) n (pos + length ?r) =
        Inr (drop (pos + length ?r) (device_bytes st))"
      using False Suc.prems bytes_bound [OF assms(1)]
      by (intro Suc.IH) (auto simp flip: length_greater_0_conv)
    with r False split show ?thesis by simp
  qed
qed

lemma write_pieces_fold:
  assumes "rel k st" and "pieces_ok wr wr_ok k ps"
  shows "\<exists>k'. write_pieces wr k ps = Inr k' \<and> rel k' (foldl device_write st (map snd ps))"
  using assms
proof (induction ps arbitrary: k st)
  case Nil
  then show ?case by simp
next
  case (Cons p ps)
  obtain a bs where p: "p = (a, bs)" by (cases p)
  with Cons.prems obtain k1 where "wr k a bs = Inr (length bs, k1)" "rel k1 (device_write st bs)"
    using write_law [of k st a bs] by auto
  with Cons p show ?case by simp
qed

end



end
