(* ===== verification/Driver_Refinement.thy ===== *)
theory Driver_Refinement
  imports Char_Driver Device_Interface
begin

text \<open>
  The handlers of the driver implement the abstract device of \<^verbatim>\<open>Device_Interface\<close>. The
  relation \<open>dev_rel\<close> ties a kernel state to an abstract device; it carries the ring's
  well-formedness, the ownership of the heap blocks and the state of the mutex.
\<close>

section \<open>The refinement relation\<close>

definition entry_holds :: "heap \<Rightarrow> aesd_buffer_entry \<Rightarrow> byte list \<Rightarrow> bool" where
  "entry_holds h e c \<longleftrightarrow> holds_bytes h (buffptr e) c \<and> unat (entry_size e) = length c"

text \<open>
  A stored command ends up there because a newline was found in it; no block of the
  kernel's address space (at most \<^term>\<open>2 ^ 57\<close> bytes) reaches \<^term>\<open>2 ^ 59\<close> bytes.
\<close>

definition cmd_ok :: "byte list \<Rightarrow> bool" where
  "cmd_ok c \<longleftrightarrow> NEWLINE \<in> set c \<and> length c < 2 ^ 59"

definition ring_ptrs :: "kernel \<Rightarrow> ptr list" where
  "ring_ptrs k = map buffptr (cb_list (aesd_cb (aesd_device k)))"

definition dev_data :: "kernel \<Rightarrow> device \<Rightarrow> bool" where
  "dev_data k st \<longleftrightarrow>
     cb_wf (aesd_cb (aesd_device k)) \<and>
     list_all2 (entry_holds (kheap k)) (cb_list (aesd_cb (aesd_device k))) (fst st) \<and>
     list_all cmd_ok (fst st) \<and>
     distinct (ring_ptrs k) \<and>
     unat (tmp_size (aesd_device k)) = length (snd st) \<and>
     length (snd st) < 2 ^ 59 \<and>
     (snd st \<noteq> [] \<longrightarrow> holds_bytes (kheap k) (tmp_buf (aesd_device k)) (snd st) \<and>
        tmp_buf (aesd_device k) \<notin> set (ring_ptrs k)) \<and>
     kheap k 16 = None"

definition dev_rel :: "kernel \<Rightarrow> device \<Rightarrow> bool" where
  "dev_rel k st \<longleftrightarrow> dev_data k st \<and> NEWLINE \<notin> set (snd st) \<and> \<not> mx_lock (aesd_device k)"

text \<open>
  The answers of a kernel that works: a granted allocation is a free address (or, for a
  reallocation, the old one) of a size the address space has, and no more bytes are missing
  than were asked for.
\<close>

definition answers_ok :: "kernel \<Rightarrow> byte list \<Rightarrow> size_t \<Rightarrow> answers \<Rightarrow> bool" where
  "answers_ok k ub count ans \<longleftrightarrow>
     (case alloc ans of None \<Rightarrow> False
      | Some a \<Rightarrow> a \<noteq> 16 \<and>
          (kheap k a = None \<or> tmp_size (aesd_device k) > 0 \<and> tmp_buf (aesd_device k) = Ptr a)) \<and>
     unat (tmp_size (aesd_device k)) + unat count < 2 ^ 59 \<and>
     missing ans \<le> count \<and> unat (count - missing ans) \<le> length ub"

definition copied :: "byte list \<Rightarrow> size_t \<Rightarrow> answers \<Rightarrow> byte list" where
  "copied ub count ans = take (unat (count - missing ans)) ub"

section \<open>Memory lemmas\<close>

lemma mem_write_block:
  assumes "h a = Some (map Some xs @ rest)" and "length ys \<le> length rest"
  shows "mem_write h (Ptr a) (length xs) ys =
    Inr (h(a \<mapsto> map Some (xs @ ys) @ drop (length ys) rest))"
  using assms by (auto simp: mem_write_def map_upd_triv)

lemma holds_bytes_upd [simp]: "holds_bytes (h(a \<mapsto> map Some bs @ rest)) (Ptr a) bs"
  by (simp add: holds_bytes_Ptr)

lemma holds_bytes_live: "holds_bytes h (Ptr a) bs \<Longrightarrow> h a \<noteq> None"
  by (auto simp: holds_bytes_Ptr)

lemma entries_hold_upd:
  assumes "list_all2 (entry_holds h) es cs" and "Ptr a \<notin> set (map buffptr es)"
  shows "list_all2 (entry_holds (h(a := x))) es cs"
  using assms by (induction rule: list_all2_induct) (auto simp: entry_holds_def holds_bytes_other)

lemma entries_hold_fresh:
  assumes "list_all2 (entry_holds h) es cs" and "h a = None"
  shows "Ptr a \<notin> set (map buffptr es)"
proof
  assume "Ptr a \<in> set (map buffptr es)"
  then obtain i where "i < length es" "buffptr (es ! i) = Ptr a"
    by (auto simp: in_set_conv_nth)
  with assms(1) have "holds_bytes h (Ptr a) (cs ! i)"
    by (auto simp: list_all2_conv_all_nth entry_holds_def)
  with assms(2) show False by (auto dest: holds_bytes_live)
qed

lemma dev_data_sum:
  assumes "dev_data k st"
  shows "entry_sizes (cb_list (aesd_cb (aesd_device k))) = map length (fst st)"
    and "sum_list (map length (fst st)) < 2 ^ 63"
proof -
  let ?es = "cb_list (aesd_cb (aesd_device k))"
  have holds: "list_all2 (entry_holds (kheap k)) ?es (fst st)"
    and len: "length ?es \<le> 10" and ok: "list_all cmd_ok (fst st)"
    using assms cb_list_bound by (auto simp: dev_data_def)
  from holds show "entry_sizes ?es = map length (fst st)"
    by (auto simp: entry_sizes_def list_all2_conv_all_nth entry_holds_def intro: nth_equalityI)
  have "length (fst st) \<le> 10"
    using holds len by (auto dest: list_all2_lengthD)
  moreover have "sum_list (map length (fst st)) \<le> length (fst st) * 2 ^ 59"
    using ok by (induction "fst st" arbitrary: st) (auto simp: cmd_ok_def)
  ultimately show "sum_list (map length (fst st)) < 2 ^ 63" by simp
qed

section \<open>Writing\<close>

lemma set_lock_simps [simp]:
  "kheap (set_lock l k) = kheap k"
  "aesd_cb (aesd_device (set_lock l k)) = aesd_cb (aesd_device k)"
  "tmp_buf (aesd_device (set_lock l k)) = tmp_buf (aesd_device k)"
  "tmp_size (aesd_device (set_lock l k)) = tmp_size (aesd_device k)"
  "buffer_size (aesd_device (set_lock l k)) = buffer_size (aesd_device k)"
  "mx_lock (aesd_device (set_lock l k)) = l"
  by (simp_all add: set_lock_def)

lemma dev_data_set_lock [simp]: "dev_data (set_lock l k) st = dev_data k st"
  by (simp add: dev_data_def ring_ptrs_def)

text \<open>The pending buffer after both branches of the fill: old bytes, new bytes, zeros.\<close>

lemma fill_block:
  assumes "h a = Some (map Some pend @ r)" and "length r = n" and "length bs \<le> n"
  shows "\<exists>zs. rbind (mem_write h (Ptr a) (length pend) (replicate n NUL))
      (\<lambda>h1. mem_write h1 (Ptr a) (length pend) bs) = Inr (h(a \<mapsto> map Some (pend @ bs) @ zs))"
proof -
  let ?z = "map Some (replicate n NUL)"
  let ?h1 = "h(a \<mapsto> map Some pend @ ?z)"
  have 1: "mem_write h (Ptr a) (length pend) (replicate n NUL) = Inr ?h1"
    using mem_write_block [of h a pend r "replicate n NUL"] assms by simp
  have 2: "mem_write ?h1 (Ptr a) (length pend) bs =
      Inr (?h1(a \<mapsto> map Some (pend @ bs) @ drop (length bs) ?z))"
    using mem_write_block [of ?h1 a pend ?z bs] assms by simp
  show ?thesis
    unfolding 1 rbind_Inr 2 by (intro exI [of _ "drop (length bs) ?z"]) simp
qed

lemma copied_length:
  "answers_ok k ub count ans \<Longrightarrow> length (copied ub count ans) = unat (count - missing ans)"
  by (simp add: answers_ok_def copied_def)

lemma unat_retval_le:
  "missing ans \<le> count \<Longrightarrow> unat (count - missing ans) \<le> unat count"
  by (simp add: unat_sub_le)

text \<open>What the fill leaves of the rest of the state.\<close>

definition same_ring :: "kernel \<Rightarrow> kernel \<Rightarrow> bool" where
  "same_ring k k' \<longleftrightarrow> aesd_cb (aesd_device k') = aesd_cb (aesd_device k) \<and>
     mx_lock (aesd_device k') = mx_lock (aesd_device k) \<and>
     buffer_size (aesd_device k') = buffer_size (aesd_device k)"

lemma fill_dev_data:
  assumes data: "dev_data k (cmds, pend)"
    and h': "h' = h(a \<mapsto> map Some (pend @ bs) @ zs)"
    and old: "list_all2 (entry_holds h) (cb_list (aesd_cb (aesd_device k))) cmds"
    and a: "a \<noteq> 16" "Ptr a \<notin> set (ring_ptrs k)" and h16: "h 16 = None"
    and len: "unat sz = length (pend @ bs)" "length (pend @ bs) < 2 ^ 59"
  shows "dev_data (k\<lparr>aesd_device := (aesd_device k)\<lparr>tmp_buf := Ptr a, tmp_size := sz\<rparr>, kheap := h'\<rparr>)
    (cmds, pend @ bs)"
proof -
  have "holds_bytes h' (Ptr a) (pend @ bs)"
    unfolding h' by (rule holds_bytes_upd)
  moreover have "list_all2 (entry_holds h') (cb_list (aesd_cb (aesd_device k))) cmds"
    unfolding h' by (rule entries_hold_upd [OF old]) (use a in \<open>simp add: ring_ptrs_def\<close>)
  moreover have "h' 16 = None" using h' a h16 by simp
  ultimately show ?thesis
    using data a len by (auto simp: dev_data_def ring_ptrs_def)
qed

lemma krealloc_ok:
  assumes data: "dev_data k (cmds, pend)" and ok: "answers_ok k ub count ans"
    and pend: "pend \<noteq> []" and a: "alloc ans = Some a"
  shows "\<exists>h r. krealloc (alloc ans) (kheap k) (tmp_buf (aesd_device k))
        (unat (tmp_size (aesd_device k) + count)) = Inr (Ptr a, h) \<and>
    h a = Some (map Some pend @ r) \<and> length r = unat count \<and>
    list_all2 (entry_holds h) (cb_list (aesd_cb (aesd_device k))) cmds \<and> h 16 = None \<and>
    Ptr a \<notin> set (ring_ptrs k)"
proof -
  let ?d = "aesd_device k" and ?h = "kheap k"
  let ?es = "cb_list (aesd_cb ?d)" and ?n = "length pend + unat count"
  obtain a0 rest where a0: "tmp_buf ?d = Ptr a0" "?h a0 = Some (map Some pend @ rest)"
    "Ptr a0 \<notin> set (ring_ptrs k)"
    using data pend by (auto simp: dev_data_def holds_bytes_Ptr)
  have old: "list_all2 (entry_holds ?h) ?es cmds" and h16: "?h 16 = None"
    using data by (auto simp: dev_data_def)
  have sz: "unat (tmp_size ?d + count) = ?n"
    using data ok by (subst unat_add_lt) (auto simp: dev_data_def answers_ok_def)
  have fresh: "a \<noteq> 16" "?h a = None \<or> a = a0"
    using ok a a0(1) by (auto simp: answers_ok_def)
  have na: "Ptr a \<notin> set (ring_ptrs k)"
    using fresh(2) a0(3) entries_hold_fresh [OF old] by (auto simp: ring_ptrs_def)
  let ?b = "take ?n (map Some pend @ rest) @ replicate (?n - (length pend + length rest)) None"
  let ?h' = "(?h(a0 := None))(a \<mapsto> ?b)"
  have "a0 \<noteq> 16" using a0(2) h16 by auto
  then have "krealloc (alloc ans) ?h (tmp_buf ?d) (unat (tmp_size ?d + count)) = Inr (Ptr a, ?h')"
    using a a0 pend by (simp add: krealloc_def sz kfree_def)
  moreover have "?b = map Some pend @ (take (unat count) rest @ replicate (unat count - length rest) None)"
    by simp
  moreover have "list_all2 (entry_holds ?h') ?es cmds"
    using old a0(3) na by (intro entries_hold_upd) (auto simp: ring_ptrs_def)
  ultimately show ?thesis
    using h16 fresh(1) na by (intro exI [of _ ?h'] exI) (auto simp: min_def)
qed

lemma kmalloc_ok:
  assumes data: "dev_data k (cmds, [])" and ok: "answers_ok k ub count ans"
    and a: "alloc ans = Some a" and count: "count \<noteq> 0"
  shows "kmalloc (alloc ans) (kheap k) (unat count) =
      (Ptr a, (kheap k)(a \<mapsto> replicate (unat count) None)) \<and>
    list_all2 (entry_holds ((kheap k)(a \<mapsto> replicate (unat count) None)))
      (cb_list (aesd_cb (aesd_device k))) cmds \<and>
    ((kheap k)(a \<mapsto> replicate (unat count) None)) 16 = None \<and> Ptr a \<notin> set (ring_ptrs k)"
proof -
  have old: "list_all2 (entry_holds (kheap k)) (cb_list (aesd_cb (aesd_device k))) cmds"
    and "kheap k 16 = None" "tmp_size (aesd_device k) = 0"
    using data by (auto simp: dev_data_def unat_eq_0)
  moreover have "a \<noteq> 16" "kheap k a = None"
    using ok a calculation by (auto simp: answers_ok_def)
  moreover have na: "Ptr a \<notin> set (ring_ptrs k)"
    using entries_hold_fresh [OF old] calculation by (auto simp: ring_ptrs_def)
  moreover have "unat count \<noteq> 0" using count by (simp add: unat_eq_0)
  ultimately show ?thesis
    using a entries_hold_upd [OF old] by (auto simp: kmalloc_def ring_ptrs_def)
qed

text \<open>The common end of both branches, from the allocated block on.\<close>

lemma fill_tail:
  assumes data: "dev_data k (cmds, pend)" and ok: "answers_ok k ub count ans"
    and h: "h a = Some (map Some pend @ r)" "length r = unat count"
      "list_all2 (entry_holds h) (cb_list (aesd_cb (aesd_device k))) cmds" "h 16 = None"
      "Ptr a \<notin> set (ring_ptrs k)" and a: "a \<noteq> 16"
    and sz: "unat sz = length (pend @ copied ub count ans)"
  shows "\<exists>h1 h2. mem_write h (Ptr a) (length pend) (replicate (unat count) NUL) = Inr h1 \<and>
    copy_from_user h1 (Ptr a) (length pend) ub count (missing ans) = Inr h2 \<and>
    dev_data (k\<lparr>aesd_device := (aesd_device k)\<lparr>tmp_buf := Ptr a, tmp_size := sz\<rparr>, kheap := h2\<rparr>)
      (cmds, pend @ copied ub count ans)"
proof -
  let ?bs = "copied ub count ans"
  have bs: "length ?bs \<le> unat count"
    using ok copied_length [OF ok] unat_retval_le by (auto simp: answers_ok_def)
  have len: "length (pend @ ?bs) < 2 ^ 59"
    using ok bs data by (auto simp: answers_ok_def dev_data_def)
  obtain zs where "rbind (mem_write h (Ptr a) (length pend) (replicate (unat count) NUL))
      (\<lambda>h1. mem_write h1 (Ptr a) (length pend) ?bs) = Inr (h(a \<mapsto> map Some (pend @ ?bs) @ zs))"
    using fill_block [of h a pend r, OF h(1,2) bs] by blast
  then show ?thesis
    using fill_dev_data [OF data refl h(3) a h(5,4) sz len]
    by (auto simp: rbind_eq_Inr_iff copy_from_user_def copied_def)
qed

lemma write_fill_grow:
  assumes data: "dev_data k (cmds, pend)" and ok: "answers_ok k ub count ans"
    and a: "alloc ans = Some a" "a \<noteq> 16" and pend: "pend \<noteq> []"
  shows "\<exists>k'. write_fill k ub count ans = Inr (Some (count - missing ans), k') \<and>
    dev_data k' (cmds, pend @ copied ub count ans) \<and> same_ring k k'"
proof -
  let ?d = "aesd_device k"
  have n: "unat (tmp_size ?d) = length pend"
    using data by (simp add: dev_data_def)
  have sz: "unat (tmp_size ?d + (count - missing ans)) = length (pend @ copied ub count ans)"
    using n ok copied_length [OF ok] unat_retval_le [of ans count]
    by (subst unat_add_lt) (auto simp: answers_ok_def)
  from krealloc_ok [OF data ok pend a(1)] obtain h r where
    h: "krealloc (alloc ans) (kheap k) (tmp_buf ?d) (unat (tmp_size ?d + count)) = Inr (Ptr a, h)"
      "h a = Some (map Some pend @ r)" "length r = unat count"
      "list_all2 (entry_holds h) (cb_list (aesd_cb ?d)) cmds" "h 16 = None"
      "Ptr a \<notin> set (ring_ptrs k)" by blast
  have "tmp_size ?d > 0"
    using pend n by (metis length_0_conv unat_0 word_gt_0)
  then show ?thesis
    using fill_tail [of k cmds pend ub count ans h a r, OF data ok h(2-6) a(2) sz] h(1)
    by (auto simp: write_fill_def Let_def n same_ring_def)
qed

lemma write_fill_new:
  assumes data: "dev_data k (cmds, [])" and ok: "answers_ok k ub count ans"
    and a: "alloc ans = Some a" "a \<noteq> 16"
  shows "\<exists>k'. write_fill k ub count ans = Inr (Some (count - missing ans), k') \<and>
    dev_data k' (cmds, copied ub count ans) \<and> same_ring k k'"
proof -
  have n: "tmp_size (aesd_device k) = 0"
    using data by (simp add: dev_data_def unat_eq_0)
  show ?thesis
  proof (cases "count = 0")
    case True
    then show ?thesis
      using data ok n by (auto simp: write_fill_def kmalloc_def copy_from_user_def mem_write_def
          same_ring_def dev_data_def ring_ptrs_def copied_def answers_ok_def)
  next
    case False
    have sz: "unat (count - missing ans) = length ([] @ copied ub count ans)"
      using copied_length [OF ok] by simp
    show ?thesis
      using fill_tail [of k cmds "[]" ub count ans "(kheap k)(a \<mapsto> replicate (unat count) None)" a
          "replicate (unat count) None", OF data ok _ _ _ _ _ a(2) sz] kmalloc_ok [OF data ok a(1) False]
      by (auto simp: write_fill_def n same_ring_def Let_def)
  qed
qed

lemma write_fill_ok:
  assumes data: "dev_data k (cmds, pend)" and ok: "answers_ok k ub count ans"
  shows "\<exists>k'. write_fill k ub count ans = Inr (Some (count - missing ans), k') \<and>
    dev_data k' (cmds, pend @ copied ub count ans) \<and> same_ring k k'"
proof -
  obtain a where "alloc ans = Some a" "a \<noteq> 16"
    using ok by (auto simp: answers_ok_def split: option.splits)
  then show ?thesis
    using assms write_fill_grow [OF data ok] write_fill_new [OF _ ok] by (cases "pend = []") auto
qed

text \<open>Releasing the oldest command of a full ring.\<close>

lemma cb_list_blank_out:
  assumes "cb_wf b" and "full b"
  shows "cb_wf (b\<lparr>entry := (entry b)[unat (in_offs b) := e]\<rparr>)"
    and "tl (cb_list (b\<lparr>entry := (entry b)[unat (in_offs b) := e]\<rparr>)) = tl (cb_list b)"
    and "hd (cb_list b) = entry b ! unat (in_offs b)"
proof -
  let ?i = "unat (out_offs b)"
  have wf: "in_offs b = out_offs b" "?i < length (entry b)" "length (entry b) = 10"
    using assms by (auto simp: cb_wf_def)
  show "cb_wf (b\<lparr>entry := (entry b)[unat (in_offs b) := e]\<rparr>)"
    using assms by (auto simp: cb_wf_def)
  show "tl (cb_list (b\<lparr>entry := (entry b)[unat (in_offs b) := e]\<rparr>)) = tl (cb_list b)"
    using wf assms(2) Cons_nth_drop_Suc [OF wf(2)]
    by (simp add: cb_list_def drop_update_swap flip: Cons_nth_drop_Suc)
  show "hd (cb_list b) = entry b ! unat (in_offs b)"
    using wf assms(2) by (simp add: cb_list_def hd_drop_conv_nth)
qed

lemma write_evict_full:
  assumes "dev_data k (cmds, pend)" and "full (aesd_cb (aesd_device k))"
  shows "\<exists>a cb. write_evict (kheap k) (aesd_cb (aesd_device k)) = Inr ((kheap k)(a := None), cb) \<and>
    buffptr (hd (cb_list (aesd_cb (aesd_device k)))) = Ptr a \<and> cb_wf cb \<and> full cb \<and>
    tl (cb_list cb) = tl (cb_list (aesd_cb (aesd_device k)))"
proof -
  let ?cb = "aesd_cb (aesd_device k)"
  let ?e = "entry ?cb ! unat (in_offs ?cb)"
  have wf: "cb_wf ?cb" and holds: "list_all2 (entry_holds (kheap k)) (cb_list ?cb) cmds"
    and h16: "kheap k 16 = None"
    using assms(1) by (auto simp: dev_data_def)
  have "cb_list ?cb \<noteq> []"
    using assms(2) cb_full_iff [OF wf] by auto
  then have "entry_holds (kheap k) (hd (cb_list ?cb)) (hd cmds)"
    using holds by (cases "cb_list ?cb"; cases cmds) auto
  then obtain a where a: "buffptr ?e = Ptr a" "kheap k a \<noteq> None"
    using cb_list_blank_out(3) [OF wf assms(2)] by (auto simp: entry_holds_def holds_bytes_Ptr)
  moreover have "a \<noteq> 16" using a h16 by auto
  moreover have "unat (in_offs ?cb) < length (entry ?cb)"
    using wf by (simp add: cb_wf_def)
  ultimately show ?thesis
    using assms(2) cb_list_blank_out(1,2) [OF wf assms(2), of "?e\<lparr>entry_size := 0\<rparr>"]
      cb_list_blank_out(3) [OF wf assms(2)]
    by (auto simp: write_evict_def kfree_def)
qed

text \<open>Storing a pending command as the newest entry.\<close>

lemma commit_dev_data:
  assumes data: "dev_data k (cmds, pend)" and nl: "NEWLINE \<in> set pend"
    and cb: "cb_wf cb" "cb_list cb = es @ [\<lparr>buffptr = tmp_buf (aesd_device k),
      entry_size = tmp_size (aesd_device k), entry_offset = junk\<rparr>]"
    and es: "list_all2 (entry_holds h) es cs" "set cs \<subseteq> set cmds"
      "distinct (map buffptr es)" "set (map buffptr es) \<subseteq> set (ring_ptrs k)"
    and h: "holds_bytes h (tmp_buf (aesd_device k)) pend" "h 16 = None"
  shows "dev_data (k\<lparr>aesd_device := (aesd_device k)\<lparr>aesd_cb := cb, tmp_buf := NULL, tmp_size := 0\<rparr>,
    kheap := h\<rparr>) (cs @ [pend], [])"
proof -
  have "tmp_buf (aesd_device k) \<notin> set (map buffptr es)"
    using data nl es(4) by (auto simp: dev_data_def)
  moreover have "list_all cmd_ok cs" "cmd_ok pend" "unat (tmp_size (aesd_device k)) = length pend"
    using data nl es(2) by (auto simp: dev_data_def cmd_ok_def list_all_iff)
  ultimately show ?thesis
    using cb es h by (simp add: dev_data_def ring_ptrs_def list_all2_appendI entry_holds_def)
qed

lemma write_commit_none:
  assumes "dev_data k (cmds, pend)" and "NEWLINE \<notin> set pend"
  shows "write_commit k ans = Inr k"
proof (cases "pend = []")
  case True
  with assms show ?thesis by (simp add: write_commit_def dev_data_def mem_chr_def)
next
  case False
  with assms show ?thesis
    using mem_chr_holds [of "kheap k" "tmp_buf (aesd_device k)" pend NEWLINE]
    by (simp add: write_commit_def dev_data_def)
qed

text \<open>The state after a commit, by the ring's list and the heap.\<close>

definition committed :: "kernel \<Rightarrow> aesd_circular_buffer \<Rightarrow> heap \<Rightarrow> kernel" where
  "committed k cb h =
     k\<lparr>aesd_device := (aesd_device k)\<lparr>aesd_cb := cb, tmp_buf := NULL, tmp_size := 0\<rparr>, kheap := h\<rparr>"

definition pending_entry :: "kernel \<Rightarrow> answers \<Rightarrow> aesd_buffer_entry" where
  "pending_entry k ans = \<lparr>buffptr = tmp_buf (aesd_device k), entry_size = tmp_size (aesd_device k),
     entry_offset = stack_junk ans\<rparr>"

lemma write_commit_newline:
  assumes data: "dev_data k (cmds, pend)" and nl: "NEWLINE \<in> set pend"
  shows "write_commit k ans =
    rbind (write_evict (kheap k) (aesd_cb (aesd_device k))) (\<lambda>(h, cb).
      rbind (aesd_circular_buffer_add_entry cb (pending_entry k ans)) (\<lambda>(_, cb'). Inr (committed k cb' h)))"
proof -
  have "holds_bytes (kheap k) (tmp_buf (aesd_device k)) pend" "unat (tmp_size (aesd_device k)) = length pend"
    using assms by (auto simp: dev_data_def)
  then show ?thesis
    using nl mem_chr_holds [of "kheap k" "tmp_buf (aesd_device k)" pend NEWLINE]
    by (simp add: write_commit_def Let_def pending_entry_def committed_def)
qed

lemma write_commit_room:
  assumes data: "dev_data k (cmds, pend)" and nl: "NEWLINE \<in> set pend"
    and room: "\<not> full (aesd_cb (aesd_device k))"
  shows "\<exists>cb. write_commit k ans = Inr (committed k cb (kheap k)) \<and>
    cb_list cb = cb_list (aesd_cb (aesd_device k)) @ [pending_entry k ans] \<and>
    dev_data (committed k cb (kheap k)) (fifo_push 10 cmds pend, [])"
proof -
  let ?cb = "aesd_cb (aesd_device k)"
  have wf: "cb_wf ?cb" and holds: "list_all2 (entry_holds (kheap k)) (cb_list ?cb) cmds"
    and pend: "holds_bytes (kheap k) (tmp_buf (aesd_device k)) pend"
    using data nl by (auto simp: dev_data_def)
  obtain cb where cb: "aesd_circular_buffer_add_entry ?cb (pending_entry k ans) = Inr (NULL, cb)"
    "cb_wf cb" "cb_list cb = cb_list ?cb @ [pending_entry k ans]"
    using add_entry_not_full [OF wf room] by blast
  have "length cmds < 10"
    using list_all2_lengthD [OF holds] cb_full_iff [OF wf] cb_list_bound [OF wf] room by auto
  moreover have "dev_data (committed k cb (kheap k)) (cmds @ [pend], [])"
    unfolding committed_def
    by (rule commit_dev_data [OF data nl cb(2) cb(3) [unfolded pending_entry_def] holds])
      (use data pend in \<open>auto simp: dev_data_def ring_ptrs_def\<close>)
  ultimately show ?thesis
    using cb room by (auto simp: write_commit_newline [OF data nl] write_evict_def fifo_push_def)
qed

lemma write_commit_full:
  assumes data: "dev_data k (cmds, pend)" and nl: "NEWLINE \<in> set pend"
    and full: "full (aesd_cb (aesd_device k))"
  shows "\<exists>a cb. write_commit k ans = Inr (committed k cb ((kheap k)(a := None))) \<and>
    buffptr (hd (cb_list (aesd_cb (aesd_device k)))) = Ptr a \<and>
    cb_list cb = tl (cb_list (aesd_cb (aesd_device k))) @ [pending_entry k ans] \<and>
    dev_data (committed k cb ((kheap k)(a := None))) (fifo_push 10 cmds pend, [])"
proof -
  let ?cb = "aesd_cb (aesd_device k)"
  have wf: "cb_wf ?cb" and holds: "list_all2 (entry_holds (kheap k)) (cb_list ?cb) cmds"
    and pend: "holds_bytes (kheap k) (tmp_buf (aesd_device k)) pend"
    and dist: "distinct (map buffptr (cb_list ?cb))" "tmp_buf (aesd_device k) \<notin> set (ring_ptrs k)"
    using data nl by (auto simp: dev_data_def ring_ptrs_def)
  obtain a cb0 where ev: "write_evict (kheap k) ?cb = Inr ((kheap k)(a := None), cb0)"
    "buffptr (hd (cb_list ?cb)) = Ptr a" "cb_wf cb0" "full cb0" "tl (cb_list cb0) = tl (cb_list ?cb)"
    using write_evict_full [OF data full] by blast
  obtain cb v where cb: "aesd_circular_buffer_add_entry cb0 (pending_entry k ans) = Inr (v, cb)"
    "cb_wf cb" "cb_list cb = tl (cb_list ?cb) @ [pending_entry k ans]"
    using add_entry_full [OF ev(3,4)] ev(5) by metis
  have len: "length cmds = 10"
    using list_all2_lengthD [OF holds] cb_full_iff [OF wf] full by simp
  obtain e es c cs where split: "cb_list ?cb = e # es" "cmds = c # cs"
    using len list_all2_lengthD [OF holds] by (cases "cb_list ?cb"; cases cmds) auto
  have es: "list_all2 (entry_holds ((kheap k)(a := None))) (tl (cb_list ?cb)) (tl cmds)"
    using holds dist ev(2) split by (auto intro!: entries_hold_upd)
  have "dev_data (committed k cb ((kheap k)(a := None))) (tl cmds @ [pend], [])"
    unfolding committed_def
    by (rule commit_dev_data [OF data nl cb(2) cb(3) [unfolded pending_entry_def] es])
      (use data pend dist ev(2) split in \<open>auto simp: dev_data_def ring_ptrs_def holds_bytes_other\<close>)
  then show ?thesis
    using cb ev len by (auto simp: write_commit_newline [OF data nl] fifo_push_def)
qed

lemma write_commit_ok:
  assumes "dev_data k (cmds, pend)"
  shows "\<exists>k'. write_commit k ans = Inr k' \<and>
    dev_data k' (if NEWLINE \<in> set pend then (fifo_push 10 cmds pend, []) else (cmds, pend)) \<and>
    mx_lock (aesd_device k') = mx_lock (aesd_device k) \<and>
    buffer_size (aesd_device k') = buffer_size (aesd_device k)"
proof (cases "NEWLINE \<in> set pend")
  case True
  then show ?thesis
    using write_commit_room [OF assms True] write_commit_full [OF assms True]
    by (cases "full (aesd_cb (aesd_device k))") (fastforce simp: committed_def)+
next
  case False
  with assms show ?thesis by (simp add: write_commit_none)
qed

lemma file_dev_open [simp]: "private_data filp = Some Ref_aesd_device \<Longrightarrow> file_dev k filp = Inr (aesd_device k)"
  by (simp add: file_dev_def)

lemma answers_ok_set_lock [simp]: "answers_ok (set_lock l k) ub count ans = answers_ok k ub count ans"
  by (auto simp: answers_ok_def split: option.splits)

text \<open>The last lines of the handler: the mutex is released and the byte count grows.\<close>

definition write_done :: "kernel \<Rightarrow> ssize_t \<Rightarrow> kernel" where
  "write_done k ret = (let k' = set_lock False k; d = aesd_device k'
     in k'\<lparr>aesd_device := d\<lparr>buffer_size := buffer_size d + ret\<rparr>\<rparr>)"

lemma write_done_simps [simp]:
  "kheap (write_done k ret) = kheap k"
  "ring_ptrs (write_done k ret) = ring_ptrs k"
  "tmp_buf (aesd_device (write_done k ret)) = tmp_buf (aesd_device k)"
  "tmp_size (aesd_device (write_done k ret)) = tmp_size (aesd_device k)"
  "buffer_size (aesd_device (write_done k ret)) = buffer_size (aesd_device k) + ret"
  "aesd_cb (aesd_device (write_done k ret)) = aesd_cb (aesd_device k)"
  "mx_lock (aesd_device (write_done k ret)) = False"
  by (simp_all add: write_done_def Let_def ring_ptrs_def)

lemma aesd_write_steps:
  assumes rel: "dev_rel k st" and filp: "private_data filp = Some Ref_aesd_device"
    and ok: "answers_ok k ub count ans"
  obtains k1 k2 where
    "write_fill (set_lock True k) ub count ans = Inr (Some (count - missing ans), k1)"
    "dev_data k1 (fst st, snd st @ copied ub count ans)"
    "write_commit k1 ans = Inr k2" "dev_data k2 (device_write st (copied ub count ans))"
    "buffer_size (aesd_device k2) = buffer_size (aesd_device k)"
    "aesd_write k filp (Some ub) count ans = Inr (count - missing ans, write_done k2 (count - missing ans))"
proof -
  have "dev_data (set_lock True k) (fst st, snd st)" "answers_ok (set_lock True k) ub count ans"
    using rel ok by (simp_all add: dev_rel_def)
  then obtain k1 where k1: "write_fill (set_lock True k) ub count ans = Inr (Some (count - missing ans), k1)"
    "dev_data k1 (fst st, snd st @ copied ub count ans)" "same_ring (set_lock True k) k1"
    using write_fill_ok by blast
  obtain k2 where k2: "write_commit k1 ans = Inr k2"
    "dev_data k2 (device_write st (copied ub count ans))"
    "buffer_size (aesd_device k2) = buffer_size (aesd_device k)"
    using write_commit_ok [OF k1(2), of ans] k1(3)
    by (auto simp: device_write_def same_ring_def Let_def)
  have "aesd_write k filp (Some ub) count ans =
      Inr (count - missing ans, write_done k2 (count - missing ans))"
    using rel filp k1(1) k2(1)
    by (simp add: aesd_write_def mutex_lock_interruptible_def dev_rel_def Let_def write_done_def)
  with k1 k2 show thesis by (rule_tac that)
qed

lemma aesd_write_ok:
  assumes rel: "dev_rel k st" and filp: "private_data filp = Some Ref_aesd_device"
    and ok: "answers_ok k ub count ans"
  shows "\<exists>k'. aesd_write k filp (Some ub) count ans = Inr (count - missing ans, k') \<and>
    dev_rel k' (device_write st (copied ub count ans)) \<and>
    buffer_size (aesd_device k') = buffer_size (aesd_device k) + (count - missing ans)"
proof -
  obtain k2 where k2: "dev_data k2 (device_write st (copied ub count ans))"
    "buffer_size (aesd_device k2) = buffer_size (aesd_device k)"
    "aesd_write k filp (Some ub) count ans =
      Inr (count - missing ans, write_done k2 (count - missing ans))"
    using aesd_write_steps [OF assms] by metis
  moreover have "NEWLINE \<notin> set (snd (device_write st (copied ub count ans)))"
    by (simp add: device_write_def Let_def)
  ultimately show ?thesis by (simp add: dev_rel_def dev_data_def)
qed

section \<open>Reading\<close>

lemma device_read_le: "length (device_read st pos count) \<le> count"
  by (auto simp: device_read_def split: option.splits)

lemma aesd_read_result:
  assumes data: "dev_data k st" and filp: "private_data filp = Some Ref_aesd_device" and "buf \<noteq> NULL"
  shows "aesd_read k filp buf count pos miss =
    (let bs = device_read st (unat pos) (unat count)
     in Inr (if miss \<noteq> 0 \<and> unat pos < length (device_bytes st)
             then (- EFAULT, pos, take (length bs - unat miss) bs)
             else (of_nat (length bs), pos + of_nat (length bs), bs)))"
proof -
  let ?cb = "aesd_cb (aesd_device k)" and ?cmds = "fst st"
  have wf: "cb_wf ?cb" and holds: "list_all2 (entry_holds (kheap k)) (cb_list ?cb) ?cmds"
    using data by (auto simp: dev_data_def)
  have find: "aesd_circular_buffer_find_entry_offset_for_fpos ?cb pos =
    Some (Inr (map_option (\<lambda>(i, q). ((unat (out_offs ?cb) + i) mod 10, of_nat q))
      (locate (map length ?cmds) (unat pos))))"
    using find_entry_locate [OF wf] dev_data_sum [OF data] by simp
  show ?thesis
  proof (cases "locate (map length ?cmds) (unat pos)")
    case None
    then have "\<not> unat pos < length (device_bytes st)"
      using locate_None_iff [of "map length ?cmds" "unat pos"] by (simp add: device_bytes_def length_concat)
    with None find assms show ?thesis by (simp add: aesd_read_def device_read_def Let_def)
  next
    case (Some iq)
    then obtain i q where l: "locate (map length ?cmds) (unat pos) = Some (i, q)" by (cases iq) auto
    then have i: "i < length ?cmds" "q < length (?cmds ! i)"
      using locate_Some_bounds [OF l] by auto
    have more: "unat pos < length (device_bytes st)"
      using l locate_None_iff [of "map length ?cmds" "unat pos"] by (simp add: device_bytes_def length_concat)
    let ?j = "(unat (out_offs ?cb) + i) mod 10" and ?c = "?cmds ! i"
    let ?e = "entry ?cb ! ?j"
    have e: "cb_list ?cb ! i = ?e"
      using cb_list_nth [OF wf] i(1) list_all2_lengthD [OF holds] by simp
    then have "entry_holds (kheap k) ?e ?c"
      using holds i(1) list_all2_nthD2 by fastforce
    then have hb: "holds_bytes (kheap k) (buffptr ?e) ?c" and sz: "unat (entry_size ?e) = length ?c"
      by (auto simp: entry_holds_def)
    have q: "unat (of_nat q :: size_t) = q"
      using i(2) sz unat_less_numeral_64 [of "entry_size ?e"]
      by (intro unat_of_nat_64) simp
    let ?avail = "entry_size ?e - of_nat q :: size_t"
    let ?n = "if ?avail > count then count else ?avail"
    have avail: "unat ?avail = length ?c - q"
      using i(2) sz q by (subst unat_sub_le) (auto simp: word_le_nat_alt)
    then have n: "unat ?n = min (unat count) (length ?c - q)"
      by (auto simp: word_less_nat_alt)
    have r: "device_read st (unat pos) (unat count) = take (unat ?n) (drop q ?c)"
      using l n by (simp add: device_read_def min_def)
    have len: "length (take (unat ?n) (drop q ?c)) = unat ?n"
      unfolding n by simp
    have len': "of_nat (unat ?n) = ?n"
      by (simp only: of_nat_unat ucast_id)
    have rd: "mem_read (kheap k) (buffptr ?e) q (unat ?n) = Inr (take (unat ?n) (drop q ?c))"
      using hb i(2) n by (intro mem_read_holds) auto
    show ?thesis
      using find l assms(2,3) rd q cb_wf_length [OF wf] more
      unfolding r Let_def len len'
      by (cases "miss = 0") (simp_all add: aesd_read_def Let_def split del: if_split)
  qed
qed

lemma aesd_read_ok:
  assumes "dev_data k st" and "private_data filp = Some Ref_aesd_device" and "buf \<noteq> NULL"
  shows "aesd_read k filp buf count pos 0 =
    (let bs = device_read st (unat pos) (unat count)
     in Inr (of_nat (length bs), pos + of_nat (length bs), bs))"
  by (simp add: aesd_read_result [OF assms] Let_def)

section \<open>The driver implements the interface\<close>

text \<open>
  The device as its users see it: an open file, whole writes, reads at a position with a
  valid buffer.
\<close>

definition opened_file :: "loff_t \<Rightarrow> struct_file" where
  "opened_file pos = \<lparr>private_data = Some Ref_aesd_device, f_pos = pos\<rparr>"

definition driver_wr :: "kernel \<Rightarrow> answers \<Rightarrow> byte list \<Rightarrow> (nat \<times> kernel) res" where
  "driver_wr k ans bs =
     rbind (aesd_write k (opened_file 0) (Some bs) (of_nat (length bs)) ans) (\<lambda>(r, k'). Inr (unat r, k'))"

definition driver_wr_ok :: "kernel \<Rightarrow> answers \<Rightarrow> byte list \<Rightarrow> bool" where
  "driver_wr_ok k ans bs \<longleftrightarrow>
     answers_ok k bs (of_nat (length bs)) ans \<and> missing ans = 0 \<and> length bs < 2 ^ 59"

definition driver_rd :: "kernel \<Rightarrow> nat \<Rightarrow> nat \<Rightarrow> byte list res" where
  "driver_rd k pos count =
     rbind (aesd_read k (opened_file (of_nat pos)) (Ptr 1) (of_nat count) (of_nat pos) 0)
       (\<lambda>(r, pos', bs). Inr bs)"

lemma opened_file_dev [simp]: "private_data (opened_file pos) = Some Ref_aesd_device"
  by (simp add: opened_file_def)

lemma driver_wr_law:
  assumes "dev_rel k st" and "driver_wr_ok k ans bs"
  shows "\<exists>k'. driver_wr k ans bs = Inr (length bs, k') \<and> dev_rel k' (device_write st bs) \<and>
    buffer_size (aesd_device k') = buffer_size (aesd_device k) + of_nat (length bs)"
proof -
  have n: "unat (of_nat (length bs) :: size_t) = length bs"
    using assms(2) by (intro unat_of_nat_64) (simp add: driver_wr_ok_def)
  then have "copied bs (of_nat (length bs)) ans = bs"
    using assms(2) by (simp add: driver_wr_ok_def copied_def)
  then show ?thesis
    using aesd_write_ok [OF assms(1), of "opened_file 0" bs "of_nat (length bs)" ans] assms(2) n
    by (auto simp: driver_wr_ok_def driver_wr_def)
qed

lemma driver_rd_law:
  assumes "dev_rel k st" and "pos < 2 ^ 64" and "count < 2 ^ 64"
  shows "driver_rd k pos count = Inr (device_read st pos count)"
  using aesd_read_ok [of k st "opened_file (of_nat pos)" "Ptr 1" "of_nat count" "of_nat pos"] assms
  by (simp add: driver_rd_def dev_rel_def Let_def unat_of_nat_64)

interpretation drv: char_device dev_rel driver_wr driver_wr_ok driver_rd "2 ^ 64"
proof unfold_locales
  fix k st assume "dev_rel k st"
  then show "NEWLINE \<notin> set (snd st)" and "length (device_bytes st) < 2 ^ 64"
    using dev_data_sum(2) [of k st] by (auto simp: dev_rel_def device_bytes_def length_concat)
qed (use driver_wr_law driver_rd_law in blast)+

lemma driver_pieces_size:
  assumes "dev_rel k st" and "pieces_ok driver_wr driver_wr_ok k ps" and "write_pieces driver_wr k ps = Inr k'"
  shows "buffer_size (aesd_device k') =
    buffer_size (aesd_device k) + of_nat (length (concat (map snd ps)))"
  using assms
proof (induction ps arbitrary: k st)
  case Nil
  then show ?case by simp
next
  case (Cons p ps)
  obtain a bs where p: "p = (a, bs)" by (cases p)
  with Cons.prems obtain k1 where "driver_wr k a bs = Inr (length bs, k1)" "dev_rel k1 (device_write st bs)"
    "buffer_size (aesd_device k1) = buffer_size (aesd_device k) + of_nat (length bs)"
    using driver_wr_law [of k st a bs] by auto
  with Cons p show ?case by (simp add: add.assoc)
qed

end
