(* ===== verification/Driver_Safety.thy ===== *)
theory Driver_Safety
  imports Driver_Refinement
begin

text \<open>
  What the driver's handlers do beyond the data path: seeking by \<^verbatim>\<open>llseek\<close> and by \<^verbatim>\<open>ioctl\<close>, the
  failure paths of a write, the ownership of heap blocks up to module clean-up, and the
  reachable states of an open device.
\<close>

section \<open>Positioning by command\<close>

definition used_entry :: "aesd_buffer_entry \<Rightarrow> bool" where
  "used_entry e \<longleftrightarrow> buffptr e \<noteq> NULL \<and> entry_size e > 0"

lemma seek_loop_sum:
  assumes "n \<le> length es" and "i \<le> n" and "list_all used_entry (take n es)"
  shows "seek_loop es i n loc = Inr (0, loc + of_nat (sum_list (entry_sizes (drop i (take n es)))))"
  using assms
proof (induction "n - i" arbitrary: i loc)
  case 0
  then show ?case by (simp add: seek_loop.simps entry_sizes_def)
next
  case (Suc m)
  then have i: "i < n" by simp
  then have "used_entry (es ! i)"
    using Suc.prems by (auto simp: list_all_length)
  moreover have "drop i (take n es) = es ! i # drop (Suc i) (take n es)"
    using i Suc.prems(1) by (simp add: Cons_nth_drop_Suc [symmetric])
  ultimately show ?case
    using i Suc by (simp add: seek_loop.simps [of es i n loc] used_entry_def entry_sizes_def)
qed

lemma seek_entry_used:
  assumes "list_all used_entry (take (Suc w) es)" and "w < length es" and "unat (write_cmd seek) = w"
    and "unat (write_cmd_offset seek) \<le> unat (entry_size (es ! w))"
  shows "seek_entry es seek filp = Inr (0, filp\<lparr>f_pos :=
    of_nat (sum_list (entry_sizes (take w es))) + ucast (write_cmd_offset seek)\<rparr>)"
proof -
  have "list_all used_entry (take w es)" "used_entry (es ! w)"
    using assms(1,2) by (auto simp: take_Suc_conv_app_nth)
  moreover have "\<not> entry_size (es ! w) < ucast (write_cmd_offset seek)"
    using assms(4) by (simp add: word_less_nat_alt unat_ucast_32_64)
  ultimately show ?thesis
    using assms(2,3) seek_loop_sum [of w es 0 0]
    by (simp add: seek_entry_def used_entry_def)
qed

lemma seek_loop_total:
  "n \<le> length es \<Longrightarrow> \<exists>r l. seek_loop es i n loc = Inr (r, l)"
proof (induction "n - i" arbitrary: i loc)
  case 0
  then show ?case by (simp add: seek_loop.simps)
next
  case (Suc m)
  then have "\<exists>r l. seek_loop es (Suc i) n (loc + entry_size (es ! i)) = Inr (r, l)" by simp
  with Suc show ?case by (auto simp: seek_loop.simps [of es i n loc])
qed

lemma seek_entry_blank:
  assumes "unat (write_cmd seek) < length es" and "\<not> used_entry (es ! unat (write_cmd seek))"
  shows "seek_entry es seek filp = Inr (- EINVAL, filp)"
proof -
  obtain r l where "seek_loop es 0 (unat (write_cmd seek)) 0 = Inr (r, l)"
    using seek_loop_total [of "unat (write_cmd seek)" es 0 0] assms(1) by auto
  with assms show ?thesis by (auto simp: seek_entry_def used_entry_def)
qed

lemma seek_entry_out_of_bounds:
  assumes "unat (write_cmd seek) = length es"
  shows "seek_entry es seek filp = Inl Out_Of_Bounds"
  using seek_loop_total [of "length es" es 0 0] assms by (auto simp: seek_entry_def)

lemma dev_data_used:
  assumes "dev_data k st"
  shows "list_all used_entry (cb_list (aesd_cb (aesd_device k)))"
proof -
  have holds: "list_all2 (entry_holds (kheap k)) (cb_list (aesd_cb (aesd_device k))) (fst st)"
    and ok: "list_all cmd_ok (fst st)"
    using assms by (auto simp: dev_data_def)
  have "used_entry e" if "entry_holds (kheap k) e c" "cmd_ok c" for e c
  proof -
    from that have "unat (entry_size e) \<noteq> 0" by (auto simp: entry_holds_def cmd_ok_def)
    then have "entry_size e > 0" by (metis unat_0 word_gt_0)
    with that show ?thesis by (auto simp: used_entry_def entry_holds_def holds_bytes_Ptr)
  qed
  with holds ok show ?thesis
    by (induction rule: list_all2_induct) auto
qed

text \<open>
  The commands in the order of the ring's slots: slot 0 onwards, where the oldest command
  sits in slot \<open>out_slot\<close>.
\<close>

definition slots :: "nat \<Rightarrow> 'a list \<Rightarrow> 'a list" where
  "slots out_slot cs = drop (10 - out_slot) cs @ take (10 - out_slot) cs"

lemma length_slots [simp]: "length (slots n cs) = length cs"
  by (simp add: slots_def)

lemma set_slots [simp]: "set (slots n cs) = set cs"
  by (metis Un_commute append_take_drop_id set_append slots_def)

lemma map_slots: "map f (slots n cs) = slots n (map f cs)"
  by (simp add: slots_def drop_map take_map)

lemma slots_unrotated [simp]: "length cs \<le> 10 \<Longrightarrow> slots 0 cs = cs"
  by (simp add: slots_def)

lemma entry_slots:
  assumes "cb_wf b"
  shows "take (length (cb_list b)) (entry b) = slots (unat (out_offs b)) (cb_list b)"
proof (cases "full b")
  case True
  with assms show ?thesis by (simp add: cb_wf_def cb_list_def slots_def)
next
  case False
  with assms show ?thesis by (simp add: cb_wf_def cb_list_def slots_def)
qed

lemma entry_past_end:
  assumes "cb_wf b" and "length (cb_list b) \<le> w" and "w < 10"
  shows "\<not> used_entry (entry b ! w)"
proof -
  have nf: "\<not> full b" "unat (in_offs b) \<le> w"
    using assms(2,3) length_cb_list [OF assms(1)] by (simp_all split: if_splits)
  have "list_all blank_entry (drop (unat (in_offs b)) (entry b))" "length (entry b) = 10"
    using assms(1) nf(1) by (auto simp: cb_wf_def)
  then have "\<forall>n < 10 - unat (in_offs b). blank_entry (entry b ! (unat (in_offs b) + n))"
    by (simp add: list_all_length)
  moreover have "w - unat (in_offs b) < 10 - unat (in_offs b)"
    using assms(3) nf(2) by simp
  ultimately have "blank_entry (entry b ! (unat (in_offs b) + (w - unat (in_offs b))))" by blast
  with nf(2) show ?thesis
    by (simp add: blank_entry_def used_entry_def)
qed

lemma dev_rel_unrotated:
  assumes "dev_rel k st" and "length (fst st) < 10"
  shows "out_offs (aesd_cb (aesd_device k)) = 0"
proof -
  let ?cb = "aesd_cb (aesd_device k)"
  have wf: "cb_wf ?cb" and "length (cb_list ?cb) = length (fst st)"
    using assms(1) by (auto simp: dev_rel_def dev_data_def list_all2_lengthD)
  then have "\<not> full ?cb" using assms(2) by (simp add: cb_full_iff)
  then show ?thesis using wf by (simp add: cb_wf_def)
qed

lemma set_lock_same [simp]: "\<not> mx_lock (aesd_device k) \<Longrightarrow> set_lock False k = k"
  by (cases k; cases "aesd_device k") (simp add: set_lock_def)

text \<open>The device control call on a device in a good state is the positioning itself.\<close>

lemma aesd_ioctl_seek:
  assumes "dev_rel k st" and "private_data filp = Some Ref_aesd_device" and "missing ans = 0"
    and "unat (write_cmd seek) \<le> 10"
  shows "aesd_ioctl k filp AESDCHAR_IOCSEEKTO seek ans =
    rbind (seek_entry (entry (aesd_cb (aesd_device k))) seek filp)
      (\<lambda>(retval, filp'). Inr (retval, filp', k))"
  using assms by (simp add: aesd_ioctl_def mutex_lock_interruptible_def dev_rel_def)

lemma aesd_ioctl_slots:
  assumes rel: "dev_rel k st" and filp: "private_data filp = Some Ref_aesd_device"
    and miss: "missing ans = 0" and cs: "cs = slots (unat (out_offs (aesd_cb (aesd_device k)))) (fst st)"
    and w: "unat (write_cmd seek) < length cs"
    and off: "unat (write_cmd_offset seek) \<le> length (cs ! unat (write_cmd seek))"
  shows "aesd_ioctl k filp AESDCHAR_IOCSEEKTO seek ans =
    Inr (0, filp\<lparr>f_pos := of_nat (sum_list (take (unat (write_cmd seek)) (map length cs)) +
      unat (write_cmd_offset seek))\<rparr>, k)"
proof -
  let ?cb = "aesd_cb (aesd_device k)" and ?w = "unat (write_cmd seek)"
  let ?es = "slots (unat (out_offs ?cb)) (cb_list ?cb)"
  have data: "dev_data k st" and wf: "cb_wf ?cb"
    using rel by (auto simp: dev_rel_def dev_data_def)
  have sizes: "entry_sizes ?es = map length cs"
    using dev_data_sum(1) [OF data] by (simp add: cs map_slots entry_sizes_def)
  then have len: "length ?es = length cs"
    by (metis entry_sizes_def length_map)
  have pre: "take n (entry ?cb) = take n ?es" if "n \<le> length ?es" for n
    using entry_slots [OF wf] that by (metis length_slots min.absorb1 take_take)
  have e: "entry ?cb ! ?w = ?es ! ?w"
    using entry_slots [OF wf] w len by (metis length_slots nth_take)
  have "unat (entry_size (?es ! ?w)) = length (cs ! ?w)"
    using arg_cong [OF sizes, of "\<lambda>xs. xs ! ?w"] w len by (simp add: entry_sizes_def)
  moreover have "?w < length (entry ?cb)" "?w \<le> 10"
    using w len cb_list_bound [OF wf] cb_wf_length [OF wf] by auto
  moreover have "list_all used_entry (take (Suc ?w) (entry ?cb))"
    using dev_data_used [OF data] w len pre [of "Suc ?w"]
    by (simp add: list_all_iff) (metis in_set_takeD set_slots)
  moreover have "entry_sizes (take ?w (entry ?cb)) = take ?w (map length cs)"
    using pre [of ?w] w len sizes by (simp add: entry_sizes_def flip: take_map)
  ultimately show ?thesis
    using aesd_ioctl_seek [OF rel filp miss] off e seek_entry_used [of ?w "entry ?cb" seek filp] by simp
qed

section \<open>Failing writes\<close>

lemma pending_block:
  assumes "dev_data k st" and "snd st \<noteq> []"
  obtains a rest where "tmp_buf (aesd_device k) = Ptr a" "kheap k a = Some (map Some (snd st) @ rest)"
    "a \<noteq> 16" "tmp_size (aesd_device k) > 0"
proof -
  obtain a rest where a: "tmp_buf (aesd_device k) = Ptr a" "kheap k a = Some (map Some (snd st) @ rest)"
    using assms by (auto simp: dev_data_def holds_bytes_Ptr)
  moreover have "a \<noteq> 16" using a(2) assms(1) by (auto simp: dev_data_def)
  moreover have "tmp_size (aesd_device k) > 0" using assms by (auto simp: dev_data_def word_gt_0)
  ultimately show thesis by (rule that)
qed

lemma write_fill_alloc_fails:
  assumes data: "dev_data k st" and none: "alloc ans = None" and count: "0 < count"
    and bound: "unat (tmp_size (aesd_device k)) + unat count < 2 ^ 59"
  shows "write_fill k ub count ans = Inr (None, k\<lparr>aesd_device := (aesd_device k)\<lparr>tmp_buf := NULL\<rparr>\<rparr>)"
proof (cases "tmp_size (aesd_device k) > 0")
  case False
  moreover have "unat count \<noteq> 0" using count by (simp add: unat_eq_0 word_gt_0)
  ultimately show ?thesis using none by (simp add: write_fill_def kmalloc_def)
next
  case True
  let ?d = "aesd_device k"
  have "snd st \<noteq> []" using True data by (auto simp: dev_data_def unat_eq_0)
  then obtain a rest where a: "tmp_buf ?d = Ptr a" "kheap k a = Some (map Some (snd st) @ rest)" "a \<noteq> 16"
    using data pending_block by metis
  have "unat (tmp_size ?d + count) \<noteq> 0"
    using True bound by (subst unat_add_lt) (auto simp: unat_eq_0)
  with a have "krealloc (alloc ans) (kheap k) (tmp_buf ?d) (unat (tmp_size ?d + count)) = Inr (NULL, kheap k)"
    using none by (simp add: krealloc_def)
  with True show ?thesis by (simp add: write_fill_def Let_def)
qed

lemma aesd_write_alloc_fails:
  assumes rel: "dev_rel k st" and filp: "private_data filp = Some Ref_aesd_device"
    and none: "alloc ans = None" and count: "0 < count"
    and bound: "unat (tmp_size (aesd_device k)) + unat count < 2 ^ 59"
  shows "\<exists>k'. aesd_write k filp (Some ub) count ans = Inr (- ENOMEM, k') \<and>
    mx_lock (aesd_device k') \<and> tmp_buf (aesd_device k') = NULL \<and> kheap k' = kheap k"
proof -
  have "dev_data (set_lock True k) st" using rel by (simp add: dev_rel_def)
  then show ?thesis
    using write_fill_alloc_fails [of "set_lock True k" st ans count ub] assms
    by (simp add: aesd_write_def mutex_lock_interruptible_def dev_rel_def set_lock_def)
qed

lemma aesd_write_locked:
  assumes "mx_lock (aesd_device k)" and "private_data filp = Some Ref_aesd_device"
  shows "aesd_write k filp (Some ub) count ans =
    (if interrupted ans then Inr (- ERESTARTSYS, k) else Inl Blocks)"
  using assms by (simp add: aesd_write_def mutex_lock_interruptible_def)

section \<open>Ownership of heap blocks\<close>

text \<open>Every live block belongs to an entry of the ring or to the pending command.\<close>

definition no_leak :: "kernel \<Rightarrow> bool" where
  "no_leak k \<longleftrightarrow> (\<forall>a \<in> dom (kheap k). Ptr a \<in> set (ring_ptrs k) \<or>
     tmp_size (aesd_device k) > 0 \<and> tmp_buf (aesd_device k) = Ptr a)"

lemma mem_write_dom: "mem_write h p off bs = Inr h' \<Longrightarrow> dom h' = dom h"
  by (auto simp: mem_write_def mem_block_def rbind_eq_Inr_iff split: if_splits ptr.splits option.splits)

lemma kmalloc_dom:
  "kmalloc ans h n = (p, h') \<Longrightarrow> dom h' \<subseteq> dom h \<union> {a. p = Ptr a \<and> n \<noteq> 0}"
  by (auto simp: kmalloc_def split: if_splits option.splits)

lemma krealloc_dom:
  "krealloc ans h (Ptr a0) n = Inr (p, h') \<Longrightarrow> a0 \<noteq> 16 \<Longrightarrow> n \<noteq> 0 \<Longrightarrow> p \<noteq> NULL \<Longrightarrow>
   dom h' \<subseteq> (dom h - {a0}) \<union> {a. p = Ptr a}"
  by (auto simp: krealloc_def kfree_def rbind_eq_Inr_iff split: if_splits option.splits)

lemma write_fill_new_owned:
  assumes "\<not> tmp_size (aesd_device k) > 0" and "no_leak k"
    and "write_fill k ub count ans = Inr (Some r, k')" and "r \<noteq> 0 \<or> count = 0"
  shows "no_leak k'"
proof -
  let ?d = "aesd_device k"
  obtain p h where ph: "kmalloc (alloc ans) (kheap k) (unat count) = (p, h)" by fastforce
  with assms obtain h1 h2 where
    w: "mem_write h p 0 (replicate (unat count) NUL) = Inr h1"
      "copy_from_user h1 p 0 ub count (missing ans) = Inr h2" "r = count - missing ans"
      "k' = k\<lparr>aesd_device := ?d\<lparr>tmp_buf := p, tmp_size := r\<rparr>, kheap := h2\<rparr>"
    by (auto simp: write_fill_def Let_def rbind_eq_Inr_iff split: if_splits)
  have "dom h2 = dom h"
    using mem_write_dom [OF w(1)] mem_write_dom [OF w(2) [unfolded copy_from_user_def]] by simp
  then have "dom h2 \<subseteq> dom (kheap k) \<union> {a. p = Ptr a \<and> count \<noteq> 0}"
    using kmalloc_dom [OF ph] by (auto simp: unat_eq_0)
  then show ?thesis
    using assms(1,2,4) w(4) by (auto simp: no_leak_def ring_ptrs_def word_gt_0)
qed

lemma write_fill_grow_owned:
  assumes data: "dev_data k (cmds, pend)" and pend: "pend \<noteq> []" and leak: "no_leak k"
    and ok: "answers_ok k ub count ans"
    and fill: "write_fill k ub count ans = Inr (Some r, k')" and data': "dev_data k' (cmds, pend @ bs)"
  shows "no_leak k'"
proof -
  let ?d = "aesd_device k"
  obtain a0 where a0: "tmp_buf ?d = Ptr a0" "kheap k a0 \<noteq> None" "a0 \<noteq> 16" and pos: "tmp_size ?d > 0"
    using pending_block [OF data] pend by (metis option.distinct(1) snd_conv)
  have n: "unat (tmp_size ?d + count) \<noteq> 0"
    using pos ok by (subst unat_add_lt) (auto simp: answers_ok_def unat_eq_0)
  obtain p h h1 h2 where
    w: "krealloc (alloc ans) (kheap k) (Ptr a0) (unat (tmp_size ?d + count)) = Inr (p, h)" "p \<noteq> NULL"
      "mem_write h p (unat (tmp_size ?d)) (replicate (unat count) NUL) = Inr h1"
      "copy_from_user h1 p (unat (tmp_size ?d)) ub count (missing ans) = Inr h2"
      "k' = k\<lparr>aesd_device := ?d\<lparr>tmp_buf := p, tmp_size := tmp_size ?d + r\<rparr>, kheap := h2\<rparr>"
    using fill pos a0(1) by (auto simp: write_fill_def Let_def rbind_eq_Inr_iff split: if_splits)
  have "dom h2 = dom h"
    using mem_write_dom [OF w(3)] mem_write_dom [OF w(4) [unfolded copy_from_user_def]] by simp
  then have "dom h2 \<subseteq> (dom (kheap k) - {a0}) \<union> {a. p = Ptr a}"
    using krealloc_dom [OF w(1) a0(3) n w(2)] by simp
  moreover have "tmp_size (aesd_device k') > 0"
    using data' pend by (auto simp: dev_data_def word_gt_0)
  ultimately show ?thesis
    using leak a0(1) w(5) by (auto simp: no_leak_def ring_ptrs_def)
qed

lemma write_commit_owned:
  assumes data: "dev_data k (cmds, pend)" and leak: "no_leak k" and commit: "write_commit k ans = Inr k'"
  shows "no_leak k'"
proof (cases "NEWLINE \<in> set pend")
  case False
  with assms show ?thesis by (simp add: write_commit_none)
next
  case True
  show ?thesis
  proof (cases "full (aesd_cb (aesd_device k))")
    case False
    from write_commit_room [OF data True False, of ans] commit obtain cb where
      "k' = committed k cb (kheap k)" "cb_list cb = cb_list (aesd_cb (aesd_device k)) @ [pending_entry k ans]"
      by auto
    then have "kheap k' = kheap k" "ring_ptrs k' = ring_ptrs k @ [tmp_buf (aesd_device k)]"
      by (simp_all add: ring_ptrs_def committed_def pending_entry_def)
    with leak show ?thesis by (fastforce simp: no_leak_def)
  next
    case full: True
    obtain e es where split: "cb_list (aesd_cb (aesd_device k)) = e # es"
      using cb_full_iff [of "aesd_cb (aesd_device k)"] data full
      by (cases "cb_list (aesd_cb (aesd_device k))") (auto simp: dev_data_def)
    from write_commit_full [OF data True full, of ans] commit split obtain a cb where
      "k' = committed k cb ((kheap k)(a := None))" "buffptr e = Ptr a"
      "cb_list cb = es @ [pending_entry k ans]"
      by auto
    then have "kheap k' = (kheap k)(a := None)" "ring_ptrs k = Ptr a # map buffptr es"
      "ring_ptrs k' = map buffptr es @ [tmp_buf (aesd_device k)]"
      using split by (simp_all add: ring_ptrs_def committed_def pending_entry_def)
    with leak show ?thesis by (fastforce simp: no_leak_def)
  qed
qed

lemma aesd_write_owned:
  assumes rel: "dev_rel k st" and filp: "private_data filp = Some Ref_aesd_device"
    and ok: "answers_ok k ub count ans" and leak: "no_leak k"
    and some: "missing ans \<noteq> count \<or> count = 0 \<or> snd st \<noteq> []"
    and run: "aesd_write k filp (Some ub) count ans = Inr (r, k')"
  shows "no_leak k'"
proof -
  obtain k1 k2 where
    k1: "write_fill (set_lock True k) ub count ans = Inr (Some (count - missing ans), k1)"
      "dev_data k1 (fst st, snd st @ copied ub count ans)" and
    k2: "write_commit k1 ans = Inr k2" "k' = write_done k2 (count - missing ans)"
    using aesd_write_steps [OF rel filp ok] run by (metis Inr_inject Pair_inject)
  have pre: "dev_data (set_lock True k) (fst st, snd st)" "no_leak (set_lock True k)"
    "answers_ok (set_lock True k) ub count ans"
    using rel leak ok by (simp_all add: dev_rel_def no_leak_def ring_ptrs_def)
  have "no_leak k1"
  proof (cases "snd st = []")
    case True
    then have "\<not> tmp_size (aesd_device (set_lock True k)) > 0"
      using pre(1) by (simp add: dev_data_def unat_eq_0)
    then show ?thesis
      using write_fill_new_owned [OF _ pre(2) k1(1)] some True by auto
  next
    case False
    then show ?thesis
      using write_fill_grow_owned [OF pre(1) _ pre(2,3) k1] by simp
  qed
  then have "no_leak k2"
    by (rule write_commit_owned [OF k1(2) _ k2(1)])
  then show ?thesis
    by (simp add: k2(2) no_leak_def)
qed

lemma driver_pieces_owned:
  assumes "dev_rel k st" and "no_leak k" and "pieces_ok driver_wr driver_wr_ok k ps"
    and "write_pieces driver_wr k ps = Inr k'"
  shows "no_leak k'"
  using assms
proof (induction ps arbitrary: k st)
  case Nil
  then show ?case by simp
next
  case (Cons p ps)
  obtain a bs where p: "p = (a, bs)" by (cases p)
  with Cons.prems have ok: "driver_wr_ok k a bs" by simp
  then obtain k1 where k1: "driver_wr k a bs = Inr (length bs, k1)" "dev_rel k1 (device_write st bs)"
    using driver_wr_law [OF Cons.prems(1), of a bs] by auto
  then obtain r where "aesd_write k (opened_file 0) (Some bs) (of_nat (length bs)) a = Inr (r, k1)"
    by (auto simp: driver_wr_def rbind_eq_Inr_iff)
  then have "no_leak k1"
    using aesd_write_owned [OF Cons.prems(1) opened_file_dev] ok Cons.prems(2)
    by (auto simp: driver_wr_ok_def)
  with Cons k1 p show ?case by simp
qed

section \<open>Module initialisation and clean-up\<close>

lemma init_dev_rel:
  assumes "0 \<le> region" and "kheap k 16 = None" and "aesd_init_module k region major 0 = (r, k')"
  shows "r = 0 \<and> dev_rel k' empty_device \<and> chrdev_region k' \<and> kheap k' = kheap k \<and>
    buffer_size (aesd_device k') = 0 \<and> cdev_live (cdev (aesd_device k'))"
  using assms
  by (auto simp: aesd_init_module_def aesd_setup_cdev_def zero_dev_def Let_def dev_rel_def dev_data_def
      ring_ptrs_def empty_device_def cb_wf_init cb_list_init)

text \<open>The clean-up loop frees exactly the blocks of the used entries from an index on.\<close>

definition freed_from :: "nat \<Rightarrow> aesd_buffer_entry list \<Rightarrow> heap \<Rightarrow> heap" where
  "freed_from i es h = (\<lambda>a. if Ptr a \<in> set (map buffptr (filter used_entry (drop i es))) then None else h a)"

lemma cleanup_frees:
  assumes "length es = 10" and "i \<le> 10" and "h 16 = None"
    and "distinct (map buffptr (filter used_entry (drop i es)))"
    and "\<forall>e \<in> set (filter used_entry (drop i es)). \<exists>a. buffptr e = Ptr a \<and> h a \<noteq> None"
  shows "\<exists>es'. AESD_CIRCULAR_BUFFER_FOREACH cleanup_body i es h = Inr (es', freed_from i es h)"
  using assms
proof (induction "10 - i" arbitrary: i es h)
  case 0
  then show ?case by (simp add: cleanup_step freed_from_def)
next
  case (Suc m)
  then have i: "i < length es" by simp
  have split: "drop i es = es ! i # drop (Suc i) es"
    using i by (simp add: Cons_nth_drop_Suc)
  show ?case
  proof (cases "used_entry (es ! i)")
    case False
    have "\<exists>es'. AESD_CIRCULAR_BUFFER_FOREACH cleanup_body (Suc i) es h = Inr (es', freed_from (Suc i) es h)"
      using Suc.prems Suc.hyps(2) split False by (intro Suc.hyps(1)) auto
    then show ?thesis
      using i False split Suc.prems(1)
      by (auto simp: cleanup_step [of i] freed_from_def used_entry_def)
  next
    case True
    then obtain a where "buffptr (es ! i) = Ptr a" "h a \<noteq> None"
      using Suc.prems(5) split by auto
    with Suc.prems(3) have a: "buffptr (es ! i) = Ptr a" "h a \<noteq> None" "a \<noteq> 16" by auto
    let ?es = "es[i := (es ! i)\<lparr>entry_size := 0\<rparr>]" and ?h = "h(a := None)"
    have rest: "drop (Suc i) ?es = drop (Suc i) es" by simp
    have live: "\<forall>e \<in> set (filter used_entry (drop (Suc i) ?es)). \<exists>x. buffptr e = Ptr x \<and> ?h x \<noteq> None"
      unfolding rest
    proof
      fix e assume e: "e \<in> set (filter used_entry (drop (Suc i) es))"
      then have "e \<in> set (filter used_entry (drop i es))"
        by (simp add: split)
      then obtain x where x: "buffptr e = Ptr x" "h x \<noteq> None"
        using Suc.prems(5) by blast
      moreover have "buffptr e \<noteq> Ptr a"
        using e Suc.prems(4) split True a(1) by force
      ultimately show "\<exists>x. buffptr e = Ptr x \<and> ?h x \<noteq> None" by auto
    qed
    have "\<exists>es'. AESD_CIRCULAR_BUFFER_FOREACH cleanup_body (Suc i) ?es ?h = Inr (es', freed_from (Suc i) ?es ?h)"
      using Suc.prems Suc.hyps(2) split True live by (intro Suc.hyps(1)) auto
    moreover have "freed_from (Suc i) ?es ?h = freed_from i es h"
      using split True a by (auto simp: freed_from_def fun_eq_iff)
    ultimately show ?thesis
      using i True a Suc.prems(1)
      by (simp add: cleanup_step [of i] used_entry_def kfree_def)
  qed
qed

lemma used_entries:
  assumes "dev_data k st"
  shows "set (map buffptr (filter used_entry (entry (aesd_cb (aesd_device k))))) = set (ring_ptrs k)"
    and "distinct (map buffptr (filter used_entry (entry (aesd_cb (aesd_device k)))))"
    and "set (filter used_entry (entry (aesd_cb (aesd_device k)))) = set (cb_list (aesd_cb (aesd_device k)))"
proof -
  let ?cb = "aesd_cb (aesd_device k)"
  have wf: "cb_wf ?cb" and dist: "distinct (map buffptr (cb_list ?cb))"
    using assms by (auto simp: dev_data_def ring_ptrs_def)
  have used: "list_all used_entry (cb_list ?cb)"
    by (rule dev_data_used [OF assms])
  let ?o = "unat (out_offs ?cb)" and ?i = "unat (in_offs ?cb)"
  have "distinct (map buffptr (filter used_entry (entry ?cb))) \<and>
    set (filter used_entry (entry ?cb)) = set (cb_list ?cb)"
  proof (cases "full ?cb")
    case True
    have split: "entry ?cb = take ?o (entry ?cb) @ drop ?o (entry ?cb)" by simp
    have rot: "cb_list ?cb = drop ?o (entry ?cb) @ take ?o (entry ?cb)"
      using True by (simp add: cb_list_def)
    have same: "set (entry ?cb) = set (cb_list ?cb)"
      unfolding rot by (subst split) (simp add: Un_commute del: append_take_drop_id)
    then have "filter used_entry (entry ?cb) = entry ?cb"
      using used by (simp add: list_all_iff)
    moreover have "distinct (map buffptr (entry ?cb))"
      using dist unfolding rot by (subst split) (auto simp del: append_take_drop_id)
    ultimately show ?thesis using same by simp
  next
    case False
    have "list_all blank_entry (drop ?i (entry ?cb))"
      using wf False by (simp add: cb_wf_def)
    then have "filter used_entry (drop ?i (entry ?cb)) = []"
      by (auto simp: filter_empty_conv list_all_iff blank_entry_def used_entry_def)
    moreover have "filter used_entry (take ?i (entry ?cb)) = cb_list ?cb"
      using used False by (simp add: cb_list_def list_all_iff)
    ultimately have "filter used_entry (entry ?cb) = cb_list ?cb"
      by (metis append_Nil2 append_take_drop_id filter_append)
    then show ?thesis using dist by simp
  qed
  then show "set (map buffptr (filter used_entry (entry ?cb))) = set (ring_ptrs k)"
    and "distinct (map buffptr (filter used_entry (entry ?cb)))"
    and "set (filter used_entry (entry ?cb)) = set (cb_list ?cb)"
    by (simp_all only: ring_ptrs_def set_map)
qed

lemma aesd_cleanup_frees:
  assumes rel: "dev_rel k st"
  shows "\<exists>k'. aesd_cleanup_module k = Inr k' \<and> \<not> chrdev_region k' \<and>
    \<not> cdev_live (cdev (aesd_device k')) \<and>
    kheap k' = (\<lambda>a. if Ptr a \<in> set (ring_ptrs k) then None else kheap k a)"
proof -
  let ?cb = "aesd_cb (aesd_device k)"
  have data: "dev_data k st" using rel by (simp add: dev_rel_def)
  have "\<exists>a. buffptr e = Ptr a \<and> kheap k a \<noteq> None" if "e \<in> set (cb_list ?cb)" for e
  proof -
    obtain j where "j < length (cb_list ?cb)" "e = cb_list ?cb ! j"
      using \<open>e \<in> _\<close> by (auto simp: in_set_conv_nth)
    then have "entry_holds (kheap k) e (fst st ! j)"
      using data by (auto simp: dev_data_def list_all2_conv_all_nth)
    then show ?thesis by (auto simp: entry_holds_def holds_bytes_Ptr)
  qed
  then have live: "\<forall>e \<in> set (filter used_entry (drop 0 (entry ?cb))). \<exists>a. buffptr e = Ptr a \<and> kheap k a \<noteq> None"
    unfolding drop_0 used_entries(3) [OF data] by blast
  have "length (entry ?cb) = 10" "kheap k 16 = None"
    using data by (auto simp: dev_data_def cb_wf_def)
  then obtain es where "AESD_CIRCULAR_BUFFER_FOREACH cleanup_body 0 (entry ?cb) (kheap k) = Inr (es, freed_from 0 (entry ?cb) (kheap k))"
    using cleanup_frees [OF _ _ _ _ live] used_entries(2) [OF data] by auto
  then show ?thesis
    using used_entries(1) [OF data]
    by (auto simp: aesd_cleanup_module_def Let_def freed_from_def)
qed

section \<open>The open device as a state machine\<close>

text \<open>
  Any number of open files on the device. The rules are the members of the source's
  \<^verbatim>\<open>aesd_fops\<close>: each is one whole system call on file \<open>i\<close>, with a kernel that works
  (\<^const>\<open>answers_ok\<close>) where it allocates. A call that faults has no successor.
\<close>

type_synonym dev_state = "kernel \<times> (nat \<Rightarrow> struct_file)"

inductive aesd_fops :: "dev_state \<Rightarrow> dev_state \<Rightarrow> bool" where
  fop_read: "aesd_read k (fs i) buf count (f_pos (fs i)) miss = Inr (r, pos, bs) \<Longrightarrow>
    aesd_fops (k, fs) (k, fs(i := (fs i)\<lparr>f_pos := pos\<rparr>))"
| fop_write: "answers_ok k ub count ans \<Longrightarrow> aesd_write k (fs i) (Some ub) count ans = Inr (r, k') \<Longrightarrow>
    aesd_fops (k, fs) (k', fs)"
| fop_open: "aesd_open \<lparr>i_cdev = Cdev_of Ref_aesd_device\<rparr> (fs i) = (r, f) \<Longrightarrow>
    aesd_fops (k, fs) (k, fs(i := f))"
| fop_release: "aesd_release ino (fs i) = (r, f) \<Longrightarrow> aesd_fops (k, fs) (k, fs(i := f))"
| fop_llseek: "aesd_llseek k (fs i) off whence = (r, f) \<Longrightarrow> aesd_fops (k, fs) (k, fs(i := f))"
| fop_ioctl: "aesd_ioctl k (fs i) cmd seek ans = Inr (r, f, k') \<Longrightarrow> aesd_fops (k, fs) (k', fs(i := f))"

definition dev_start :: "dev_state \<Rightarrow> bool" where
  "dev_start s \<longleftrightarrow> (\<exists>k0 region major. kheap k0 = Map.empty \<and> 0 \<le> region \<and>
     aesd_init_module k0 region major 0 = (0, fst s)) \<and>
     (\<forall>i. private_data (snd s i) = None \<and> f_pos (snd s i) = 0)"

definition pos_ok :: "struct_file \<Rightarrow> bool" where
  "pos_ok f \<longleftrightarrow> 0 \<le> sint (f_pos f)"

definition dev_inv :: "dev_state \<Rightarrow> bool" where
  "dev_inv s \<longleftrightarrow> (\<exists>st. dev_rel (fst s) st) \<and> (\<forall>i. pos_ok (snd s i))"

lemma pos_ok_iff: "pos_ok f \<longleftrightarrow> unat (f_pos f) < 2 ^ 63"
  by (simp add: pos_ok_def sint_nonneg_iff)

lemma aesd_llseek_pos: "aesd_llseek k f off whence = (r, f') \<Longrightarrow> pos_ok f \<Longrightarrow> pos_ok f'"
  by (auto simp: aesd_llseek_def pos_ok_def Let_def split: if_splits option.splits)

lemma unopened_read:
  "private_data f = None \<Longrightarrow> aesd_read k f buf count pos miss = Inr (r, pos', bs) \<Longrightarrow> pos' = pos"
  by (auto simp: aesd_read_def file_dev_def split: if_splits)

lemma dev_ref_cases: "private_data f = None \<or> private_data f = Some Ref_aesd_device"
  by (cases "private_data f") (auto intro: aesd_dev_ref.exhaust)

lemma aesd_read_pos:
  assumes "dev_rel k st" and "pos_ok f" and "aesd_read k f buf count (f_pos f) miss = Inr (r, pos, bs)"
  shows "pos_ok (f\<lparr>f_pos := pos\<rparr>)"
proof (cases "private_data f = None \<or> buf = NULL")
  case True
  with assms show ?thesis by (auto simp: aesd_read_def pos_ok_def dest: unopened_read)
next
  case False
  have data: "dev_data k st" using assms(1) by (simp add: dev_rel_def)
  let ?b = "device_read st (unat (f_pos f)) (unat count)"
  from False assms(3) have pos: "pos = f_pos f \<or> pos = f_pos f + of_nat (length ?b)"
    using aesd_read_result [OF data, of f buf count "f_pos f" miss] dev_ref_cases [of f]
    by (auto simp: Let_def split: if_splits)
  have "unat (f_pos f + of_nat (length ?b)) < 2 ^ 63"
  proof (cases "?b = []")
    case True
    with assms(2) show ?thesis by (simp add: pos_ok_iff)
  next
    case False
    have "unat (f_pos f) + length ?b \<le> length (device_bytes st)"
      using arg_cong [OF device_read_drop [of "unat (f_pos f)" st "unat count"], of length] False
      by (simp flip: length_greater_0_conv)
    moreover have "length (device_bytes st) < 2 ^ 63"
      using dev_data_sum(2) [OF data] by (simp add: device_bytes_def length_concat)
    ultimately show ?thesis
      by (subst unat_add_lt) (auto simp: unat_of_nat_64)
  qed
  with pos assms(2) show ?thesis by (auto simp: pos_ok_iff)
qed

lemma used_prefix:
  assumes data: "dev_data k st" and w: "w < 10" and used: "used_entry (entry (aesd_cb (aesd_device k)) ! w)"
  shows "list_all used_entry (take (Suc w) (entry (aesd_cb (aesd_device k))))"
proof -
  let ?cb = "aesd_cb (aesd_device k)"
  have wf: "cb_wf ?cb" using data by (simp add: dev_data_def)
  have w': "w < length (cb_list ?cb)"
    using entry_past_end [OF wf _ w] used by (meson not_le)
  have all: "list_all used_entry (cb_list ?cb)"
    by (rule dev_data_used [OF data])
  show ?thesis
  proof (cases "full ?cb")
    case True
    then have "set (entry ?cb) \<subseteq> set (cb_list ?cb)"
      by (simp add: cb_list_def) (metis Un_commute append_take_drop_id set_append subset_refl)
    then show ?thesis
      using all by (auto simp: list_all_iff dest: in_set_takeD)
  next
    case False
    then have "Suc w \<le> unat (in_offs ?cb)"
      using w' length_cb_list [OF wf] by simp
    with False have "take (Suc w) (entry ?cb) = take (Suc w) (cb_list ?cb)"
      by (simp add: cb_list_def min_def)
    then show ?thesis
      using all by (auto simp: list_all_iff dest: in_set_takeD)
  qed
qed

lemma sum_entry_sizes_take:
  assumes "dev_data k st" and "w < 10"
  shows "sum_list (entry_sizes (take (Suc w) (entry (aesd_cb (aesd_device k))))) < 2 ^ 63"
proof -
  let ?cb = "aesd_cb (aesd_device k)"
  have wf: "cb_wf ?cb" using assms by (simp add: dev_data_def)
  have "sum_list (entry_sizes (entry ?cb)) = sum_list (entry_sizes (cb_list ?cb))"
  proof (cases "full ?cb")
    case True
    have "sum_list (entry_sizes (entry ?cb)) =
        sum_list (entry_sizes (take (unat (out_offs ?cb)) (entry ?cb) @ drop (unat (out_offs ?cb)) (entry ?cb)))"
      by simp
    with True show ?thesis
      by (simp add: cb_list_def entry_sizes_def del: append_take_drop_id)
  next
    case False
    have "sum_list (entry_sizes (entry ?cb)) =
        sum_list (entry_sizes (take (unat (in_offs ?cb)) (entry ?cb) @ drop (unat (in_offs ?cb)) (entry ?cb)))"
      by simp
    moreover have "entry_sizes (drop (unat (in_offs ?cb)) (entry ?cb)) =
        replicate (length (drop (unat (in_offs ?cb)) (entry ?cb))) 0"
      using wf False by (intro entry_sizes_blank) (simp add: cb_wf_def)
    ultimately show ?thesis
      using False by (simp add: cb_list_def entry_sizes_def sum_list_replicate del: append_take_drop_id)
  qed
  moreover have "sum_list (entry_sizes (take (Suc w) (entry ?cb))) \<le> sum_list (entry_sizes (entry ?cb))"
    by (metis append_take_drop_id entry_sizes_def le_add1 map_append sum_list_append)
  ultimately show ?thesis
    using dev_data_sum [OF assms(1)] by simp
qed

text \<open>
  On a device in a good state the positioning has three outcomes: a fault at the slot one
  past the array, an error with the file untouched, or success.
\<close>

lemma seek_entry_outcome:
  assumes data: "dev_data k st" and le: "unat (write_cmd seek) \<le> 10"
  shows "(case seek_entry (entry (aesd_cb (aesd_device k))) seek f of
      Inl e \<Rightarrow> unat (write_cmd seek) = 10 \<and> e = Out_Of_Bounds
    | Inr (r, f') \<Rightarrow> unat (write_cmd seek) < 10 \<and>
        (r = - EINVAL \<and> f' = f \<or> r = 0 \<and> (\<exists>pos. unat pos < 2 ^ 63 \<and> f' = f\<lparr>f_pos := pos\<rparr>)))"
proof -
  let ?es = "entry (aesd_cb (aesd_device k))" and ?w = "unat (write_cmd seek)"
  have len: "length ?es = 10" using data by (simp add: dev_data_def cb_wf_def)
  consider (oob) "?w = 10" | (blank) "?w < 10" "\<not> used_entry (?es ! ?w)"
    | (far) "?w < 10" "used_entry (?es ! ?w)" "unat (write_cmd_offset seek) > unat (entry_size (?es ! ?w))"
    | (ok) "?w < 10" "used_entry (?es ! ?w)" "unat (write_cmd_offset seek) \<le> unat (entry_size (?es ! ?w))"
    using le by fastforce
  then show ?thesis
  proof cases
    case oob
    then show ?thesis using len by (simp add: seek_entry_out_of_bounds)
  next
    case blank
    then show ?thesis using len by (simp add: seek_entry_blank)
  next
    case far
    have "entry_size (?es ! ?w) < ucast (write_cmd_offset seek)"
      using far(3) by (simp add: word_less_nat_alt)
    moreover obtain r l where "seek_loop ?es 0 ?w 0 = Inr (r, l)"
      using seek_loop_total [of ?w ?es 0 0] far(1) len by auto
    ultimately show ?thesis
      using far(1,2) len by (simp add: seek_entry_def used_entry_def)
  next
    case ok
    let ?s = "sum_list (entry_sizes (take ?w ?es))"
    have bound: "?s + unat (entry_size (?es ! ?w)) < 2 ^ 63"
      using sum_entry_sizes_take [OF data ok(1)] ok(1) len
      by (simp add: take_Suc_conv_app_nth entry_sizes_def)
    then have "unat (of_nat ?s + ucast (write_cmd_offset seek) :: loff_t) < 2 ^ 63"
      using ok(3) by (subst unat_add_lt) (simp_all add: unat_of_nat_64)
    then show ?thesis
      using seek_entry_used [OF used_prefix [OF data ok(1,2)] _ refl ok(3), of f] ok(1) len by auto
  qed
qed

lemma aesd_ioctl_cases:
  assumes rel: "dev_rel k st" and filp: "private_data filp = Some Ref_aesd_device"
  shows "case aesd_ioctl k filp cmd seek ans of
      Inl e \<Rightarrow> e = Out_Of_Bounds \<and> cmd = AESDCHAR_IOCSEEKTO \<and> missing ans = 0 \<and> unat (write_cmd seek) = 10
    | Inr (r, filp', k') \<Rightarrow> k' = k \<and>
        (r = - EINVAL \<and> filp' = filp \<or>
         r = 0 \<and> cmd = AESDCHAR_IOCSEEKTO \<and> unat (write_cmd seek) < 10 \<and>
           (\<exists>pos. 0 \<le> sint pos \<and> filp' = filp\<lparr>f_pos := pos\<rparr>))"
proof (cases "cmd = AESDCHAR_IOCSEEKTO \<and> missing ans = 0 \<and> unat (write_cmd seek) \<le> 10")
  case False
  then show ?thesis by (auto simp: aesd_ioctl_def)
next
  case True
  have data: "dev_data k st" using rel by (simp add: dev_rel_def)
  show ?thesis
    using seek_entry_outcome [OF data, of seek filp] True aesd_ioctl_seek [OF rel filp, of ans seek]
    by (cases "seek_entry (entry (aesd_cb (aesd_device k))) seek filp") (auto simp: sint_nonneg_iff)
qed

lemma aesd_ioctl_outcome:
  assumes rel: "dev_rel k st" and run: "aesd_ioctl k f cmd seek ans = Inr (r, f', k')"
  shows "k' = k \<and> (r = 0 \<or> f' = f) \<and> (pos_ok f \<longrightarrow> pos_ok f')"
proof (cases "cmd = AESDCHAR_IOCSEEKTO \<and> missing ans = 0 \<and> unat (write_cmd seek) \<le> 10")
  case False
  with run show ?thesis by (auto simp: aesd_ioctl_def split: if_splits)
next
  case True
  then have f: "private_data f = Some Ref_aesd_device"
    using run dev_ref_cases [of f] by (auto simp: aesd_ioctl_def file_dev_def)
  have data: "dev_data k st" using rel by (simp add: dev_rel_def)
  from run True have "seek_entry (entry (aesd_cb (aesd_device k))) seek f = Inr (r, f')" "k' = k"
    using aesd_ioctl_seek [OF rel f, of ans seek] by (auto simp: rbind_eq_Inr_iff)
  then show ?thesis
    using seek_entry_outcome [OF data, of seek f] True by (auto simp: pos_ok_iff)
qed

lemma aesd_write_rel:
  assumes "dev_rel k st" and "answers_ok k ub count ans" and "aesd_write k f (Some ub) count ans = Inr (r, k')"
  shows "\<exists>st'. dev_rel k' st'"
proof -
  have "private_data f = Some Ref_aesd_device"
    using assms(3) dev_ref_cases [of f] by (auto simp: aesd_write_def file_dev_def)
  then show ?thesis
    using aesd_write_ok [OF assms(1) _ assms(2), of f] assms(3) by (auto simp del: split_paired_Ex)
qed

lemma dev_inv_start:
  assumes "dev_start s"
  shows "dev_inv s"
proof -
  from assms obtain k0 region major where "kheap k0 = Map.empty" "0 \<le> region"
    "aesd_init_module k0 region major 0 = (0, fst s)" by (auto simp: dev_start_def)
  then have "dev_rel (fst s) empty_device"
    using init_dev_rel [of region k0 major 0 "fst s"] by simp
  then have "\<exists>st. dev_rel (fst s) st" ..
  with assms show ?thesis by (simp add: dev_inv_def dev_start_def pos_ok_def del: split_paired_Ex)
qed

lemma dev_inv_step:
  assumes "aesd_fops s t" and "dev_inv s"
  shows "dev_inv t"
  using assms
proof (induction rule: aesd_fops.induct)
  case (fop_read k fs i buf count miss r pos bs)
  then show ?case
    using aesd_read_pos by (fastforce simp: dev_inv_def)
next
  case (fop_write k ub count ans fs i r k')
  then show ?case
    using aesd_write_rel by (fastforce simp: dev_inv_def)
next
  case (fop_open fs i r f k)
  then show ?case by (auto simp: dev_inv_def aesd_open_def pos_ok_def Let_def)
next
  case (fop_release ino fs i r f k)
  then show ?case by (auto simp: dev_inv_def aesd_release_def)
next
  case (fop_llseek k fs i off whence r f)
  then show ?case by (auto simp: dev_inv_def dest: aesd_llseek_pos)
next
  case (fop_ioctl k fs i cmd seek ans r f k')
  then show ?case
    using aesd_ioctl_outcome [of k _ "fs i" cmd seek ans r f k'] by (auto simp: dev_inv_def)
qed

interpretation dev_machine: invariant_machine dev_start aesd_fops dev_inv
  by unfold_locales (blast intro: dev_inv_start dev_inv_step)+

end
