(* ===== verification/Driver_Properties.thy ===== *)
theory Driver_Properties
  imports Driver_Safety
begin

text \<open>
  The theorems about the circular buffer and the character driver, each with an instance at
  a concrete input. The instances use a device as module initialisation leaves it and the
  answers of a kernel that works.
\<close>

section \<open>A freshly initialised device\<close>

definition zero_cb :: aesd_circular_buffer where
  "zero_cb = \<lparr>entry = replicate 10 zero_entry, in_offs = 0, out_offs = 0, full = False, cb_size = 0\<rparr>"

definition boot_kernel :: kernel where
  "boot_kernel = \<lparr>aesd_major = 0, chrdev_region = False,
     aesd_device = \<lparr>cdev = \<lparr>owner_this_module = False, cdev_ops = No_fops, cdev_live = False\<rparr>,
       aesd_cb = zero_cb, mx_lock = False, tmp_buf = NULL, tmp_size = 0, buffer_size = 0\<rparr>,
     kheap = Map.empty\<rparr>"

definition fresh_kernel :: kernel where
  "fresh_kernel = snd (aesd_init_module boot_kernel 0 240 0)"

definition good_answers :: "nat \<Rightarrow> answers" where
  "good_answers a = \<lparr>interrupted = False, alloc = Some a, missing = 0, stack_junk = 0\<rparr>"

lemma fresh_dev_rel: "dev_rel fresh_kernel empty_device"
  using init_dev_rel [of 0 boot_kernel 240 "fst (aesd_init_module boot_kernel 0 240 0)" fresh_kernel]
  by (simp add: fresh_kernel_def boot_kernel_def)

lemma fresh_fields:
  "kheap fresh_kernel = Map.empty" "tmp_size (aesd_device fresh_kernel) = 0"
  "tmp_buf (aesd_device fresh_kernel) = NULL" "buffer_size (aesd_device fresh_kernel) = 0"
  "mx_lock (aesd_device fresh_kernel) = False" "out_offs (aesd_cb (aesd_device fresh_kernel)) = 0"
  by (simp_all add: fresh_kernel_def boot_kernel_def aesd_init_module_def aesd_setup_cdev_def
      zero_dev_def aesd_circular_buffer_init_def Let_def)

lemma fresh_answers_ok:
  "a \<noteq> 16 \<Longrightarrow> length bs < 2 ^ 59 \<Longrightarrow> answers_ok fresh_kernel bs (of_nat (length bs)) (good_answers a)"
  by (simp add: answers_ok_def good_answers_def fresh_fields unat_of_nat_64)

lemma fresh_start: "dev_start (fresh_kernel, \<lambda>i. \<lparr>private_data = None, f_pos = 0\<rparr>)"
proof -
  have "aesd_init_module boot_kernel 0 240 0 = (0, fresh_kernel)"
    by (simp add: fresh_kernel_def aesd_init_module_def aesd_setup_cdev_def Let_def)
  then show ?thesis
    unfolding dev_start_def by (intro conjI exI [of _ boot_kernel]) (auto simp: boot_kernel_def intro: exI [of _ 0])
qed

section \<open>The circular buffer\<close>

text \<open>
  C1: The ring keeps the last ten entries. Adding any sequence of entries to an initialised
  buffer succeeds, leaves it well formed, and the entries read from \<^verbatim>\<open>out_offs\<close> on are the
  last ten added, oldest first.
\<close>

theorem ring_keeps_last_ten:
  "\<exists>b'. push_all aesd_circular_buffer_add_entry (aesd_circular_buffer_init b) es = Inr b' \<and> cb_wf b' \<and>
     cb_list b' = drop (length es - AESDCHAR_MAX_WRITE_OPERATIONS_SUPPORTED) es"
  using cbuf.push_all_last_n [OF cb_wf_init, of b es] by (simp add: cb_list_init)

text \<open>
  C2: The position search returns, and it is right. On a well-formed buffer whose stored
  bytes \<open>cs\<close> (of the sizes the entries record) do not exceed \<^verbatim>\<open>size_t\<close>, a position inside
  the concatenation yields the entry holding it and the byte's offset in the entry; any
  other position yields a null pointer.
\<close>

theorem find_entry_correct:
  assumes "cb_wf b" and "entry_sizes (cb_list b) = map length cs" and "length (concat cs) < 2 ^ 64"
  shows "if unat p < length (concat cs)
    then \<exists>i q. aesd_circular_buffer_find_entry_offset_for_fpos b p =
           Some (Inr (Some ((unat (out_offs b) + i) mod 10, of_nat q))) \<and>
         i < length (cb_list b) \<and> entry b ! ((unat (out_offs b) + i) mod 10) = cb_list b ! i \<and>
         q < length (cs ! i) \<and> concat cs ! unat p = cs ! i ! q
    else aesd_circular_buffer_find_entry_offset_for_fpos b p = Some (Inr None)"
proof -
  let ?l = "locate (map length cs) (unat p)"
  have find: "aesd_circular_buffer_find_entry_offset_for_fpos b p =
    Some (Inr (map_option (\<lambda>(i, q). ((unat (out_offs b) + i) mod 10, of_nat q)) ?l))"
    using find_entry_locate [OF assms(1)] assms(2,3) by (simp add: length_concat)
  have len: "length (cb_list b) = length cs"
    using assms(2) by (metis entry_sizes_def length_map)
  show ?thesis
  proof (cases ?l)
    case None
    then show ?thesis
      using find locate_None_iff [of "map length cs" "unat p"] by (simp add: length_concat)
  next
    case (Some iq)
    then obtain i q where l: "?l = Some (i, q)" by (cases iq) auto
    then have "i < length cs" "q < length (cs ! i)"
      using locate_Some_bounds [OF l] by auto
    moreover have "unat p < length (concat cs)"
      using l locate_None_iff [of "map length cs" "unat p"] by (simp add: length_concat)
    ultimately show ?thesis
      using find l locate_concat_nth [OF l] cb_list_nth [OF assms(1), of i] len
      unfolding if_P [OF \<open>unat p < _\<close>] by (intro exI [of _ i] exI [of _ q]) simp
  qed
qed

text \<open>An instance: position 3 of the commands of two and five bytes.\<close>

definition two_entries :: aesd_circular_buffer where
  "two_entries = zero_cb\<lparr>
     entry := [\<lparr>buffptr = Ptr 100, entry_size = 2, entry_offset = 0\<rparr>,
               \<lparr>buffptr = Ptr 200, entry_size = 5, entry_offset = 0\<rparr>] @ replicate 8 zero_entry,
     in_offs := 2\<rparr>"

theorem find_entry_correct_witness:
  "\<exists>i q. aesd_circular_buffer_find_entry_offset_for_fpos two_entries 3 =
      Some (Inr (Some ((unat (out_offs two_entries) + i) mod 10, of_nat q))) \<and>
    concat [''ab'', ''cdefg''] ! 3 = [''ab'', ''cdefg''] ! i ! q"
proof -
  have "cb_wf two_entries"
    by (simp add: cb_wf_def two_entries_def zero_cb_def zero_entry_def blank_entry_def
        list_all_iff)
  moreover have "entry_sizes (cb_list two_entries) = map length [''ab'', ''cdefg'']"
    by (simp add: entry_sizes_def cb_list_def two_entries_def zero_cb_def)
  moreover have "length (concat [''ab'', ''cdefg'']) < 2 ^ 64" by simp
  ultimately show ?thesis
    using find_entry_correct [of two_entries "[''ab'', ''cdefg'']" 3] by auto
qed

section \<open>Reading and writing\<close>

lemma fresh_write:
  assumes "length bs < 2 ^ 59"
  shows "\<exists>k'. aesd_write fresh_kernel (opened_file 0) (Some bs) (of_nat (length bs)) (good_answers 100) =
      Inr (of_nat (length bs), k') \<and> dev_rel k' (device_write empty_device bs) \<and>
    buffer_size (aesd_device k') = of_nat (length bs)"
proof -
  have "copied bs (of_nat (length bs)) (good_answers 100) = bs"
    using assms by (simp add: copied_def good_answers_def unat_of_nat_64)
  then show ?thesis
    using aesd_write_ok [OF fresh_dev_rel _ fresh_answers_ok [of 100 bs], of "opened_file 0"] assms
    by (simp add: good_answers_def fresh_fields)
qed

lemma four: "(4 :: nat) = Suc (Suc (Suc (Suc 0)))"
  by simp

text \<open>
  C3: A write refines the abstract write. With a kernel that works, a write to a device that
  represents \<open>st\<close> never faults, returns the number of bytes it could copy, and leaves a device
  that represents \<open>st\<close> with those bytes appended: the pending command grows, and once it holds
  a newline it becomes the newest of at most ten commands.
\<close>

theorem write_refines_device:
  assumes "dev_rel k st" and "private_data filp = Some Ref_aesd_device" and "answers_ok k ub count ans"
  shows "\<exists>k'. aesd_write k filp (Some ub) count ans = Inr (count - missing ans, k') \<and>
    dev_rel k' (device_write st (take (unat (count - missing ans)) ub))"
  using aesd_write_ok [OF assms] by (auto simp: copied_def)

theorem write_refines_device_witness:
  "\<exists>k'. aesd_write fresh_kernel (opened_file 0) (Some (''hi'' @ [NEWLINE])) 3 (good_answers 100) = Inr (3, k') \<and>
     dev_rel k' ([''hi'' @ [NEWLINE]], [])"
proof -
  have ok: "answers_ok fresh_kernel (''hi'' @ [NEWLINE]) 3 (good_answers 100)"
    using fresh_answers_ok [of 100 "''hi'' @ [NEWLINE]"] by simp
  show ?thesis
    using write_refines_device [OF fresh_dev_rel opened_file_dev ok, of 0]
    by (simp add: good_answers_def device_write_def empty_device_def fifo_push_def)
qed

text \<open>
  C4: A read refines the abstract read. On a device that represents \<open>st\<close> a read into a valid
  buffer never faults and never diverges: it delivers the bytes of the command holding the
  position, from there on and at most \<open>count\<close> of them, and advances the position by their
  number; a failing user copy is \<^verbatim>\<open>-EFAULT\<close> with the position kept; at the end of the data it
  returns 0.
\<close>

theorem read_refines_device:
  assumes "dev_rel k st" and "private_data filp = Some Ref_aesd_device" and "buf \<noteq> NULL"
  shows "aesd_read k filp buf count pos miss =
    (let bs = device_read st (unat pos) (unat count)
     in Inr (if miss \<noteq> 0 \<and> unat pos < length (device_bytes st)
             then (- EFAULT, pos, take (length bs - unat miss) bs)
             else (of_nat (length bs), pos + of_nat (length bs), bs)))"
  using assms by (intro aesd_read_result) (auto simp: dev_rel_def)

theorem read_refines_device_witness:
  "\<exists>k'. aesd_write fresh_kernel (opened_file 0) (Some (''hi'' @ [NEWLINE])) 3 (good_answers 100) = Inr (3, k') \<and>
     aesd_read k' (opened_file 0) (Ptr 1) 8 1 0 = Inr (2, 3, ''i'' @ [NEWLINE])"
proof -
  obtain k' where k': "aesd_write fresh_kernel (opened_file 0) (Some (''hi'' @ [NEWLINE])) 3 (good_answers 100) =
      Inr (3, k')" "dev_rel k' ([''hi'' @ [NEWLINE]], [])"
    using fresh_write [of "''hi'' @ [NEWLINE]"]
    by (auto simp: device_write_def empty_device_def fifo_push_def)
  show ?thesis
    using k'(1) read_refines_device [OF k'(2) opened_file_dev, of "Ptr 1" 0 8 1 0]
    by (simp add: device_read_def device_bytes_def)
qed



text \<open>
  C6: What was written last is read back. On a freshly initialised device, writing whole
  commands and then reading from position 0 yields the last ten commands in order, whatever
  the sizes of the reads.
\<close>

theorem last_ten_commands_read_back:
  assumes "0 \<le> region" and "kheap k0 16 = None" and "aesd_init_module k0 region major 0 = (0, k)"
    and "pieces_ok driver_wr driver_wr_ok k ps" and "list_all (\<lambda>c. NEWLINE \<in> set c) (map snd ps)"
    and "0 < count" and "count < 2 ^ 64"
  shows "\<exists>k'. write_pieces driver_wr k ps = Inr k' \<and>
    drain (\<lambda>p. driver_rd k' p count) (Suc (length (concat (drop (length ps - 10) (map snd ps))))) 0 =
      Inr (concat (drop (length ps - 10) (map snd ps)))"
proof -
  let ?st = "(foldl (fifo_push 10) [] (map snd ps), [])"
  have "dev_rel k ([], [])"
    using init_dev_rel [OF assms(1-3)] by (simp add: empty_device_def)
  then obtain k' where k': "write_pieces driver_wr k ps = Inr k'" "dev_rel k' ?st"
    using drv.write_pieces_fold [of k "([], [])" ps] device_write_commands [OF assms(5), of "[]"] assms(4)
    by auto
  moreover have "device_bytes ?st = concat (drop (length ps - 10) (map snd ps))"
    by (simp add: device_bytes_def fifo_history)
  ultimately show ?thesis
    using drv.drain_all [OF k'(2) assms(6,7), of 0 "Suc (length (device_bytes ?st))"]
    by (auto simp del: drain.simps)
qed

theorem last_ten_commands_read_back_witness:
  "\<exists>k'. write_pieces driver_wr fresh_kernel [(good_answers 100, ''hi'' @ [NEWLINE])] = Inr k' \<and>
    drain (\<lambda>p. driver_rd k' p 2) 4 0 = Inr (''hi'' @ [NEWLINE])"
proof -
  have init: "aesd_init_module boot_kernel 0 240 0 = (0, fresh_kernel)"
    by (simp add: fresh_kernel_def aesd_init_module_def aesd_setup_cdev_def Let_def)
  have ok: "driver_wr_ok fresh_kernel (good_answers 100) (''hi'' @ [NEWLINE])"
    using fresh_answers_ok [of 100 "''hi'' @ [NEWLINE]"]
    by (simp add: driver_wr_ok_def good_answers_def)
  then have "pieces_ok driver_wr driver_wr_ok fresh_kernel [(good_answers 100, ''hi'' @ [NEWLINE])]"
    using driver_wr_law [OF fresh_dev_rel ok] by auto
  then show ?thesis
    using last_ten_commands_read_back [OF _ _ init, of "[(good_answers 100, ''hi'' @ [NEWLINE])]" 2]
    unfolding four by (simp add: boot_kernel_def del: drain.simps write_pieces.simps)
qed

lemma fresh_pieces_ok:
  assumes "length bs < 2 ^ 59"
  shows "pieces_ok driver_wr driver_wr_ok fresh_kernel [(good_answers 100, bs)]"
proof -
  have ok: "driver_wr_ok fresh_kernel (good_answers 100) bs"
    using fresh_answers_ok [of 100 bs] assms by (simp add: driver_wr_ok_def good_answers_def)
  then show ?thesis using driver_wr_law [OF fresh_dev_rel ok] by auto
qed

text \<open>
  How a command is split into writes does not matter. Writing non-empty pieces of a
  command whose only newline is its last byte, after any pending bytes, stores the whole
  command as one entry and leaves nothing pending.
\<close>

theorem split_writes_make_one_command:
  assumes "dev_rel k (cmds, pend)" and "pieces_ok driver_wr driver_wr_ok k ps"
    and "concat (map snd ps) = bs @ [NEWLINE]" and "NEWLINE \<notin> set bs"
    and "list_all (\<lambda>p. snd p \<noteq> []) ps"
  shows "\<exists>k'. write_pieces driver_wr k ps = Inr k' \<and>
    dev_rel k' (fifo_push 10 cmds (pend @ bs @ [NEWLINE]), [])"
proof -
  have "NEWLINE \<notin> set pend"
    using drv.no_pending_newline [OF assms(1)] by simp
  then have "foldl device_write (cmds, pend) (map snd ps) = (fifo_push 10 cmds (pend @ bs @ [NEWLINE]), [])"
    using assms(3-5) by (intro device_write_pieces) (auto simp: list_all_iff)
  then show ?thesis
    using drv.write_pieces_fold [OF assms(1,2)] by simp
qed

theorem split_writes_make_one_command_witness:
  "\<exists>k'. write_pieces driver_wr fresh_kernel [(good_answers 100, ''hi'' @ [NEWLINE])] = Inr k' \<and>
     dev_rel k' ([''hi'' @ [NEWLINE]], [])"
  using split_writes_make_one_command [of fresh_kernel "[]" "[]" "[(good_answers 100, ''hi'' @ [NEWLINE])]" "''hi''"]
    fresh_pieces_ok [of "''hi'' @ [NEWLINE]"] fresh_dev_rel
  by (simp add: empty_device_def fifo_push_def del: write_pieces.simps pieces_ok.simps)

section \<open>Reachable states\<close>



section \<open>Seeking\<close>

text \<open>
  The device control call positions at a command. As long as the oldest command sits in
  slot 0 of the ring, \<^verbatim>\<open>AESDCHAR_IOCSEEKTO\<close> with the number of a stored command and an offset
  inside it succeeds, and reading from the new position delivers that command from that
  offset on.
\<close>

theorem ioctl_seek_then_read:
  assumes rel: "dev_rel k (cmds, pend)" and filp: "private_data filp = Some Ref_aesd_device"
    and "missing ans = 0" and "out_offs (aesd_cb (aesd_device k)) = 0"
    and w: "unat (write_cmd seek) < length cmds"
    and off: "unat (write_cmd_offset seek) < length (cmds ! unat (write_cmd seek))"
  shows "\<exists>filp'. aesd_ioctl k filp AESDCHAR_IOCSEEKTO seek ans = Inr (0, filp', k) \<and>
    device_read (cmds, pend) (unat (f_pos filp')) n =
      take n (drop (unat (write_cmd_offset seek)) (cmds ! unat (write_cmd seek)))"
proof -
  let ?w = "unat (write_cmd seek)" and ?o = "unat (write_cmd_offset seek)"
  let ?p = "sum_list (take ?w (map length cmds)) + ?o"
  have few: "length cmds \<le> 10"
    using rel cb_list_bound [of "aesd_cb (aesd_device k)"]
    by (auto simp: dev_rel_def dev_data_def dest: list_all2_lengthD)
  have ioctl: "aesd_ioctl k filp AESDCHAR_IOCSEEKTO seek ans = Inr (0, filp\<lparr>f_pos := of_nat ?p\<rparr>, k)"
    using aesd_ioctl_slots [OF rel filp assms(3), of cmds seek] assms(4) w off few by simp
  have l: "locate (map length cmds) ?p = Some (?w, ?o)"
    using w off by (intro locate_at) auto
  then have "?p < sum_list (map length cmds)"
    using locate_None_iff [of "map length cmds" ?p] by simp
  moreover have "sum_list (map length cmds) < 2 ^ 63"
    using rel dev_data_sum(2) [of k "(cmds, pend)"] by (simp add: dev_rel_def)
  ultimately have "unat (of_nat ?p :: loff_t) = ?p"
    by (intro unat_of_nat_64) simp
  then show ?thesis
    using ioctl l by (simp add: device_read_def del: of_nat_add)
qed

theorem ioctl_seek_then_read_witness:
  "\<exists>k' filp'. aesd_write fresh_kernel (opened_file 0) (Some (''hi'' @ [NEWLINE])) 3 (good_answers 100) = Inr (3, k') \<and>
     aesd_ioctl k' (opened_file 0) AESDCHAR_IOCSEEKTO \<lparr>write_cmd = 0, write_cmd_offset = 1\<rparr> (good_answers 100) =
       Inr (0, filp', k')"
proof -
  obtain k' where k': "aesd_write fresh_kernel (opened_file 0) (Some (''hi'' @ [NEWLINE])) 3 (good_answers 100) =
      Inr (3, k')" "dev_rel k' ([''hi'' @ [NEWLINE]], [])"
    using fresh_write [of "''hi'' @ [NEWLINE]"]
    by (auto simp: device_write_def empty_device_def fifo_push_def)
  moreover have "out_offs (aesd_cb (aesd_device k')) = 0"
    using dev_rel_unrotated [OF k'(2)] by simp
  ultimately show ?thesis
    using ioctl_seek_then_read [OF k'(2) opened_file_dev, of "good_answers 100"
        "\<lparr>write_cmd = 0, write_cmd_offset = 1\<rparr>" 0]
    by (auto simp: good_answers_def)
qed

text \<open>
  C9: The outcomes of the device control call. On a device in a good state it leaves the
  device as it was; it faults only when it is asked for command 10, one past the array (the
  test compares with \<^verbatim>\<open>>\<close>, \<^verbatim>\<open>main.c\<close> line 192); every error it reports is \<^verbatim>\<open>-EINVAL\<close> and
  leaves the file position as it was; success sets a position that is not negative.
\<close>

theorem ioctl_outcomes:
  assumes rel: "dev_rel k st" and filp: "private_data filp = Some Ref_aesd_device"
  shows "case aesd_ioctl k filp cmd seek ans of
      Inl e \<Rightarrow> e = Out_Of_Bounds \<and> cmd = AESDCHAR_IOCSEEKTO \<and> missing ans = 0 \<and> unat (write_cmd seek) = 10
    | Inr (r, filp', k') \<Rightarrow> k' = k \<and>
        (r = - EINVAL \<and> filp' = filp \<or>
         r = 0 \<and> cmd = AESDCHAR_IOCSEEKTO \<and> unat (write_cmd seek) < 10 \<and>
           (\<exists>pos. 0 \<le> sint pos \<and> filp' = filp\<lparr>f_pos := pos\<rparr>))"
  using assms by (rule aesd_ioctl_cases)

theorem ioctl_outcomes_witness:
  "case aesd_ioctl fresh_kernel (opened_file 0) AESDCHAR_IOCSEEKTO \<lparr>write_cmd = 3, write_cmd_offset = 0\<rparr>
      (good_answers 100) of
     Inl e \<Rightarrow> False
   | Inr (r, filp', k') \<Rightarrow> k' = fresh_kernel"
  using ioctl_outcomes [OF fresh_dev_rel opened_file_dev, where cmd = AESDCHAR_IOCSEEKTO and
      seek = "\<lparr>write_cmd = 3, write_cmd_offset = 0\<rparr>" and ans = "good_answers 100" and pos1 = 0]
  by (auto split: sum.splits)

text \<open>
  C17: Asking for command 10 reads one past the entry array, on every device in a good state.
\<close>

theorem ioctl_command_ten_faults:
  assumes "dev_rel k st" and "private_data filp = Some Ref_aesd_device" and "missing ans = 0"
  shows "aesd_ioctl k filp AESDCHAR_IOCSEEKTO \<lparr>write_cmd = 10, write_cmd_offset = off\<rparr> ans =
    Inl Out_Of_Bounds"
proof -
  have "length (entry (aesd_cb (aesd_device k))) = 10"
    using assms(1) by (auto simp: dev_rel_def dev_data_def cb_wf_def)
  then show ?thesis
    using aesd_ioctl_seek [OF assms, of "\<lparr>write_cmd = 10, write_cmd_offset = off\<rparr>"]
    by (simp add: seek_entry_out_of_bounds)
qed

theorem ioctl_command_ten_faults_witness:
  "aesd_ioctl fresh_kernel (opened_file 0) AESDCHAR_IOCSEEKTO \<lparr>write_cmd = 10, write_cmd_offset = 0\<rparr>
     (good_answers 100) = Inl Out_Of_Bounds"
  using ioctl_command_ten_faults [OF fresh_dev_rel opened_file_dev] by (simp add: good_answers_def)

text \<open>
  C18: The device control call counts slots, not commands. Its position is the sum of the
  sizes of the first slots of the array: once the ring has wrapped, slot \<open>w\<close> is not command
  \<open>w\<close> counted from the oldest, and the position set is computed from the commands in slot order.
\<close>

theorem ioctl_counts_slots:
  assumes "dev_rel k (cmds, pend)" and "private_data filp = Some Ref_aesd_device" and "missing ans = 0"
    and "cs = slots (unat (out_offs (aesd_cb (aesd_device k)))) cmds"
    and "unat (write_cmd seek) < length cs"
    and "unat (write_cmd_offset seek) \<le> length (cs ! unat (write_cmd seek))"
  shows "aesd_ioctl k filp AESDCHAR_IOCSEEKTO seek ans =
    Inr (0, filp\<lparr>f_pos := of_nat (length (concat (take (unat (write_cmd seek)) cs)) +
      unat (write_cmd_offset seek))\<rparr>, k)"
  using aesd_ioctl_slots [OF assms(1-3)] assms(4-6) by (simp add: length_concat take_map)

text \<open>An instance: a ring that has wrapped once, with commands of two to eleven bytes.\<close>

definition wrapped_cmd :: "nat \<Rightarrow> byte list" where
  "wrapped_cmd n = replicate n (CHR ''x'') @ [NEWLINE]"

definition wrapped_kernel :: kernel where
  "wrapped_kernel = fresh_kernel\<lparr>
     aesd_device := (aesd_device fresh_kernel)\<lparr>
       aesd_cb := \<lparr>entry = map (\<lambda>n. \<lparr>buffptr = Ptr (100 + n), entry_size = of_nat (Suc n), entry_offset = 0\<rparr>)
           [10, 1, 2, 3, 4, 5, 6, 7, 8, 9],
         in_offs = 1, out_offs = 1, full = True, cb_size = 0\<rparr>\<rparr>,
     kheap := (\<lambda>a. if 100 < a \<and> a \<le> 110 then Some (map Some (wrapped_cmd (a - 100))) else None)\<rparr>"

definition wrapped_cmds :: "byte list list" where
  "wrapped_cmds = map wrapped_cmd [1, 2, 3, 4, 5, 6, 7, 8, 9, 10]"

lemma wrapped_dev_rel: "dev_rel wrapped_kernel (wrapped_cmds, [])"
  by (simp add: dev_rel_def dev_data_def wrapped_kernel_def wrapped_cmds_def wrapped_cmd_def cb_wf_def
      cb_list_def entry_holds_def holds_bytes_def cmd_ok_def ring_ptrs_def fresh_fields)

theorem ioctl_counts_slots_witness:
  "aesd_ioctl wrapped_kernel (opened_file 0) AESDCHAR_IOCSEEKTO \<lparr>write_cmd = 1, write_cmd_offset = 0\<rparr>
      (good_answers 100) = Inr (0, opened_file 11, wrapped_kernel) \<and>
   locate (map length wrapped_cmds) 11 \<noteq> Some (1, 0)"
proof -
  have out: "unat (out_offs (aesd_cb (aesd_device wrapped_kernel))) = 1"
    by (simp add: wrapped_kernel_def)
  have cs: "slots 1 wrapped_cmds = map wrapped_cmd [10, 1, 2, 3, 4, 5, 6, 7, 8, 9]"
    by (simp add: slots_def wrapped_cmds_def)
  show ?thesis
    using ioctl_counts_slots [OF wrapped_dev_rel opened_file_dev _ refl, of "good_answers 100"
        "\<lparr>write_cmd = 1, write_cmd_offset = 0\<rparr>" 0]
    unfolding out cs by (simp add: good_answers_def opened_file_def wrapped_cmd_def wrapped_cmds_def)
qed

section \<open>Failures and resources\<close>

text \<open>
  A failed allocation leaves the mutex locked. When the allocation of a write fails, the
  write returns \<^verbatim>\<open>-ENOMEM\<close> holding the device's mutex with the pending pointer lost, and from
  then on every write blocks until a signal interrupts it (\<^verbatim>\<open>main.c\<close> lines 99 and 112).
\<close>

theorem write_enomem_keeps_lock:
  assumes "dev_rel k st" and "private_data filp = Some Ref_aesd_device"
    and "alloc ans = None" and "0 < count" and "unat (tmp_size (aesd_device k)) + unat count < 2 ^ 59"
  shows "\<exists>k'. aesd_write k filp (Some ub) count ans = Inr (- ENOMEM, k') \<and>
    tmp_buf (aesd_device k') = NULL \<and> kheap k' = kheap k \<and>
    (\<forall>ub' count' ans'. aesd_write k' filp (Some ub') count' ans' =
       (if interrupted ans' then Inr (- ERESTARTSYS, k') else Inl Blocks))"
  using aesd_write_alloc_fails [OF assms, of ub] aesd_write_locked [OF _ assms(2)] by blast

theorem write_enomem_keeps_lock_witness:
  "\<exists>k'. aesd_write fresh_kernel (opened_file 0) (Some ''x'') 1 (good_answers 100\<lparr>alloc := None\<rparr>) =
      Inr (- ENOMEM, k') \<and>
    aesd_write k' (opened_file 0) (Some ''x'') 1 (good_answers 100) = Inl Blocks"
proof -
  obtain k' where "aesd_write fresh_kernel (opened_file 0) (Some ''x'') 1 (good_answers 100\<lparr>alloc := None\<rparr>) =
      Inr (- ENOMEM, k')"
    "\<forall>ub' count' ans'. aesd_write k' (opened_file 0) (Some ub') count' ans' =
       (if interrupted ans' then Inr (- ERESTARTSYS, k') else Inl Blocks)"
    using write_enomem_keeps_lock [OF fresh_dev_rel opened_file_dev, where ans = "good_answers 100\<lparr>alloc := None\<rparr>"
        and count = 1 and ub = "''x''" and pos1 = 0]
    by (auto simp: fresh_fields)
  then show ?thesis by (auto simp: good_answers_def)
qed

text \<open>
  C20: The memory of a module's lifetime. After initialisation on an empty heap and any
  sequence of complete writes, the clean-up of the module succeeds and frees every command
  of the ring; the heap is empty again exactly when no command was pending, since the
  pending buffer is never freed.
\<close>

theorem module_lifetime_memory:
  assumes "0 \<le> region" and "kheap k0 = Map.empty" and "aesd_init_module k0 region major 0 = (0, k)"
    and "pieces_ok driver_wr driver_wr_ok k ps"
  shows "\<exists>k1 k2. write_pieces driver_wr k ps = Inr k1 \<and> aesd_cleanup_module k1 = Inr k2 \<and>
    \<not> chrdev_region k2 \<and> (kheap k2 = Map.empty \<longleftrightarrow> snd (foldl device_write empty_device (map snd ps)) = [])"
proof -
  let ?st = "foldl device_write empty_device (map snd ps)"
  have k: "dev_rel k empty_device" "kheap k = Map.empty"
    using init_dev_rel [OF assms(1) _ assms(3)] assms(2) by auto
  then obtain k1 where k1: "write_pieces driver_wr k ps = Inr k1" "dev_rel k1 ?st"
    using drv.write_pieces_fold [OF _ assms(4)] by blast
  have leak: "no_leak k1"
    using driver_pieces_owned [OF k(1) _ assms(4) k1(1)] k(2) by (simp add: no_leak_def)
  obtain k2 where k2: "aesd_cleanup_module k1 = Inr k2" "\<not> chrdev_region k2"
    "kheap k2 = (\<lambda>a. if Ptr a \<in> set (ring_ptrs k1) then None else kheap k1 a)"
    using aesd_cleanup_frees [OF k1(2)] by blast
  have data: "dev_data k1 ?st" using k1(2) by (simp add: dev_rel_def)
  have "kheap k2 = Map.empty" if "snd ?st = []"
  proof -
    have "\<not> tmp_size (aesd_device k1) > 0"
      using data that by (auto simp: dev_data_def unat_eq_0)
    then show ?thesis
      using leak k2(3) by (auto simp: no_leak_def fun_eq_iff domIff)
  qed
  moreover have "kheap k2 \<noteq> Map.empty" if "snd ?st \<noteq> []"
  proof -
    obtain a rest where "tmp_buf (aesd_device k1) = Ptr a" "kheap k1 a = Some (map Some (snd ?st) @ rest)"
      using pending_block [OF data \<open>snd ?st \<noteq> []\<close>] by blast
    moreover from this have "Ptr a \<notin> set (ring_ptrs k1)"
      using data that by (auto simp: dev_data_def)
    ultimately have "kheap k2 a \<noteq> None" using k2(3) by simp
    then show ?thesis by auto
  qed
  ultimately show ?thesis using k1(1) k2(1,2) by blast
qed

theorem module_lifetime_memory_witness:
  "\<exists>k1 k2. write_pieces driver_wr fresh_kernel [(good_answers 100, ''hi'' @ [NEWLINE])] = Inr k1 \<and>
     aesd_cleanup_module k1 = Inr k2 \<and> kheap k2 = Map.empty"
proof -
  have init: "aesd_init_module boot_kernel 0 240 0 = (0, fresh_kernel)"
    by (simp add: fresh_kernel_def aesd_init_module_def aesd_setup_cdev_def Let_def)
  show ?thesis
    using module_lifetime_memory [OF _ _ init fresh_pieces_ok [of "''hi'' @ [NEWLINE]"]]
    by (auto simp: boot_kernel_def device_write_def empty_device_def simp del: write_pieces.simps)
qed

text \<open>
  A write whose user copy transfers nothing loses its buffer. With no command pending it
  returns 0 and leaves the block it allocated owned by nothing: neither the ring nor the
  pending command refers to it.
\<close>

theorem write_nothing_copied_leaks:
  assumes "dev_rel k (cmds, [])" and "private_data filp = Some Ref_aesd_device"
    and "answers_ok k ub count ans" and "0 < count" and "missing ans = count"
  shows "\<exists>k' a. aesd_write k filp (Some ub) count ans = Inr (0, k') \<and> alloc ans = Some a \<and>
    kheap k' a \<noteq> None \<and> Ptr a \<notin> set (ring_ptrs k') \<and> tmp_size (aesd_device k') = 0"
proof -
  let ?d = "aesd_device k"
  obtain a where a: "alloc ans = Some a" "a \<noteq> 16"
    using assms(3) by (auto simp: answers_ok_def split: option.splits)
  have n: "tmp_size ?d = 0" and data: "dev_data k (cmds, [])"
    using assms(1) by (auto simp: dev_rel_def dev_data_def unat_eq_0)
  then have free: "kheap k a = None"
    using assms(3) a by (simp add: answers_ok_def)
  then have "Ptr a \<notin> set (ring_ptrs k)"
    using data entries_hold_fresh [of "kheap k" "cb_list (aesd_cb ?d)" cmds a]
    by (auto simp: dev_data_def ring_ptrs_def)
  moreover have "unat count \<noteq> 0" using assms(4) by (simp add: unat_eq_0 word_gt_0)
  ultimately show ?thesis
    using assms a n by (auto simp: aesd_write_def mutex_lock_interruptible_def dev_rel_def write_fill_def
        kmalloc_def copy_from_user_def mem_write_def write_commit_def mem_chr_def set_lock_def ring_ptrs_def Let_def)
qed

theorem write_nothing_copied_leaks_witness:
  "\<exists>k'. aesd_write fresh_kernel (opened_file 0) (Some ''x'') 1 (good_answers 100\<lparr>missing := 1\<rparr>) = Inr (0, k') \<and>
     kheap k' 100 \<noteq> None"
proof -
  have "answers_ok fresh_kernel ''x'' 1 (good_answers 100\<lparr>missing := 1\<rparr>)"
    by (simp add: answers_ok_def good_answers_def fresh_fields)
  then show ?thesis
    using write_nothing_copied_leaks [of fresh_kernel "[]" "opened_file 0" "''x''" 1 "good_answers 100\<lparr>missing := 1\<rparr>"]
      fresh_dev_rel by (auto simp: empty_device_def good_answers_def)
qed

text \<open>The position a seek counts from.\<close>

definition llseek_base :: "kernel \<Rightarrow> struct_file \<Rightarrow> 32 word \<Rightarrow> int option" where
  "llseek_base k filp whence =
     (if whence = SEEK_SET then Some 0 else if whence = SEEK_CUR then Some (sint (f_pos filp))
      else if whence = SEEK_END then Some (sint (buffer_size (aesd_device k))) else None)"

text \<open>
  \<^verbatim>\<open>llseek\<close>, over the integers. As long as the target (the offset from the start, from
  the file's position or from the end) fits a signed 64-bit integer, a target that is not
  negative is returned and becomes the file's position, and a negative one is \<^verbatim>\<open>-EINVAL\<close> with
  the file as it was; so is any other request.
\<close>

theorem llseek_outcome:
  assumes "\<forall>base. llseek_base k filp whence = Some base \<longrightarrow> - (2 ^ 63) \<le> base + sint off \<and> base + sint off < 2 ^ 63"
  shows "case llseek_base k filp whence of
      None \<Rightarrow> aesd_llseek k filp off whence = (- EINVAL, filp)
    | Some base \<Rightarrow>
        (if base + sint off < 0 then aesd_llseek k filp off whence = (- EINVAL, filp)
         else \<exists>np. sint np = base + sint off \<and> aesd_llseek k filp off whence = (np, filp\<lparr>f_pos := np\<rparr>))"
  using assms sint_add_exact [of "f_pos filp" off] sint_add_exact [of "buffer_size (aesd_device k)" off]
  by (auto simp: aesd_llseek_def llseek_base_def Let_def)

theorem llseek_outcome_witness:
  "aesd_llseek fresh_kernel (opened_file 7) (- 8) SEEK_CUR = (- EINVAL, opened_file 7)"
  using llseek_outcome [of fresh_kernel "opened_file 7" SEEK_CUR "- 8"]
  by (simp add: llseek_base_def opened_file_def)

text \<open>
  C21: The end of the device. After writing on a fresh device, \<^verbatim>\<open>SEEK_END\<close> with offset 0 goes to
  the number of all bytes ever written, pending and evicted ones included, so it is the end
  of the readable bytes exactly when nothing is pending and nothing was evicted.
\<close>

theorem seek_end_counts_all_bytes:
  assumes "0 \<le> region" and "kheap k0 16 = None" and "aesd_init_module k0 region major 0 = (0, k)"
    and "pieces_ok driver_wr driver_wr_ok k ps" and "length (concat (map snd ps)) < 2 ^ 63"
  shows "\<exists>k'. write_pieces driver_wr k ps = Inr k' \<and>
    dev_rel k' (foldl device_write empty_device (map snd ps)) \<and>
    aesd_llseek k' filp 0 SEEK_END =
      (of_nat (length (concat (map snd ps))), filp\<lparr>f_pos := of_nat (length (concat (map snd ps)))\<rparr>)"
proof -
  have k: "dev_rel k empty_device" "buffer_size (aesd_device k) = 0"
    using init_dev_rel [OF assms(1-3)] by auto
  then obtain k' where k': "write_pieces driver_wr k ps = Inr k'"
    "dev_rel k' (foldl device_write empty_device (map snd ps))"
    using drv.write_pieces_fold [OF _ assms(4)] by blast
  moreover have "buffer_size (aesd_device k') = of_nat (length (concat (map snd ps)))"
    using driver_pieces_size [OF k(1) assms(4) k'(1)] k(2) by simp
  moreover have "0 \<le> sint (of_nat (length (concat (map snd ps))) :: loff_t)"
    using assms(5) by (simp add: sint_nonneg_iff unat_of_nat_64)
  ultimately show ?thesis by (auto simp: aesd_llseek_def Let_def)
qed

theorem seek_end_counts_all_bytes_witness:
  "\<exists>k'. write_pieces driver_wr fresh_kernel [(good_answers 100, ''hi'')] = Inr k' \<and>
     device_bytes (device_write empty_device ''hi'') = [] \<and>
     aesd_llseek k' (opened_file 0) 0 SEEK_END = (2, opened_file 2)"
proof -
  have init: "aesd_init_module boot_kernel 0 240 0 = (0, fresh_kernel)"
    by (simp add: fresh_kernel_def aesd_init_module_def aesd_setup_cdev_def Let_def)
  have "device_bytes (device_write empty_device ''hi'') = []"
    by (simp add: device_bytes_def device_write_def empty_device_def)
  then show ?thesis
    using seek_end_counts_all_bytes [OF _ _ init fresh_pieces_ok [of "''hi''"], of "opened_file 0"]
    by (auto simp: boot_kernel_def opened_file_def simp del: write_pieces.simps)
qed

text \<open>
  Module initialisation. It returns 0 exactly when both the region and the device could
  be registered; then the region is held, the device is live with the driver's operations
  and represents the empty device. On any failure no region stays held and no device is live.
\<close>

theorem init_module_outcome:
  assumes "\<not> chrdev_region k0" and "\<not> cdev_live (cdev (aesd_device k0))" and "kheap k0 16 = None"
    and "region \<le> 0" and "aesd_init_module k0 region major added = (r, k)"
  shows "(r = 0 \<longleftrightarrow> region = 0 \<and> added = 0) \<and>
    (r = 0 \<longrightarrow> dev_rel k empty_device \<and> chrdev_region k \<and> cdev_live (cdev (aesd_device k)) \<and>
       cdev_ops (cdev (aesd_device k)) = Ref_aesd_fops \<and> aesd_major k = major) \<and>
    (r \<noteq> 0 \<longrightarrow> r = (if region < 0 then region else added) \<and> \<not> chrdev_region k \<and>
       \<not> cdev_live (cdev (aesd_device k))) \<and> kheap k = kheap k0"
  using assms
  by (auto simp: aesd_init_module_def aesd_setup_cdev_def zero_dev_def Let_def dev_rel_def dev_data_def
      ring_ptrs_def empty_device_def cb_wf_init cb_list_init split: if_splits)

theorem init_module_outcome_witness:
  "\<exists>k. aesd_init_module boot_kernel 0 240 (-12) = (-12, k) \<and> \<not> chrdev_region k"
  using init_module_outcome [of boot_kernel 0 240 "-12" "fst (aesd_init_module boot_kernel 0 240 (-12))"
      "snd (aesd_init_module boot_kernel 0 240 (-12))"]
  by (auto simp: boot_kernel_def aesd_init_module_def aesd_setup_cdev_def Let_def)

end
