(* ===== verification/Driver_Types.thy ===== *)
theory Driver_Types
  imports Driver_Properties
begin

text \<open>
  The type of the ring under every answer of the kernel. The refinement of the driver assumes
  a kernel that grants allocations at free addresses; here nothing is assumed of it. Whatever a
  call meets (a failed allocation, a partial user copy, an interrupted wait, a heap in any state),
  if it returns, the ring still has its ten slots, offsets inside them and blank slots
  exactly where nothing was stored, and the search of such a ring ends inside it.
\<close>

section \<open>The search ends\<close>

lemma find_entry_loop_ends:
  assumes "length (entry b) = 10" and "c < 10" and "0 < n" and "n \<le> 10" and "(c + n) mod 10 = unat (in_offs b)"
  shows "\<exists>r. find_entry_loop b p t (of_nat c) = Some (Inr r) \<and> (\<forall>i off. r = Some (i, off) \<longrightarrow> i < 10)"
  using assms(2-)
proof (induction n arbitrary: c t)
  case (Suc m)
  let ?c' = "Suc c mod 10"
  have step: "(of_nat c + 1 :: size_t) mod 10 = of_nat ?c'"
    using Suc.prems(1) by (rule size_t_of_nat_step)
  have last: "of_nat ?c' = (ucast (in_offs b) :: size_t) \<longleftrightarrow> m = 0"
    using Suc.prems(1,3,4) ring_distance [of m "Suc c"] by (auto simp: size_t_of_nat_eq_ucast)
  have next_c: "m \<noteq> 0 \<Longrightarrow> \<exists>r. find_entry_loop b p (t + entry_size (entry b ! c)) (of_nat ?c') = Some (Inr r) \<and>
      (\<forall>i off. r = Some (i, off) \<longrightarrow> i < 10)"
    using Suc.prems by (intro Suc.IH) (auto simp: mod_simps)
  show ?case
    using next_c last Suc.prems(1) assms(1)
    by (cases "m = 0") (auto simp: find_entry_loop.simps [of b p t "of_nat c"] step Let_def)
qed simp

lemma find_entry_ends:
  assumes "cb_wf b"
  shows "\<exists>r. aesd_circular_buffer_find_entry_offset_for_fpos b p = Some (Inr r) \<and> (\<forall>i off. r = Some (i, off) \<longrightarrow> i < 10)"
proof -
  let ?c = "unat (out_offs b)"
  obtain n where "0 < n" "n \<le> 10" "(?c + n) mod 10 = unat (in_offs b)"
    using find_entry_scan [OF assms] by blast
  then show ?thesis
    using find_entry_loop_ends [of b ?c n p 0] assms
    by (simp add: cb_wf_def aesd_circular_buffer_find_entry_offset_for_fpos_def)
qed

section \<open>The handlers\<close>

text \<open>Entries that differ at most in a size set to zero.\<close>

definition size_cleared :: "aesd_buffer_entry \<Rightarrow> aesd_buffer_entry \<Rightarrow> bool" where
  "size_cleared e e' \<longleftrightarrow> e' = e \<or> e' = e\<lparr>entry_size := 0\<rparr>"

lemma cb_wf_cleared:
  assumes "cb_wf b" and "list_all2 size_cleared (entry b) es"
  shows "cb_wf (b\<lparr>entry := es\<rparr>)"
proof -
  have len: "length es = length (entry b)" using assms(2) by (simp add: list_all2_lengthD)
  have "blank_entry (es ! i)" if "i < length es" "blank_entry (entry b ! i)" for i
    using list_all2_nthD2 [OF assms(2) that(1)] that(2) by (auto simp: size_cleared_def blank_entry_def)
  then have "list_all blank_entry (drop n (entry b)) \<Longrightarrow> list_all blank_entry (drop n es)" for n
    using len by (auto simp: list_all_length)
  then show ?thesis using assms(1) len by (auto simp: cb_wf_def)
qed

lemma write_evict_wf:
  assumes "cb_wf cb" and "write_evict h cb = Inr (h', cb')"
  shows "cb_wf cb'"
proof -
  have "list_all2 size_cleared (entry cb) ((entry cb)[i := (entry cb ! i)\<lparr>entry_size := 0\<rparr>])" for i
    by (simp add: list_all2_conv_all_nth size_cleared_def) (metis nth_list_update_eq nth_list_update_neq)
  then show ?thesis
    using assms cb_wf_cleared [OF assms(1)]
    by (auto simp: write_evict_def rbind_eq_Inr_iff array_get_def array_set_def split: if_splits)
qed

lemma write_fill_ring: "write_fill k ub count ans = Inr (r, k') \<Longrightarrow> aesd_cb (aesd_device k') = aesd_cb (aesd_device k)"
  by (auto simp: write_fill_def Let_def rbind_eq_Inr_iff split: if_splits prod.splits)

lemma add_entry_wf: "cb_wf b \<Longrightarrow> aesd_circular_buffer_add_entry b e = Inr (v, b') \<Longrightarrow> cb_wf b'"
  using add_entry_fifo [of b e] by auto

lemma write_commit_wf:
  assumes "cb_wf (aesd_cb (aesd_device k))" and "write_commit k ans = Inr k'"
  shows "cb_wf (aesd_cb (aesd_device k'))"
proof -
  let ?d = "aesd_device k"
  have "k' = k \<or> (\<exists>h cb v. write_evict (kheap k) (aesd_cb ?d) = Inr (h, cb) \<and>
      aesd_circular_buffer_add_entry cb \<lparr>buffptr = tmp_buf ?d, entry_size = tmp_size ?d, entry_offset = stack_junk ans\<rparr> =
        Inr (v, aesd_cb (aesd_device k')))"
    using assms(2) by (auto simp: write_commit_def Let_def rbind_eq_Inr_iff split: if_splits)
  then show ?thesis using assms(1) write_evict_wf [OF assms(1)] add_entry_wf by blast
qed

lemma aesd_write_wf:
  assumes "cb_wf (aesd_cb (aesd_device k))" and "aesd_write k filp buf count ans = Inr (r, k')"
  shows "cb_wf (aesd_cb (aesd_device k'))"
proof -
  have "k' = k \<or> (\<exists>ub l res k1. write_fill (set_lock l k) ub count ans = Inr (res, k1) \<and>
      (k' = k1 \<or> (\<exists>k2. write_commit k1 ans = Inr k2 \<and> aesd_cb (aesd_device k') = aesd_cb (aesd_device k2))))"
    using assms(2)
    by (auto simp: aesd_write_def Let_def rbind_eq_Inr_iff set_lock_def split: option.splits if_splits) blast+
  then consider "k' = k"
    | ub l res where "write_fill (set_lock l k) ub count ans = Inr (res, k')"
    | ub l res k1 k2 where "write_fill (set_lock l k) ub count ans = Inr (res, k1)" "write_commit k1 ans = Inr k2"
        "aesd_cb (aesd_device k') = aesd_cb (aesd_device k2)"
    by blast
  then show ?thesis
  proof cases
    case 1
    then show ?thesis using assms(1) by simp
  next
    case 2
    then show ?thesis using assms(1) write_fill_ring by (fastforce simp: set_lock_def)
  next
    case 3
    have "cb_wf (aesd_cb (aesd_device k1))"
      using assms(1) write_fill_ring [OF 3(1)] by (simp add: set_lock_def)
    then show ?thesis using write_commit_wf [OF _ 3(2)] 3(3) by simp
  qed
qed

lemma cleanup_body_cleared: "cleanup_body e h = Inr (e', h') \<Longrightarrow> size_cleared e e'"
  by (auto simp: cleanup_body_def size_cleared_def rbind_eq_Inr_iff split: if_splits)

lemma foreach_cleared:
  "AESD_CIRCULAR_BUFFER_FOREACH cleanup_body i es h = Inr (es', h') \<Longrightarrow> list_all2 size_cleared es es'"
proof (induction "10 - i" arbitrary: i es h)
  case 0
  then show ?case by (subst (asm) AESD_CIRCULAR_BUFFER_FOREACH.simps) (simp add: list_all2_refl size_cleared_def)
next
  case (Suc n)
  then obtain e h1 where e: "i < length es" "size_cleared (es ! i) e"
    "AESD_CIRCULAR_BUFFER_FOREACH cleanup_body (Suc i) (es[i := e]) h1 = Inr (es', h')"
    using AESD_CIRCULAR_BUFFER_FOREACH.simps [of cleanup_body i es h]
    by (auto simp: rbind_eq_Inr_iff array_get_def array_set_def dest: cleanup_body_cleared split: if_splits)
  have "list_all2 size_cleared (es[i := e]) es'" using Suc.hyps(1) [OF _ e(3)] Suc.hyps(2) by simp
  moreover have "list_all2 size_cleared es (es[i := e])"
    using e(1,2) by (simp add: list_all2_conv_all_nth nth_list_update size_cleared_def)
  moreover have "size_cleared a c" if "size_cleared a b" "size_cleared b c" for a b c
    using that by (auto simp: size_cleared_def)
  ultimately show ?case by (blast intro: list_all2_trans)
qed

lemma aesd_cleanup_wf:
  assumes "cb_wf (aesd_cb (aesd_device k))" and "aesd_cleanup_module k = Inr k'"
  shows "cb_wf (aesd_cb (aesd_device k'))"
proof -
  obtain es h where "AESD_CIRCULAR_BUFFER_FOREACH cleanup_body 0 (entry (aesd_cb (aesd_device k))) (kheap k) = Inr (es, h)"
    "aesd_cb (aesd_device k') = (aesd_cb (aesd_device k))\<lparr>entry := es\<rparr>"
    using assms(2) by (auto simp: aesd_cleanup_module_def Let_def rbind_eq_Inr_iff)
  then show ?thesis using cb_wf_cleared [OF assms(1)] foreach_cleared by simp
qed

lemma aesd_ioctl_ring:
  "aesd_ioctl k filp cmd seek ans = Inr (r, f, k') \<Longrightarrow> aesd_cb (aesd_device k') = aesd_cb (aesd_device k)"
  by (auto simp: aesd_ioctl_def Let_def rbind_eq_Inr_iff set_lock_def split: if_splits)

section \<open>Every call keeps the type\<close>

text \<open>
  C8: The type of the ring. Whatever the kernel answers and whatever the heap holds: a handler, the
  module's initialisation or its clean-up that returns leaves a ring of ten slots with both offsets
  inside them, equal when the ring is full, and blank slots from \<^verbatim>\<open>in_offs\<close> on when it is not; and
  the search of such a ring, for any position, ends without a fault at one of its slots or at none.
\<close>

theorem ring_type_kept:
  assumes "cb_wf (aesd_cb (aesd_device k))"
  shows "(\<forall>filp buf count ans r k'. aesd_write k filp buf count ans = Inr (r, k') \<longrightarrow> cb_wf (aesd_cb (aesd_device k'))) \<and>
    (\<forall>filp cmd seek ans r f k'. aesd_ioctl k filp cmd seek ans = Inr (r, f, k') \<longrightarrow> cb_wf (aesd_cb (aesd_device k'))) \<and>
    (\<forall>k'. aesd_cleanup_module k = Inr k' \<longrightarrow> cb_wf (aesd_cb (aesd_device k'))) \<and>
    (\<forall>region major result. cb_wf (aesd_cb (aesd_device (snd (aesd_init_module k region major result))))) \<and>
    (\<forall>pos. \<exists>r. aesd_circular_buffer_find_entry_offset_for_fpos (aesd_cb (aesd_device k)) pos = Some (Inr r) \<and>
      (\<forall>i off. r = Some (i, off) \<longrightarrow> i < 10))"
proof -
  have "cb_wf (aesd_cb (aesd_device (snd (aesd_init_module k region major result))))" for region major result
    using assms cb_wf_init by (simp add: aesd_init_module_def aesd_setup_cdev_def Let_def)
  then show ?thesis
    using aesd_write_wf [OF assms] aesd_ioctl_ring aesd_cleanup_wf [OF assms] find_entry_ends [OF assms] assms
    by metis
qed

theorem ring_type_kept_witness:
  "\<exists>k'. aesd_write fresh_kernel (opened_file 0) (Some ''hi'') 2 \<lparr>interrupted = False, alloc = None, missing = 0, stack_junk = 0\<rparr> =
      Inr (- ENOMEM, k') \<and> cb_wf (aesd_cb (aesd_device k'))"
proof -
  let ?ans = "\<lparr>interrupted = False, alloc = None, missing = 0, stack_junk = 0\<rparr>"
  have wf: "cb_wf (aesd_cb (aesd_device fresh_kernel))"
    using cb_wf_init [of zero_cb] by (simp add: fresh_kernel_def boot_kernel_def aesd_init_module_def aesd_setup_cdev_def
        zero_dev_def aesd_circular_buffer_init_def Let_def)
  obtain k' where "aesd_write fresh_kernel (opened_file 0) (Some ''hi'') 2 ?ans = Inr (- ENOMEM, k')"
    by (auto simp: aesd_write_def file_dev_def opened_file_def mutex_lock_interruptible_def fresh_fields write_fill_def
        kmalloc_def Let_def set_lock_def)
  moreover from this have "cb_wf (aesd_cb (aesd_device k'))"
    using conjunct1 [OF ring_type_kept [OF wf]] by simp
  ultimately show ?thesis by blast
qed

end
