(* ===== verification/Driver_Tasks.thy ===== *)
theory Driver_Tasks
  imports Driver_Properties
begin

text \<open>
  The read, write, llseek and ioctl handlers of \<^verbatim>\<open>aesd-char-driver/main.c\<close> as tasks that run at the same time.
  \<^verbatim>\<open>aesd_write\<close> holds \<^verbatim>\<open>mx_lock\<close> from the fill to the commit and \<^verbatim>\<open>aesd_ioctl\<close> during its search,
  \<^verbatim>\<open>aesd_read\<close> and \<^verbatim>\<open>aesd_llseek\<close> take no lock, and the byte count is updated after the mutex is released. Each handler is cut into steps at its
  accesses to what the tasks share (the ring, the heap, the mutex, the count); a schedule
  interleaves the steps of any number of tasks. The search of the ring, the fill, the release
  of the evicted command, the commit and the search of a seek are one step each.
\<close>

section \<open>The handlers in steps\<close>

subsection \<open>Reading\<close>

text \<open>
  Where a read is: before the search; with the entry and the offset found; with the length
  computed from the entry's size; returned.
\<close>

datatype rd_pc =
    Rd_Call
  | Rd_Entry nat size_t
  | Rd_Copy nat size_t size_t
  | Rd_Return "(ssize_t \<times> loff_t \<times> byte list) res"

record reader =
  rd_filp :: struct_file
  rd_buf :: ptr
  rd_count :: size_t
  rd_pos :: loff_t
  rd_at :: rd_pc

definition read_search :: "kernel \<Rightarrow> reader \<Rightarrow> rd_pc" where
  "read_search k r =
     (if rd_buf r = NULL then Rd_Return (Inr (- EFAULT, rd_pos r, []))
      else case file_dev k (rd_filp r) of
        Inl e \<Rightarrow> Rd_Return (Inl e)
      | Inr dev \<Rightarrow>
          (case aesd_circular_buffer_find_entry_offset_for_fpos (aesd_cb dev) (rd_pos r) of
             None \<Rightarrow> Rd_Return (Inl Diverges)
           | Some (Inl e) \<Rightarrow> Rd_Return (Inl e)
           | Some (Inr None) \<Rightarrow> Rd_Return (Inr (0, rd_pos r, []))
           | Some (Inr (Some (i, off))) \<Rightarrow> Rd_Entry i off))"

definition read_size :: "kernel \<Rightarrow> reader \<Rightarrow> nat \<Rightarrow> size_t \<Rightarrow> rd_pc" where
  "read_size k r i off =
     (case array_get (entry (aesd_cb (aesd_device k))) i of
        Inl e \<Rightarrow> Rd_Return (Inl e)
      | Inr start_entry \<Rightarrow>
          let avail = entry_size start_entry - off
          in Rd_Copy i off (if avail > rd_count r then rd_count r else avail))"

definition read_copy :: "kernel \<Rightarrow> reader \<Rightarrow> nat \<Rightarrow> size_t \<Rightarrow> size_t \<Rightarrow> size_t \<Rightarrow> rd_pc" where
  "read_copy k r i off read_length miss =
     Rd_Return (rbind (array_get (entry (aesd_cb (aesd_device k))) i) (\<lambda>start_entry.
       rbind (mem_read (kheap k) (buffptr start_entry) (unat off) (unat read_length)) (\<lambda>bytes.
         if miss \<noteq> 0 then Inr (- EFAULT, rd_pos r, take (unat read_length - unat miss) bytes)
         else Inr (read_length, rd_pos r + read_length, bytes))))"

text \<open>One step of a read, \<^term>\<open>None\<close> once it has returned.\<close>

definition read_step :: "size_t \<Rightarrow> kernel \<Rightarrow> reader \<Rightarrow> reader option" where
  "read_step miss k r =
     (case rd_at r of
        Rd_Call \<Rightarrow> Some (r\<lparr>rd_at := read_search k r\<rparr>)
      | Rd_Entry i off \<Rightarrow> Some (r\<lparr>rd_at := read_size k r i off\<rparr>)
      | Rd_Copy i off n \<Rightarrow> Some (r\<lparr>rd_at := read_copy k r i off n miss\<rparr>)
      | Rd_Return v \<Rightarrow> None)"

subsection \<open>Writing\<close>

text \<open>
  Where a write is: before the mutex; holding it; with the pending buffer filled; with the
  slot of the oldest command released; with the command stored (or nothing to store), still
  holding the mutex; after the release of the mutex; with the old byte count loaded; returned.
\<close>

datatype wr_pc =
    Wr_Call
  | Wr_Locked
  | Wr_Filled ssize_t
  | Wr_Evicted ssize_t
  | Wr_Stored ssize_t
  | Wr_Unlocked ssize_t
  | Wr_Counting ssize_t "64 word"
  | Wr_Return "ssize_t res"

record writer =
  wr_filp :: struct_file
  wr_buf :: "byte list option"
  wr_count :: size_t
  wr_at :: wr_pc

definition set_dev :: "(aesd_dev \<Rightarrow> aesd_dev) \<Rightarrow> kernel \<Rightarrow> kernel" where
  "set_dev f k = k\<lparr>aesd_device := f (aesd_device k)\<rparr>"

text \<open>Taking the mutex; \<^term>\<open>None\<close> waits.\<close>

definition write_lock :: "answers \<Rightarrow> kernel \<Rightarrow> writer \<Rightarrow> (kernel \<times> wr_pc) option" where
  "write_lock ans k w =
     (case wr_buf w of
        None \<Rightarrow> Some (k, Wr_Return (Inr (- EFAULT)))
      | Some ub \<Rightarrow>
          (case file_dev k (wr_filp w) of
             Inl e \<Rightarrow> Some (k, Wr_Return (Inl e))
           | Inr dev \<Rightarrow>
               (case mutex_lock_interruptible (interrupted ans) (mx_lock dev) of
                  Inl e \<Rightarrow> None
                | Inr (r, locked) \<Rightarrow>
                    if r \<noteq> 0 then Some (k, Wr_Return (Inr (- ERESTARTSYS)))
                    else Some (set_lock locked k, Wr_Locked))))"

definition write_fill_step :: "answers \<Rightarrow> kernel \<Rightarrow> writer \<Rightarrow> kernel \<times> wr_pc" where
  "write_fill_step ans k w =
     (case wr_buf w of
        None \<Rightarrow> (k, Wr_Return (Inl Null_Deref))
      | Some ub \<Rightarrow>
          (case write_fill k ub (wr_count w) ans of
             Inl e \<Rightarrow> (k, Wr_Return (Inl e))
           | Inr (None, k1) \<Rightarrow> (k1, Wr_Return (Inr (- ENOMEM)))
           | Inr (Some retval, k1) \<Rightarrow> (k1, Wr_Filled retval)))"

text \<open>The search for a newline and, when the ring is full, the release of the slot to be reused.\<close>

definition write_evict_step :: "kernel \<Rightarrow> ssize_t \<Rightarrow> kernel \<times> wr_pc" where
  "write_evict_step k retval =
     (let dev = aesd_device k in
      case mem_chr (kheap k) (tmp_buf dev) NEWLINE (unat (tmp_size dev)) of
        Inl e \<Rightarrow> (k, Wr_Return (Inl e))
      | Inr None \<Rightarrow> (k, Wr_Stored retval)
      | Inr (Some _) \<Rightarrow>
          (case write_evict (kheap k) (aesd_cb dev) of
             Inl e \<Rightarrow> (k, Wr_Return (Inl e))
           | Inr (h, cb) \<Rightarrow> (k\<lparr>aesd_device := dev\<lparr>aesd_cb := cb\<rparr>, kheap := h\<rparr>, Wr_Evicted retval)))"

definition write_store_step :: "answers \<Rightarrow> kernel \<Rightarrow> ssize_t \<Rightarrow> kernel \<times> wr_pc" where
  "write_store_step ans k retval =
     (let dev = aesd_device k;
          new_entry = \<lparr>buffptr = tmp_buf dev, entry_size = tmp_size dev, entry_offset = stack_junk ans\<rparr>
      in case aesd_circular_buffer_add_entry (aesd_cb dev) new_entry of
           Inl e \<Rightarrow> (k, Wr_Return (Inl e))
         | Inr (_, cb) \<Rightarrow>
             (k\<lparr>aesd_device := dev\<lparr>aesd_cb := cb, tmp_buf := NULL, tmp_size := 0\<rparr>\<rparr>, Wr_Stored retval))"

text \<open>One step of a write, \<^term>\<open>None\<close> when it waits for the mutex or has returned.\<close>

definition write_step :: "answers \<Rightarrow> kernel \<Rightarrow> writer \<Rightarrow> (kernel \<times> wr_pc) option" where
  "write_step ans k w =
     (case wr_at w of
        Wr_Call \<Rightarrow> write_lock ans k w
      | Wr_Locked \<Rightarrow> Some (write_fill_step ans k w)
      | Wr_Filled retval \<Rightarrow> Some (write_evict_step k retval)
      | Wr_Evicted retval \<Rightarrow> Some (write_store_step ans k retval)
      | Wr_Stored retval \<Rightarrow> Some (set_lock False k, Wr_Unlocked retval)
      | Wr_Unlocked retval \<Rightarrow> Some (k, Wr_Counting retval (buffer_size (aesd_device k)))
      | Wr_Counting retval old \<Rightarrow>
          Some (set_dev (\<lambda>d. d\<lparr>buffer_size := old + retval\<rparr>) k, Wr_Return (Inr retval))
      | Wr_Return v \<Rightarrow> None)"

subsection \<open>Seeking\<close>

text \<open>
  Where an ioctl is: before the mutex; holding it; with the command found or rejected, still
  holding the mutex; returned, with the result and the file.
\<close>

datatype sk_pc =
    Sk_Call
  | Sk_Locked
  | Sk_Found "64 word" struct_file
  | Sk_Return "(64 word \<times> struct_file) res"

record seeker =
  sk_filp :: struct_file
  sk_cmd :: "32 word"
  sk_arg :: aesd_seekto
  sk_at :: sk_pc

text \<open>The copy of the argument, its test and taking the mutex; \<^term>\<open>None\<close> waits.\<close>

definition seek_lock :: "answers \<Rightarrow> kernel \<Rightarrow> seeker \<Rightarrow> (kernel \<times> sk_pc) option" where
  "seek_lock ans k s =
     (if sk_cmd s \<noteq> AESDCHAR_IOCSEEKTO \<or> missing ans \<noteq> 0 \<or>
         unat (write_cmd (sk_arg s)) > AESDCHAR_MAX_WRITE_OPERATIONS_SUPPORTED
      then Some (k, Sk_Return (Inr (- EINVAL, sk_filp s)))
      else case file_dev k (sk_filp s) of
        Inl e \<Rightarrow> Some (k, Sk_Return (Inl e))
      | Inr dev \<Rightarrow>
          (case mutex_lock_interruptible (interrupted ans) (mx_lock dev) of
             Inl e \<Rightarrow> None
           | Inr (r, locked) \<Rightarrow>
               if r \<noteq> 0 then Some (k, Sk_Return (Inr (- ERESTARTSYS, sk_filp s)))
               else Some (set_lock locked k, Sk_Locked)))"

definition seek_search :: "kernel \<Rightarrow> seeker \<Rightarrow> sk_pc" where
  "seek_search k s =
     (case seek_entry (entry (aesd_cb (aesd_device k))) (sk_arg s) (sk_filp s) of
        Inl e \<Rightarrow> Sk_Return (Inl e)
      | Inr (retval, filp) \<Rightarrow> Sk_Found retval filp)"

definition seek_step :: "answers \<Rightarrow> kernel \<Rightarrow> seeker \<Rightarrow> (kernel \<times> sk_pc) option" where
  "seek_step ans k s =
     (case sk_at s of
        Sk_Call \<Rightarrow> seek_lock ans k s
      | Sk_Locked \<Rightarrow> Some (k, seek_search k s)
      | Sk_Found retval filp \<Rightarrow> Some (set_lock False k, Sk_Return (Inr (retval, filp)))
      | Sk_Return v \<Rightarrow> None)"

text \<open>
  \<^verbatim>\<open>aesd_llseek\<close> looks at one shared word, the byte count, and that for \<^verbatim>\<open>SEEK_END\<close> only: it is one
  step, before or after which it may find any other task.
\<close>

datatype ls_pc = Ls_Call | Ls_Return "loff_t \<times> struct_file"

record lseeker =
  ls_filp :: struct_file
  ls_off :: loff_t
  ls_whence :: "32 word"
  ls_at :: ls_pc

definition lseek_step :: "kernel \<Rightarrow> lseeker \<Rightarrow> lseeker option" where
  "lseek_step k l =
     (case ls_at l of
        Ls_Call \<Rightarrow> Some (l\<lparr>ls_at := Ls_Return (aesd_llseek k (ls_filp l) (ls_off l) (ls_whence l))\<rparr>)
      | Ls_Return v \<Rightarrow> None)"

subsection \<open>A task by itself\<close>

fun read_alone :: "nat \<Rightarrow> size_t \<Rightarrow> kernel \<Rightarrow> reader \<Rightarrow> reader" where
  "read_alone 0 miss k r = r"
| "read_alone (Suc n) miss k r = (case read_step miss k r of None \<Rightarrow> r | Some r' \<Rightarrow> read_alone n miss k r')"

fun write_alone :: "nat \<Rightarrow> answers \<Rightarrow> kernel \<Rightarrow> writer \<Rightarrow> kernel \<times> writer" where
  "write_alone 0 ans k w = (k, w)"
| "write_alone (Suc n) ans k w =
     (case write_step ans k w of None \<Rightarrow> (k, w) | Some (k', pc) \<Rightarrow> write_alone n ans k' (w\<lparr>wr_at := pc\<rparr>))"

fun seek_alone :: "nat \<Rightarrow> answers \<Rightarrow> kernel \<Rightarrow> seeker \<Rightarrow> kernel \<times> seeker" where
  "seek_alone 0 ans k s = (k, s)"
| "seek_alone (Suc n) ans k s =
     (case seek_step ans k s of None \<Rightarrow> (k, s) | Some (k', pc) \<Rightarrow> seek_alone n ans k' (s\<lparr>sk_at := pc\<rparr>))"

definition reader_call :: "struct_file \<Rightarrow> ptr \<Rightarrow> size_t \<Rightarrow> loff_t \<Rightarrow> reader" where
  "reader_call filp buf count pos =
     \<lparr>rd_filp = filp, rd_buf = buf, rd_count = count, rd_pos = pos, rd_at = Rd_Call\<rparr>"

definition writer_call :: "struct_file \<Rightarrow> byte list option \<Rightarrow> size_t \<Rightarrow> writer" where
  "writer_call filp buf count = \<lparr>wr_filp = filp, wr_buf = buf, wr_count = count, wr_at = Wr_Call\<rparr>"

definition seeker_call :: "struct_file \<Rightarrow> 32 word \<Rightarrow> aesd_seekto \<Rightarrow> seeker" where
  "seeker_call filp cmd arg = \<lparr>sk_filp = filp, sk_cmd = cmd, sk_arg = arg, sk_at = Sk_Call\<rparr>"

definition lseeker_call :: "struct_file \<Rightarrow> loff_t \<Rightarrow> 32 word \<Rightarrow> lseeker" where
  "lseeker_call filp off whence = \<lparr>ls_filp = filp, ls_off = off, ls_whence = whence, ls_at = Ls_Call\<rparr>"

lemma lseek_alone_aesd_llseek:
  "map_option ls_at (lseek_step k (lseeker_call filp off whence)) = Some (Ls_Return (aesd_llseek k filp off whence))"
  by (simp add: lseek_step_def lseeker_call_def)

lemma lseek_step_call:
  "lseek_step k l = Some l' \<longleftrightarrow> ls_at l = Ls_Call \<and>
     l' = l\<lparr>ls_at := Ls_Return (aesd_llseek k (ls_filp l) (ls_off l) (ls_whence l))\<rparr>"
  by (auto simp: lseek_step_def split: ls_pc.splits)

lemma seek_alone_aesd_ioctl:
  "case aesd_ioctl k filp cmd seek ans of
     Inl e \<Rightarrow> (case seek_alone 3 ans k (seeker_call filp cmd seek) of (k', s) \<Rightarrow>
       sk_at s = Sk_Return (Inl e) \<or> e = Blocks \<and> k' = k \<and> sk_at s = Sk_Call)
   | Inr (r, filp', k') \<Rightarrow>
       \<exists>s. seek_alone 3 ans k (seeker_call filp cmd seek) = (k', s) \<and> sk_at s = Sk_Return (Inr (r, filp'))"
proof -
  have "file_dev k filp = Inr d \<Longrightarrow> d = aesd_device k" for d
    by (auto simp: file_dev_def split: option.splits aesd_dev_ref.splits)
  then show ?thesis
    by (auto simp: numeral_3_eq_3 seeker_call_def seek_step_def seek_lock_def seek_search_def aesd_ioctl_def
        mutex_lock_interruptible_def rbind_def set_lock_def split: sum.splits option.splits)
qed

lemma read_alone_aesd_read:
  "rd_at (read_alone 3 miss k (reader_call filp buf count pos)) =
     Rd_Return (aesd_read k filp buf count pos miss)"
proof (cases "buf = NULL")
  case True
  then show ?thesis
    by (simp add: numeral_3_eq_3 reader_call_def read_step_def read_search_def aesd_read_def)
next
  case False
  note steps = numeral_3_eq_3 reader_call_def read_step_def read_search_def read_size_def aesd_read_def
  show ?thesis
  proof (cases "file_dev k filp")
    case (Inl e)
    then show ?thesis using False by (simp add: steps)
  next
    case (Inr d)
    then have d: "file_dev k filp = Inr (aesd_device k)"
      by (auto simp: file_dev_def split: option.splits aesd_dev_ref.splits)
    consider "aesd_circular_buffer_find_entry_offset_for_fpos (aesd_cb (aesd_device k)) pos = None"
      | e where "aesd_circular_buffer_find_entry_offset_for_fpos (aesd_cb (aesd_device k)) pos = Some (Inl e)"
      | "aesd_circular_buffer_find_entry_offset_for_fpos (aesd_cb (aesd_device k)) pos = Some (Inr None)"
      | i off where "aesd_circular_buffer_find_entry_offset_for_fpos (aesd_cb (aesd_device k)) pos = Some (Inr (Some (i, off)))"
      by (metis not_None_eq obj_sumE surj_pair)
    then show ?thesis
    proof cases
      case 4
      then show ?thesis using False d
        by (cases "array_get (entry (aesd_cb (aesd_device k))) i") (simp_all add: steps read_copy_def Let_def cong: if_cong)
    qed (use False d in \<open>simp_all add: steps\<close>)
  qed
qed

text \<open>The end of a write: mutex and byte count.\<close>

lemma write_alone_end:
  "wr_at w = Wr_Stored r \<Longrightarrow> write_alone (Suc (Suc (Suc n))) ans k w = (write_done k r, w\<lparr>wr_at := Wr_Return (Inr r)\<rparr>)"
  by (cases n) (simp_all add: write_step_def set_dev_def write_done_def Let_def)

lemma kernel_update_swap: "k\<lparr>kheap := h, aesd_device := d\<rparr> = k\<lparr>aesd_device := d, kheap := h\<rparr>"
  by simp

text \<open>From the filled buffer on, the steps make up \<^const>\<open>write_commit\<close>.\<close>

lemma write_alone_commit:
  assumes "wr_at w = Wr_Filled r"
  shows "case write_commit k ans of
      Inl e \<Rightarrow> wr_at (snd (write_alone 5 ans k w)) = Wr_Return (Inl e)
    | Inr k2 \<Rightarrow> write_alone 5 ans k w = (write_done k2 r, w\<lparr>wr_at := Wr_Return (Inr r)\<rparr>)"
proof -
  let ?d = "aesd_device k"
  let ?w = "\<lambda>pc. w\<lparr>wr_at := pc\<rparr>"
  have five: "write_alone 5 ans k w =
      (case write_evict_step k r of (k', pc) \<Rightarrow> write_alone (Suc (Suc (Suc (Suc 0)))) ans k' (?w pc))"
    using assms by (simp add: eval_nat_numeral write_step_def split: prod.splits)
  have stop: "write_alone n ans k' (?w (Wr_Return v)) = (k', ?w (Wr_Return v))" for n k' v
    by (cases n) (simp_all add: write_step_def)
  have stored: "write_alone (Suc (Suc (Suc (Suc 0)))) ans k' (?w (Wr_Stored r)) =
      (write_done k' r, ?w (Wr_Return (Inr r)))" for k'
    using write_alone_end [of "?w (Wr_Stored r)" r "Suc 0" ans k'] by simp
  have evicted: "write_alone (Suc (Suc (Suc (Suc 0)))) ans k' (?w (Wr_Evicted r)) =
      (case write_store_step ans k' r of (k2, pc) \<Rightarrow> write_alone (Suc (Suc (Suc 0))) ans k2 (?w pc))" for k'
    by (simp add: write_step_def split: prod.splits)
  have stored3: "write_alone (Suc (Suc (Suc 0))) ans k' (?w (Wr_Stored r)) =
      (write_done k' r, ?w (Wr_Return (Inr r)))" for k'
    using write_alone_end [of "?w (Wr_Stored r)" r 0 ans k'] by simp
  show ?thesis
    unfolding five
    by (auto simp: write_commit_def write_evict_step_def write_store_step_def rbind_def Let_def stop stored
        evicted stored3 kernel_update_swap simp del: write_alone.simps split: sum.splits option.splits)
qed

text \<open>What the handler does with the mutex taken.\<close>

definition locked_write :: "kernel \<Rightarrow> byte list \<Rightarrow> size_t \<Rightarrow> answers \<Rightarrow> (ssize_t \<times> kernel) res" where
  "locked_write k ub count ans =
     rbind (write_fill k ub count ans) (\<lambda>(res, k1).
       case res of None \<Rightarrow> Inr (- ENOMEM, k1)
       | Some r \<Rightarrow> rbind (write_commit k1 ans) (\<lambda>k2. Inr (r, write_done k2 r)))"

lemma write_alone_return: "wr_at w = Wr_Return v \<Longrightarrow> write_alone n ans k w = (k, w)"
  by (cases n) (simp_all add: write_step_def)

lemma write_alone_locked:
  assumes "wr_at w = Wr_Locked" and "wr_buf w = Some ub"
  shows "case locked_write k ub (wr_count w) ans of
      Inl e \<Rightarrow> wr_at (snd (write_alone 6 ans k w)) = Wr_Return (Inl e)
    | Inr (r, k') \<Rightarrow> write_alone 6 ans k w = (k', w\<lparr>wr_at := Wr_Return (Inr r)\<rparr>)"
proof -
  have six: "write_alone 6 ans k w =
      (case write_fill_step ans k w of (k2, pc) \<Rightarrow> write_alone 5 ans k2 (w\<lparr>wr_at := pc\<rparr>))"
    using write_alone.simps(2) [of 5 ans k w] assms by (simp add: write_step_def split: prod.splits)
  show ?thesis
  proof (cases "write_fill k ub (wr_count w) ans")
    case (Inl e)
    then show ?thesis
      using assms by (simp add: six locked_write_def write_fill_step_def write_alone_return)
  next
    case (Inr rk)
    obtain res k1 where rk: "rk = (res, k1)" by (cases rk)
    show ?thesis
    proof (cases res)
      case None
      then show ?thesis
        using assms Inr rk by (simp add: six locked_write_def write_fill_step_def write_alone_return)
    next
      case (Some r)
      then show ?thesis
        using assms Inr rk write_alone_commit [of "w\<lparr>wr_at := Wr_Filled r\<rparr>" r ans k1]
        by (cases "write_commit k1 ans") (simp_all add: six locked_write_def write_fill_step_def)
    qed
  qed
qed

lemma aesd_write_split:
  "aesd_write k filp buf count ans =
     (case buf of None \<Rightarrow> Inr (- EFAULT, k)
      | Some ub \<Rightarrow> rbind (file_dev k filp) (\<lambda>dev.
          if \<not> mx_lock dev then locked_write (set_lock True k) ub count ans
          else if interrupted ans then Inr (- ERESTARTSYS, k) else Inl Blocks))"
  by (auto simp: aesd_write_def mutex_lock_interruptible_def locked_write_def write_done_def rbind_def Let_def
      split: option.splits sum.splits)

lemma write_alone_aesd_write:
  "case aesd_write k filp buf count ans of
     Inl e \<Rightarrow> (case write_alone 7 ans k (writer_call filp buf count) of (k', w) \<Rightarrow>
       wr_at w = Wr_Return (Inl e) \<or> e = Blocks \<and> k' = k \<and> wr_at w = Wr_Call)
   | Inr (r, k') \<Rightarrow> \<exists>w. write_alone 7 ans k (writer_call filp buf count) = (k', w) \<and> wr_at w = Wr_Return (Inr r)"
proof -
  let ?w = "\<lambda>pc. (writer_call filp buf count)\<lparr>wr_at := pc\<rparr>"
  have seven: "write_alone 7 ans k (writer_call filp buf count) =
      (case write_lock ans k (writer_call filp buf count) of None \<Rightarrow> (k, writer_call filp buf count)
       | Some (k', pc) \<Rightarrow> write_alone 6 ans k' (?w pc))"
    using write_alone.simps(2) [of 6 ans k "writer_call filp buf count"]
    by (simp add: write_step_def writer_call_def split: option.splits)
  show ?thesis
  proof (cases buf)
    case None
    then show ?thesis
      unfolding seven by (simp add: aesd_write_split write_lock_def writer_call_def write_alone_return)
  next
    case (Some ub)
    show ?thesis
    proof (cases "file_dev k filp")
      case (Inl e)
      with Some show ?thesis
        unfolding seven by (simp add: aesd_write_split write_lock_def writer_call_def write_alone_return)
    next
      case (Inr dev)
      show ?thesis
      proof (cases "mx_lock dev")
        case True
        with Some Inr show ?thesis
          unfolding seven by (simp add: aesd_write_split write_lock_def writer_call_def mutex_lock_interruptible_def
              write_alone_return)
      next
        case False
        with Some Inr show ?thesis
          unfolding seven using write_alone_locked [of "?w Wr_Locked" ub ans "set_lock True k"]
          by (cases "locked_write (set_lock True k) ub count ans")
            (auto simp: aesd_write_split write_lock_def writer_call_def mutex_lock_interruptible_def
              split: prod.splits)
      qed
    qed
  qed
qed

section \<open>Interleaving\<close>

datatype task = Reader reader | Writer writer | Seeker seeker | Lseeker lseeker

record sys =
  sys_kernel :: kernel
  tasks :: "task list"

text \<open>
  What a step shows to the outside: the release of a stored command by a full ring, and the
  bytes a write appended, at the moment the device has taken them.
\<close>

datatype event = Silent | Evict | Append "byte list"

definition taken :: "writer \<Rightarrow> ssize_t \<Rightarrow> byte list" where
  "taken w retval = (case wr_buf w of None \<Rightarrow> [] | Some ub \<Rightarrow> take (unat retval) ub)"

definition write_event :: "kernel \<Rightarrow> writer \<Rightarrow> wr_pc \<Rightarrow> event" where
  "write_event k w pc =
     (case pc of
        Wr_Evicted _ \<Rightarrow> if full (aesd_cb (aesd_device k)) then Evict else Silent
      | Wr_Stored retval \<Rightarrow> Append (taken w retval)
      | _ \<Rightarrow> Silent)"

text \<open>
  A schedule picks a task that can move; \<open>ok\<close> and \<open>calm\<close> say which answers of the kernel a write,
  and which any call, may get. In \<open>sys_step\<close> they are those of a kernel that works: an allocation
  is granted at a free address.
\<close>

inductive task_step ::
  "(kernel \<Rightarrow> writer \<Rightarrow> answers \<Rightarrow> bool) \<Rightarrow> (answers \<Rightarrow> bool) \<Rightarrow> sys \<Rightarrow> event \<Rightarrow> sys \<Rightarrow> bool"
  for ok calm where
  Step_Read: "\<lbrakk>i < length ts; ts ! i = Reader r; read_step miss k r = Some r'\<rbrakk> \<Longrightarrow>
    task_step ok calm \<lparr>sys_kernel = k, tasks = ts\<rparr> Silent \<lparr>sys_kernel = k, tasks = ts[i := Reader r']\<rparr>"
| Step_Write: "\<lbrakk>i < length ts; ts ! i = Writer w; ok k w ans; write_step ans k w = Some (k', pc); calm ans\<rbrakk> \<Longrightarrow>
    task_step ok calm \<lparr>sys_kernel = k, tasks = ts\<rparr> (write_event k w pc)
      \<lparr>sys_kernel = k', tasks = ts[i := Writer (w\<lparr>wr_at := pc\<rparr>)]\<rparr>"
| Step_Seek: "\<lbrakk>i < length ts; ts ! i = Seeker s; seek_step ans k s = Some (k', pc); calm ans\<rbrakk> \<Longrightarrow>
    task_step ok calm \<lparr>sys_kernel = k, tasks = ts\<rparr> Silent
      \<lparr>sys_kernel = k', tasks = ts[i := Seeker (s\<lparr>sk_at := pc\<rparr>)]\<rparr>"
| Step_Lseek: "\<lbrakk>i < length ts; ts ! i = Lseeker l; lseek_step k l = Some l'\<rbrakk> \<Longrightarrow>
    task_step ok calm \<lparr>sys_kernel = k, tasks = ts\<rparr> Silent \<lparr>sys_kernel = k, tasks = ts[i := Lseeker l']\<rparr>"

lemma task_step_mono:
  assumes "task_step ok calm s ev t" and "\<And>k w ans. ok k w ans \<Longrightarrow> ok' k w ans" and "\<And>ans. calm ans \<Longrightarrow> calm' ans"
  shows "task_step ok' calm' s ev t"
  using assms(1)
proof cases
  case (Step_Write i ts w k ans k' pc)
  then show ?thesis using assms(2,3) task_step.Step_Write [of i ts w ok' k ans k' pc calm'] by simp
qed (use assms(3) in \<open>auto intro: task_step.intros\<close>)

definition fill_ok :: "kernel \<Rightarrow> writer \<Rightarrow> answers \<Rightarrow> bool" where
  "fill_ok k w ans \<longleftrightarrow> (wr_at w = Wr_Locked \<longrightarrow>
     (case wr_buf w of None \<Rightarrow> False | Some ub \<Rightarrow> answers_ok k ub (wr_count w) ans))"

abbreviation sys_step :: "sys \<Rightarrow> event \<Rightarrow> sys \<Rightarrow> bool" where
  "sys_step \<equiv> task_step fill_ok (\<lambda>_. True)"

text \<open>
  In a calm run no signal arrives and every user page is there; in a wild one an allocation may
  fail or be granted anywhere.
\<close>

definition calm_answers :: "answers \<Rightarrow> bool" where
  "calm_answers ans \<longleftrightarrow> \<not> interrupted ans \<and> missing ans = 0"

abbreviation calm_step :: "sys \<Rightarrow> event \<Rightarrow> sys \<Rightarrow> bool" where
  "calm_step \<equiv> task_step fill_ok calm_answers"

abbreviation wild_step :: "sys \<Rightarrow> event \<Rightarrow> sys \<Rightarrow> bool" where
  "wild_step \<equiv> task_step (\<lambda>_ _ _. True) (\<lambda>_. True)"

abbreviation sys_run :: "sys \<Rightarrow> event list \<Rightarrow> sys \<Rightarrow> bool" where
  "sys_run \<equiv> run sys_step"

text \<open>The bytes appended in a run, in order.\<close>

fun appends :: "event list \<Rightarrow> byte list list" where
  "appends [] = []"
| "appends (Append bs # tr) = bs # appends tr"
| "appends (_ # tr) = appends tr"

lemma appends_append [simp]: "appends (tr @ tr') = appends tr @ appends tr'"
  by (induction tr rule: appends.induct) auto

text \<open>
  At the start every task is before its first step, with the device's file open. A seek does not
  ask for command 10, which the handler looks up outside the array.
\<close>

definition task_start :: "task \<Rightarrow> bool" where
  "task_start t = (case t of
      Reader r \<Rightarrow> rd_at r = Rd_Call \<and> private_data (rd_filp r) = Some Ref_aesd_device
    | Writer w \<Rightarrow> wr_at w = Wr_Call \<and> private_data (wr_filp w) = Some Ref_aesd_device
    | Seeker s \<Rightarrow> sk_at s = Sk_Call \<and> private_data (sk_filp s) = Some Ref_aesd_device \<and>
        unat (write_cmd (sk_arg s)) \<noteq> 10
    | Lseeker l \<Rightarrow> ls_at l = Ls_Call)"

end
