(* ===== verification/Driver_Concurrency.thy ===== *)
theory Driver_Concurrency
  imports Driver_Tasks
begin

text \<open>
  The invariant of every interleaving of the tasks of \<^verbatim>\<open>Driver_Tasks\<close>: the mutex is held by the one
  task in the critical section, and the device is the one of the appends so far.
\<close>

section \<open>The mutex\<close>

text \<open>Holding the mutex, and what then is known of the device.\<close>

fun holds_lock :: "task \<Rightarrow> bool" where
  "holds_lock (Reader r) = False"
| "holds_lock (Writer w) = (case wr_at w of
      Wr_Locked \<Rightarrow> True | Wr_Filled _ \<Rightarrow> True | Wr_Evicted _ \<Rightarrow> True | Wr_Stored _ \<Rightarrow> True | _ \<Rightarrow> False)"
| "holds_lock (Seeker s) = (case sk_at s of Sk_Locked \<Rightarrow> True | Sk_Found _ _ \<Rightarrow> True | _ \<Rightarrow> False)"
| "holds_lock (Lseeker l) = False"

definition same_device :: "kernel \<Rightarrow> kernel \<Rightarrow> bool" where
  "same_device k k' \<longleftrightarrow> kheap k = kheap k' \<and> aesd_cb (aesd_device k) = aesd_cb (aesd_device k') \<and>
     tmp_buf (aesd_device k) = tmp_buf (aesd_device k') \<and> tmp_size (aesd_device k) = tmp_size (aesd_device k')"

definition evicted_from :: "kernel \<Rightarrow> kernel \<Rightarrow> bool" where
  "evicted_from k0 k \<longleftrightarrow>
     write_evict (kheap k0) (aesd_cb (aesd_device k0)) = Inr (kheap k, aesd_cb (aesd_device k)) \<and>
     tmp_buf (aesd_device k) = tmp_buf (aesd_device k0) \<and> tmp_size (aesd_device k) = tmp_size (aesd_device k0)"

definition holder_ok :: "device \<Rightarrow> kernel \<Rightarrow> writer \<Rightarrow> bool" where
  "holder_ok st k w \<longleftrightarrow>
     wr_buf w \<noteq> None \<and>
     (case wr_at w of
        Wr_Locked \<Rightarrow> dev_data k st
      | Wr_Filled r \<Rightarrow> dev_data k (fst st, snd st @ taken w r)
      | Wr_Evicted r \<Rightarrow> NEWLINE \<in> set (snd st @ taken w r) \<and>
          (\<exists>k0. dev_data k0 (fst st, snd st @ taken w r) \<and> evicted_from k0 k)
      | Wr_Stored r \<Rightarrow> dev_data k st
      | _ \<Rightarrow> False)"

text \<open>A seek that holds the mutex looks at a device at rest.\<close>

definition holder_task :: "device \<Rightarrow> kernel \<Rightarrow> task \<Rightarrow> bool" where
  "holder_task st k t = (case t of
      Reader r \<Rightarrow> False
    | Writer w \<Rightarrow> holder_ok st k w
    | Seeker s \<Rightarrow> dev_data k st
    | Lseeker l \<Rightarrow> False)"

text \<open>
  The invariant: no write and no seek has met a fault, and either the mutex is free, no task holds it and
  the device is the one of all appends so far, or exactly one task holds it and the device is
  on the way from there.
\<close>

definition no_write_fault :: "task \<Rightarrow> bool" where
  "no_write_fault t = (case t of Reader r \<Rightarrow> True
     | Writer w \<Rightarrow> private_data (wr_filp w) = Some Ref_aesd_device \<and> (\<forall>e. wr_at w \<noteq> Wr_Return (Inl e))
     | Seeker s \<Rightarrow> private_data (sk_filp s) = Some Ref_aesd_device \<and> unat (write_cmd (sk_arg s)) \<noteq> 10 \<and>
         (sk_at s = Sk_Locked \<longrightarrow> unat (write_cmd (sk_arg s)) < 10) \<and> (\<forall>e. sk_at s \<noteq> Sk_Return (Inl e))
     | Lseeker l \<Rightarrow> True)"

definition sys_inv :: "device \<Rightarrow> sys \<Rightarrow> bool" where
  "sys_inv st s \<longleftrightarrow>
     NEWLINE \<notin> set (snd st) \<and> list_all no_write_fault (tasks s) \<and>
     (if mx_lock (aesd_device (sys_kernel s))
      then \<exists>i < length (tasks s). holder_task st (sys_kernel s) (tasks s ! i) \<and>
        (\<forall>j < length (tasks s). holds_lock (tasks s ! j) \<longleftrightarrow> j = i)
      else dev_data (sys_kernel s) st \<and> (\<forall>t \<in> set (tasks s). \<not> holds_lock t))"

lemma taken_at [simp]: "taken (w\<lparr>wr_at := pc\<rparr>) r = taken w r"
  by (simp add: taken_def)

fun after_event :: "device \<Rightarrow> event \<Rightarrow> device" where
  "after_event st (Append bs) = device_write st bs"
| "after_event st _ = st"

lemma dev_data_same: "same_device k k' \<Longrightarrow> dev_data k st = dev_data k' st"
  by (simp add: same_device_def dev_data_def ring_ptrs_def)

lemma same_device_refl [simp]: "same_device k k"
  by (simp add: same_device_def)

lemma same_device_lock [simp]: "same_device k (set_lock l k)" "same_device (set_lock l k) k"
  by (simp_all add: same_device_def)

lemma same_device_size [simp]: "same_device k (set_dev (\<lambda>d. d\<lparr>buffer_size := n\<rparr>) k)"
  "mx_lock (aesd_device (set_dev (\<lambda>d. d\<lparr>buffer_size := n\<rparr>) k)) = mx_lock (aesd_device k)"
  by (simp_all add: same_device_def set_dev_def)

lemma holder_ok_same:
  assumes "same_device k k'"
  shows "holder_ok st k w = holder_ok st k' w"
proof -
  have "evicted_from k0 k = evicted_from k0 k'" for k0
    using assms by (simp add: evicted_from_def same_device_def)
  then show ?thesis
    by (simp add: holder_ok_def dev_data_same [OF assms] split: wr_pc.splits)
qed

lemma holder_task_same: "same_device k k' \<Longrightarrow> holder_task st k t = holder_task st k' t"
  using holder_ok_same dev_data_same by (auto simp: holder_task_def split: task.splits)

subsection \<open>What the steps keep\<close>

lemma inv_holder:
  assumes "sys_inv st \<lparr>sys_kernel = k, tasks = ts\<rparr>" and "i < length ts" and "ts ! i = t"
    and "holds_lock t"
  shows "mx_lock (aesd_device k)" and "holder_task st k t"
    and "\<And>j. j < length ts \<Longrightarrow> holds_lock (ts ! j) \<longleftrightarrow> j = i"
proof -
  show lock: "mx_lock (aesd_device k)"
    using assms nth_mem [OF assms(2)] by (fastforce simp: sys_inv_def simp del: holds_lock.simps split: if_splits)
  then obtain j where j: "j < length ts" "holder_task st k (ts ! j)"
    "\<forall>l < length ts. holds_lock (ts ! l) \<longleftrightarrow> l = j"
    using assms(1) by (auto simp: sys_inv_def)
  then have "i = j" using assms(2-4) by metis
  with j assms(3) show "holder_task st k t" "\<And>j. j < length ts \<Longrightarrow> holds_lock (ts ! j) \<longleftrightarrow> j = i" by auto
qed

lemma inv_holder_ok:
  assumes "sys_inv st \<lparr>sys_kernel = k, tasks = ts\<rparr>" and "i < length ts" and "ts ! i = Writer w"
    and "holds_lock (Writer w)"
  shows "holder_ok st k w"
  using inv_holder(2) [OF assms] by (simp add: holder_task_def)

lemma faults_upd:
  assumes "list_all no_write_fault ts" and "no_write_fault t"
  shows "list_all no_write_fault (ts[i := t])"
  using assms by (auto simp: list_all_iff dest: set_update_subset_insert [THEN subsetD])

lemma inv_quiet:
  assumes inv: "sys_inv st \<lparr>sys_kernel = k, tasks = ts\<rparr>" and i: "i < length ts" "\<not> holds_lock (ts ! i)"
    and t: "\<not> holds_lock t" "no_write_fault t"
    and k: "same_device k k'" "mx_lock (aesd_device k') = mx_lock (aesd_device k)"
  shows "sys_inv st \<lparr>sys_kernel = k', tasks = ts[i := t]\<rparr>"
proof (cases "mx_lock (aesd_device k)")
  case True
  then obtain j where j: "j < length ts" "holder_task st k (ts ! j)"
    "\<forall>l < length ts. holds_lock (ts ! l) \<longleftrightarrow> l = j"
    using inv by (auto simp: sys_inv_def)
  then have "j \<noteq> i" using i by blast
  then show ?thesis
    using inv i t j True k holder_task_same [OF k(1), of st "ts ! j"]
    by (auto simp: sys_inv_def nth_list_update intro!: faults_upd exI [of _ j])
next
  case False
  then show ?thesis
    using inv i t k dev_data_same [OF k(1), of st]
    by (auto simp: sys_inv_def intro!: faults_upd dest: set_update_subset_insert [THEN subsetD])
qed

lemma inv_acquire:
  assumes inv: "sys_inv st \<lparr>sys_kernel = k, tasks = ts\<rparr>" and i: "i < length ts"
    and free: "\<not> mx_lock (aesd_device k)" and t: "holds_lock t" "no_write_fault t" "holder_task st k t"
  shows "sys_inv st \<lparr>sys_kernel = set_lock True k, tasks = ts[i := t]\<rparr>"
  using assms holder_task_same [of k "set_lock True k" st t]
  by (auto simp: sys_inv_def nth_list_update simp del: holds_lock.simps
      intro!: faults_upd exI [of _ i] dest: nth_mem)

lemma inv_hold:
  assumes inv: "sys_inv st \<lparr>sys_kernel = k, tasks = ts\<rparr>" and i: "i < length ts" "ts ! i = t"
    and t: "holds_lock t" "holds_lock t'" "no_write_fault t'" "holder_task st' k' t'"
    and k: "mx_lock (aesd_device k')" "NEWLINE \<notin> set (snd st')"
  shows "sys_inv st' \<lparr>sys_kernel = k', tasks = ts[i := t']\<rparr>"
  using assms inv_holder(3) [OF inv i t(1)]
  by (auto simp: sys_inv_def nth_list_update simp del: holds_lock.simps intro!: faults_upd exI [of _ i])

lemma inv_release:
  assumes inv: "sys_inv st \<lparr>sys_kernel = k, tasks = ts\<rparr>" and i: "i < length ts" "ts ! i = u"
    and u: "holds_lock u" "\<not> holds_lock u'" "no_write_fault u'"
    and k: "dev_data k st"
  shows "sys_inv st \<lparr>sys_kernel = set_lock False k, tasks = ts[i := u']\<rparr>"
proof -
  have "list_all no_write_fault ts" "NEWLINE \<notin> set (snd st)" using inv by (simp_all add: sys_inv_def)
  moreover have "\<not> holds_lock t" if "t \<in> set (ts[i := u'])" for t
    using that inv_holder(3) [OF inv i u(1)] u(2) i(1)
    by (auto simp: in_set_conv_nth nth_list_update simp del: holds_lock.simps split: if_splits)
  ultimately show ?thesis using u(3) k by (auto simp: sys_inv_def intro: faults_upd)
qed

lemma task_fault_inv:
  assumes "sys_inv st \<lparr>sys_kernel = k, tasks = ts\<rparr>" and "i < length ts" and "ts ! i = Writer w"
  shows "private_data (wr_filp w) = Some Ref_aesd_device"
  using assms nth_mem [of i ts] by (fastforce simp: sys_inv_def list_all_iff no_write_fault_def)

lemma sys_inv_mutex:
  assumes "sys_inv st s"
  shows "mx_lock (aesd_device (sys_kernel s)) \<longleftrightarrow> (\<exists>u \<in> set (tasks s). holds_lock u)"
    and "\<And>i j. i < length (tasks s) \<Longrightarrow> j < length (tasks s) \<Longrightarrow>
      holds_lock (tasks s ! i) \<Longrightarrow> holds_lock (tasks s ! j) \<Longrightarrow> i = j"
proof -
  show "mx_lock (aesd_device (sys_kernel s)) \<longleftrightarrow> (\<exists>u \<in> set (tasks s). holds_lock u)"
    using assms by (cases "mx_lock (aesd_device (sys_kernel s))") (auto simp: sys_inv_def dest: nth_mem)
  show "i = j" if "i < length (tasks s)" "j < length (tasks s)" "holds_lock (tasks s ! i)" "holds_lock (tasks s ! j)" for i j
    using assms that by (cases "mx_lock (aesd_device (sys_kernel s))") (auto simp: sys_inv_def dest: nth_mem)
qed

subsection \<open>The critical section, step by step\<close>

lemma fill_step_ok:
  assumes "holder_ok st k w" and "wr_at w = Wr_Locked" and "fill_ok k w ans"
  shows "\<exists>k' r. write_fill_step ans k w = (k', Wr_Filled r) \<and> holder_ok st k' (w\<lparr>wr_at := Wr_Filled r\<rparr>) \<and>
    mx_lock (aesd_device k') = mx_lock (aesd_device k)"
proof -
  obtain ub where ub: "wr_buf w = Some ub" "answers_ok k ub (wr_count w) ans" "dev_data k (fst st, snd st)"
    using assms by (auto simp: holder_ok_def fill_ok_def)
  then obtain k' where "write_fill k ub (wr_count w) ans = Inr (Some (wr_count w - missing ans), k')"
    "dev_data k' (fst st, snd st @ copied ub (wr_count w) ans)" "same_ring k k'"
    using write_fill_ok by blast
  then show ?thesis
    using ub(1) by (simp add: write_fill_step_def holder_ok_def taken_def copied_def same_ring_def)
qed

lemma evict_step_ok:
  assumes "holder_ok st k w" and "wr_at w = Wr_Filled r"
  shows "\<exists>k' pc. write_evict_step k r = (k', pc) \<and> holder_ok (after_event st (write_event k w pc)) k' (w\<lparr>wr_at := pc\<rparr>) \<and>
    (pc = Wr_Evicted r \<and> evicted_from k k' \<or> pc = Wr_Stored r \<and> k' = k \<and> NEWLINE \<notin> set (snd st @ taken w r)) \<and>
    mx_lock (aesd_device k') = mx_lock (aesd_device k)"
proof -
  let ?p = "snd st @ taken w r" and ?d = "aesd_device k"
  have data: "dev_data k (fst st, ?p)" and buf: "wr_buf w \<noteq> None"
    using assms by (auto simp: holder_ok_def)
  have chr: "mem_chr (kheap k) (tmp_buf ?d) NEWLINE (unat (tmp_size ?d)) =
      Inr (if NEWLINE \<in> set ?p then Some (length (takeWhile (\<lambda>x. x \<noteq> NEWLINE) ?p)) else None)"
  proof (cases "?p = []")
    case True
    with data have "tmp_size ?d = 0" by (simp add: dev_data_def unat_eq_0)
    with True show ?thesis by (simp add: mem_chr_def)
  next
    case False
    with data show ?thesis
      using mem_chr_holds [of "kheap k" "tmp_buf ?d" ?p NEWLINE] by (simp add: dev_data_def)
  qed
  show ?thesis
  proof (cases "NEWLINE \<in> set ?p")
    case True
    obtain h cb where ev: "write_evict (kheap k) (aesd_cb ?d) = Inr (h, cb)"
      using write_evict_full [OF data] by (cases "full (aesd_cb ?d)") (auto simp: write_evict_def)
    let ?k = "k\<lparr>aesd_device := ?d\<lparr>aesd_cb := cb\<rparr>, kheap := h\<rparr>"
    have "evicted_from k ?k" using ev by (simp add: evicted_from_def)
    with True chr ev data buf show ?thesis
      by (auto simp: write_evict_step_def holder_ok_def write_event_def)
  next
    case False
    with chr data buf show ?thesis
      by (simp add: write_evict_step_def holder_ok_def device_write_def write_event_def)
  qed
qed

lemma store_step_ok:
  assumes "holder_ok st k w" and "wr_at w = Wr_Evicted r"
  shows "\<exists>k'. write_store_step ans k r = (k', Wr_Stored r) \<and>
    holder_ok (device_write st (taken w r)) k' (w\<lparr>wr_at := Wr_Stored r\<rparr>) \<and>
    mx_lock (aesd_device k') = mx_lock (aesd_device k)"
proof -
  let ?p = "snd st @ taken w r"
  obtain k0 where k0: "NEWLINE \<in> set ?p" "dev_data k0 (fst st, ?p)" "evicted_from k0 k" and buf: "wr_buf w \<noteq> None"
    using assms by (auto simp: holder_ok_def)
  obtain k2 where k2: "write_commit k0 ans = Inr k2" "dev_data k2 (fifo_push 10 (fst st) ?p, [])"
    using write_commit_ok [OF k0(2), of ans] k0(1) by auto
  have pe: "pending_entry k0 ans = \<lparr>buffptr = tmp_buf (aesd_device k), entry_size = tmp_size (aesd_device k),
      entry_offset = stack_junk ans\<rparr>"
    using k0(3) by (simp add: pending_entry_def evicted_from_def)
  obtain v cb where cb: "aesd_circular_buffer_add_entry (aesd_cb (aesd_device k)) (pending_entry k0 ans) = Inr (v, cb)"
    "k2 = committed k0 cb (kheap k)"
    using k2(1) k0(3) by (auto simp: write_commit_newline [OF k0(2,1)] evicted_from_def rbind_eq_Inr_iff)
  let ?k = "k\<lparr>aesd_device := (aesd_device k)\<lparr>aesd_cb := cb, tmp_buf := NULL, tmp_size := 0\<rparr>\<rparr>"
  have "same_device k2 ?k" using cb(2) by (simp add: same_device_def committed_def)
  then have "dev_data ?k (device_write st (taken w r))"
    using k2(2) k0(1) dev_data_same by (auto simp: device_write_def)
  then show ?thesis
    using cb(1) pe buf by (simp add: write_store_step_def holder_ok_def)
qed

lemma lock_step_cases:
  assumes "write_lock ans k w = Some (k', pc)" and "private_data (wr_filp w) = Some Ref_aesd_device"
  shows "k' = k \<and> pc = Wr_Return (Inr (- EFAULT)) \<or> k' = k \<and> pc = Wr_Return (Inr (- ERESTARTSYS)) \<or>
    k' = set_lock True k \<and> pc = Wr_Locked \<and> \<not> mx_lock (aesd_device k) \<and> wr_buf w \<noteq> None"
  using assms by (auto simp: write_lock_def mutex_lock_interruptible_def split: option.splits if_splits)

lemma write_step_inv:
  assumes inv: "sys_inv st \<lparr>sys_kernel = k, tasks = ts\<rparr>" and i: "i < length ts" "ts ! i = Writer w"
    and ok: "fill_ok k w ans" and step: "write_step ans k w = Some (k', pc)"
  shows "sys_inv (after_event st (write_event k w pc)) \<lparr>sys_kernel = k', tasks = ts[i := Writer (w\<lparr>wr_at := pc\<rparr>)]\<rparr>"
proof -
  have filp: "private_data (wr_filp w) = Some Ref_aesd_device" by (rule task_fault_inv [OF inv i])
  have nl: "NEWLINE \<notin> set (snd st)" using inv by (simp add: sys_inv_def)
  then have nl': "NEWLINE \<notin> set (snd (after_event st ev))" for ev
    by (cases ev) (simp_all add: device_write_def Let_def)
  have clean: "no_write_fault (Writer (w\<lparr>wr_at := q\<rparr>))" if "\<And>e. q \<noteq> Wr_Return (Inl e)" for q
    using filp that by (simp add: no_write_fault_def)
  show ?thesis
  proof (cases "wr_at w")
    case Wr_Call
    then have lock: "write_lock ans k w = Some (k', pc)" using step by (simp add: write_step_def)
    have unheld: "\<not> holds_lock (ts ! i)" using i(2) Wr_Call by simp
    show ?thesis
    proof (cases "pc = Wr_Locked")
      case True
      with lock_step_cases [OF lock filp]
      have k': "k' = set_lock True k" "\<not> mx_lock (aesd_device k)" "wr_buf w \<noteq> None" by auto
      then have "dev_data k st" using inv by (simp add: sys_inv_def)
      then show ?thesis
        using inv_acquire [OF inv i(1) k'(2), of "Writer (w\<lparr>wr_at := Wr_Locked\<rparr>)"] clean [of Wr_Locked] True k' Wr_Call
        by (simp add: holder_task_def holder_ok_def write_event_def)
    next
      case False
      with lock_step_cases [OF lock filp]
      have "k' = k" "\<not> holds_lock (Writer (w\<lparr>wr_at := pc\<rparr>))" "\<And>e. pc \<noteq> Wr_Return (Inl e)"
        "write_event k w pc = Silent" by (auto simp: write_event_def)
      then show ?thesis
        using inv_quiet [OF inv i(1) unheld _ clean, of pc k] by simp
    qed
  next
    case Wr_Locked
    have h: "holds_lock (Writer w)" using Wr_Locked by simp
    obtain r where "write_fill_step ans k w = (k', Wr_Filled r)" "pc = Wr_Filled r"
      "holder_ok st k' (w\<lparr>wr_at := Wr_Filled r\<rparr>)" "mx_lock (aesd_device k')"
      using fill_step_ok [OF inv_holder_ok [OF inv i h] Wr_Locked ok] inv_holder(1) [OF inv i h] step Wr_Locked
      by (auto simp: write_step_def)
    then show ?thesis
      using inv_hold [OF inv i h, of "Writer (w\<lparr>wr_at := Wr_Filled r\<rparr>)" st k'] clean Wr_Locked nl by (simp add: write_event_def holder_task_def)
  next
    case (Wr_Filled r)
    have h: "holds_lock (Writer w)" using Wr_Filled by simp
    let ?st = "after_event st (write_event k w pc)"
    have "pc = Wr_Evicted r \<or> pc = Wr_Stored r" "holder_ok ?st k' (w\<lparr>wr_at := pc\<rparr>)" "mx_lock (aesd_device k')"
      using evict_step_ok [OF inv_holder_ok [OF inv i h] Wr_Filled] inv_holder(1) [OF inv i h] step Wr_Filled
      by (auto simp: write_step_def)
    then show ?thesis
      using inv_hold [OF inv i h, of "Writer (w\<lparr>wr_at := pc\<rparr>)" ?st k'] clean [of pc] nl nl' [of "write_event k w pc"]
      by (auto simp: holder_task_def)
  next
    case (Wr_Evicted r)
    have h: "holds_lock (Writer w)" using Wr_Evicted by simp
    have "pc = Wr_Stored r" "holder_ok (device_write st (taken w r)) k' (w\<lparr>wr_at := pc\<rparr>)" "mx_lock (aesd_device k')"
      using store_step_ok [OF inv_holder_ok [OF inv i h] Wr_Evicted, of ans] inv_holder(1) [OF inv i h] step Wr_Evicted
      by (auto simp: write_step_def)
    then show ?thesis
      using inv_hold [OF inv i h, of "Writer (w\<lparr>wr_at := pc\<rparr>)" "device_write st (taken w r)" k'] clean [of pc]
        nl' [of "write_event k w pc"]
      by (simp add: write_event_def holder_task_def)
  next
    case (Wr_Stored r)
    have h: "holds_lock (Writer w)" using Wr_Stored by simp
    have "dev_data k st"
      using inv_holder_ok [OF inv i h] Wr_Stored by (simp add: holder_ok_def)
    then show ?thesis
      using inv_release [OF inv i h, of "Writer (w\<lparr>wr_at := pc\<rparr>)"] clean [of pc] step Wr_Stored
      by (auto simp: write_step_def write_event_def)
  next
    case (Wr_Unlocked r)
    then show ?thesis
      using inv_quiet [OF inv i(1) _ _ clean, of pc k] step i(2) by (auto simp: write_step_def write_event_def)
  next
    case (Wr_Counting r n)
    then show ?thesis
      using inv_quiet [OF inv i(1) _ _ clean, of pc k'] step i(2) by (auto simp: write_step_def write_event_def)
  next
    case (Wr_Return v)
    then show ?thesis using step by (simp add: write_step_def)
  qed
qed

text \<open>A seek that holds the mutex searches a ring of ten slots, and leaves the device alone.\<close>

lemma seek_entry_no_fault:
  assumes "length es = 10" and "unat (write_cmd seek) < 10"
  shows "\<exists>v. seek_entry es seek filp = Inr v"
proof -
  have "\<exists>v. seek_loop es i n off = Inr v" if "n \<le> length es" for i n off
    using that
  proof (induction es i n off rule: seek_loop.induct)
    case (1 es index cmd loc_off)
    then have "array_get es index = Inr (es ! index)" if "index < cmd" using that by simp
    with 1 show ?case by (subst seek_loop.simps) auto
  qed
  then obtain v where "seek_loop es 0 (unat (write_cmd seek)) 0 = Inr v" using assms by fastforce
  then show ?thesis using assms by (auto simp: seek_entry_def split: prod.splits)
qed

lemma seek_lock_cases:
  assumes "seek_lock ans k s = Some (k', pc)" and "private_data (sk_filp s) = Some Ref_aesd_device"
    and "unat (write_cmd (sk_arg s)) \<noteq> 10"
  shows "k' = k \<and> (pc = Sk_Return (Inr (- EINVAL, sk_filp s)) \<or> pc = Sk_Return (Inr (- ERESTARTSYS, sk_filp s))) \<or>
    k' = set_lock True k \<and> pc = Sk_Locked \<and> \<not> mx_lock (aesd_device k) \<and> unat (write_cmd (sk_arg s)) < 10"
  using assms by (auto simp: seek_lock_def mutex_lock_interruptible_def split: if_splits)

lemma seek_step_inv:
  assumes inv: "sys_inv st \<lparr>sys_kernel = k, tasks = ts\<rparr>" and i: "i < length ts" "ts ! i = Seeker s"
    and step: "seek_step ans k s = Some (k', pc)"
  shows "sys_inv st \<lparr>sys_kernel = k', tasks = ts[i := Seeker (s\<lparr>sk_at := pc\<rparr>)]\<rparr>"
proof -
  have s: "no_write_fault (Seeker s)" using inv i nth_mem [of i ts] by (auto simp: sys_inv_def list_all_iff)
  have nl: "NEWLINE \<notin> set (snd st)" using inv by (simp add: sys_inv_def)
  show ?thesis
  proof (cases "sk_at s")
    case Sk_Call
    then have lock: "seek_lock ans k s = Some (k', pc)" using step by (simp add: seek_step_def)
    have unheld: "\<not> holds_lock (ts ! i)" using i(2) Sk_Call by simp
    consider "k' = k" "pc = Sk_Return (Inr (- EINVAL, sk_filp s)) \<or> pc = Sk_Return (Inr (- ERESTARTSYS, sk_filp s))"
      | "k' = set_lock True k" "pc = Sk_Locked" "\<not> mx_lock (aesd_device k)" "unat (write_cmd (sk_arg s)) < 10"
      using seek_lock_cases [OF lock] s by (auto simp: no_write_fault_def)
    then show ?thesis
    proof cases
      case 1
      then show ?thesis
        using inv_quiet [OF inv i(1) unheld, of "Seeker (s\<lparr>sk_at := pc\<rparr>)" k] s by (auto simp: no_write_fault_def)
    next
      case 2
      then have "dev_data k st" using inv by (simp add: sys_inv_def)
      then show ?thesis
        using inv_acquire [OF inv i(1) 2(3), of "Seeker (s\<lparr>sk_at := pc\<rparr>)"] 2 s
        by (simp add: no_write_fault_def holder_task_def)
    qed
  next
    case Sk_Locked
    have h: "holds_lock (Seeker s)" using Sk_Locked by simp
    have data: "dev_data k st" using inv_holder(2) [OF inv i h] by (simp add: holder_task_def)
    then have "length (entry (aesd_cb (aesd_device k))) = 10" by (simp add: dev_data_def cb_wf_def)
    moreover have "unat (write_cmd (sk_arg s)) < 10" using s Sk_Locked by (simp add: no_write_fault_def)
    ultimately obtain v where "seek_entry (entry (aesd_cb (aesd_device k))) (sk_arg s) (sk_filp s) = Inr v"
      using seek_entry_no_fault by blast
    then have "k' = k" "pc = Sk_Found (fst v) (snd v)"
      using step Sk_Locked by (auto simp: seek_step_def seek_search_def split: prod.splits)
    then show ?thesis
      using inv_hold [OF inv i h, of "Seeker (s\<lparr>sk_at := pc\<rparr>)" st k] inv_holder(1) [OF inv i h] s nl data
      by (simp add: no_write_fault_def holder_task_def)
  next
    case (Sk_Found retval filp)
    have h: "holds_lock (Seeker s)" using Sk_Found by simp
    have "dev_data k st" using inv_holder(2) [OF inv i h] by (simp add: holder_task_def)
    then show ?thesis
      using inv_release [OF inv i h, of "Seeker (s\<lparr>sk_at := pc\<rparr>)"] step Sk_Found s
      by (auto simp: seek_step_def no_write_fault_def)
  next
    case (Sk_Return v)
    then show ?thesis using step by (simp add: seek_step_def)
  qed
qed

lemma sys_step_inv:
  assumes "sys_step s ev t" and "sys_inv st s"
  shows "sys_inv (after_event st ev) t"
  using assms
proof cases
  case (Step_Read i ts r miss k r')
  then show ?thesis
    using assms(2) inv_quiet [of st k ts i "Reader r'" k] by (simp add: no_write_fault_def)
next
  case (Step_Write i ts w k ans k' pc)
  then show ?thesis using assms(2) write_step_inv by blast
next
  case (Step_Seek i ts s ans k k' pc)
  then show ?thesis using assms(2) seek_step_inv by simp
next
  case (Step_Lseek i ts l k l')
  then show ?thesis
    using assms(2) inv_quiet [of st k ts i "Lseeker l'" k] by (simp add: no_write_fault_def)
qed

interpretation drv_tasks: event_machine sys_step "\<lambda>st. sys_inv st" after_event
  by unfold_locales (rule sys_step_inv)

lemma foldl_after_event: "foldl after_event st tr = foldl device_write st (appends tr)"
  by (induction tr arbitrary: st rule: appends.induct) auto

lemma sys_run_inv:
  "sys_run s tr t \<Longrightarrow> sys_inv st s \<Longrightarrow> sys_inv (foldl device_write st (appends tr)) t"
  using drv_tasks.run_inv by (simp add: foldl_after_event)

lemma sys_inv_start:
  assumes "dev_rel k st" and "list_all task_start ts"
  shows "sys_inv st \<lparr>sys_kernel = k, tasks = ts\<rparr>"
proof -
  have "no_write_fault t \<and> \<not> holds_lock t" if "t \<in> set ts" for t
    using assms(2) that by (cases t) (auto simp: list_all_iff task_start_def no_write_fault_def)
  then show ?thesis using assms(1) by (simp add: sys_inv_def dev_rel_def list_all_iff)
qed

end
