(* ===== verification/Driver_Schedules.thy ===== *)
theory Driver_Schedules
  imports Driver_Concurrency
begin

text \<open>
  Schedules that show what may go wrong: a read that meets a block a write has freed, and two
  writes that lose a byte count.
\<close>

section \<open>Schedules\<close>

lemma sys_write_one:
  assumes "i < length ts" and "ts ! i = Writer w" and "fill_ok k w ans" and "write_step ans k w = Some (k', pc)"
    and "sys_run s tr \<lparr>sys_kernel = k, tasks = ts\<rparr>"
  shows "\<exists>tr. sys_run s tr \<lparr>sys_kernel = k', tasks = ts[i := Writer (w\<lparr>wr_at := pc\<rparr>)]\<rparr>"
  using Run_Snoc [OF assms(5) Step_Write [where ok = fill_ok and calm = "\<lambda>_. True", OF assms(1-4)]] by blast

lemma sys_read_one:
  assumes "i < length ts" and "ts ! i = Reader r" and "read_step miss k r = Some r'"
    and "sys_run s tr \<lparr>sys_kernel = k, tasks = ts\<rparr>"
  shows "\<exists>tr. sys_run s tr \<lparr>sys_kernel = k, tasks = ts[i := Reader r']\<rparr>"
  using Run_Snoc [OF assms(4) Step_Read [OF assms(1-3), of fill_ok "\<lambda>_. True"]] by blast

text \<open>A schedule that lets one writer fill its buffer.\<close>

lemma schedule_fill:
  assumes run: "sys_run s tr \<lparr>sys_kernel = k, tasks = ts\<rparr>" and i: "i < length ts" "ts ! i = Writer w"
    and w: "wr_at w = Wr_Call" "wr_buf w = Some ub" "private_data (wr_filp w) = Some Ref_aesd_device"
    and free: "\<not> mx_lock (aesd_device k)" and ok: "answers_ok k ub (wr_count w) ans"
    and fill: "write_fill (set_lock True k) ub (wr_count w) ans = Inr (Some r, k1)"
  shows "\<exists>tr. sys_run s tr \<lparr>sys_kernel = k1, tasks = ts[i := Writer (w\<lparr>wr_at := Wr_Filled r\<rparr>)]\<rparr>"
proof -
  let ?w = "w\<lparr>wr_at := Wr_Locked\<rparr>"
  have "write_step ans k w = Some (set_lock True k, Wr_Locked)"
    using w free by (simp add: write_step_def write_lock_def mutex_lock_interruptible_def)
  then obtain tr1 where tr1: "sys_run s tr1 \<lparr>sys_kernel = set_lock True k, tasks = ts[i := Writer ?w]\<rparr>"
    using sys_write_one [OF i _ _ run] w(1) by (fastforce simp: fill_ok_def)
  have "write_step ans (set_lock True k) ?w = Some (k1, Wr_Filled r)"
    using w fill by (simp add: write_step_def write_fill_step_def)
  moreover have "fill_ok (set_lock True k) ?w ans" using w ok by (simp add: fill_ok_def)
  ultimately show ?thesis
    using sys_write_one [of i "ts[i := Writer ?w]" ?w "set_lock True k" ans k1 "Wr_Filled r" s tr1] i tr1 by simp
qed

text \<open>And one that lets it go on until the mutex is free again.\<close>

lemma schedule_commit:
  assumes run: "sys_run s tr \<lparr>sys_kernel = k1, tasks = ts\<rparr>" and i: "i < length ts" "ts ! i = Writer w"
    and w: "wr_at w = Wr_Filled r" and commit: "write_commit k1 ans = Inr k2"
  shows "\<exists>tr. sys_run s tr \<lparr>sys_kernel = set_lock False k2, tasks = ts[i := Writer (w\<lparr>wr_at := Wr_Unlocked r\<rparr>)]\<rparr>"
proof -
  let ?s = "\<lambda>k pc. \<lparr>sys_kernel = k, tasks = ts[i := Writer (w\<lparr>wr_at := pc\<rparr>)]\<rparr>"
  have next_pc: "\<exists>tr. sys_run s tr (?s k' pc')"
    if "sys_run s tr0 (?s k pc)" "write_step ans k (w\<lparr>wr_at := pc\<rparr>) = Some (k', pc')" "pc \<noteq> Wr_Locked" for tr0 k pc k' pc'
    using sys_write_one [of i "ts[i := Writer (w\<lparr>wr_at := pc\<rparr>)]" "w\<lparr>wr_at := pc\<rparr>" k ans k' pc' s tr0] that i
    by (simp add: fill_ok_def)
  have start: "sys_run s tr (?s k1 (Wr_Filled r))"
  proof -
    have "w\<lparr>wr_at := Wr_Filled r\<rparr> = w" using w by (cases w) simp
    moreover have "ts[i := Writer w] = ts" using list_update_id [of ts i] i(2) by simp
    ultimately show ?thesis using run by simp
  qed
  have "\<exists>tr. sys_run s tr (?s k2 (Wr_Stored r))"
  proof (cases "write_evict_step k1 r = (k1, Wr_Stored r)")
    case True
    then have "k2 = k1"
      using commit by (auto simp: write_evict_step_def write_commit_def Let_def split: sum.splits option.splits)
    with True show ?thesis using next_pc [OF start, of k1 "Wr_Stored r"] by (simp add: write_step_def)
  next
    case False
    then obtain k' where k': "write_evict_step k1 r = (k', Wr_Evicted r)" "write_store_step ans k' r = (k2, Wr_Stored r)"
      using commit
      by (auto simp: write_evict_step_def write_store_step_def write_commit_def rbind_def Let_def
          kernel_update_swap split: sum.splits option.splits)
    then obtain tr1 where "sys_run s tr1 (?s k' (Wr_Evicted r))"
      using next_pc [OF start, of k' "Wr_Evicted r"] by (auto simp: write_step_def)
    then show ?thesis using k' next_pc [of tr1 k' "Wr_Evicted r" k2 "Wr_Stored r"] by (simp add: write_step_def)
  qed
  then obtain tr2 where "sys_run s tr2 (?s k2 (Wr_Stored r))" ..
  then show ?thesis
    using next_pc [of tr2 k2 "Wr_Stored r" "set_lock False k2" "Wr_Unlocked r"] by (simp add: write_step_def)
qed

lemma schedule_write:
  assumes run: "sys_run s tr \<lparr>sys_kernel = k, tasks = ts\<rparr>" and i: "i < length ts" "ts ! i = Writer w"
    and w: "wr_at w = Wr_Call" "wr_buf w = Some ub" "private_data (wr_filp w) = Some Ref_aesd_device"
    and rel: "dev_rel k st" and ok: "answers_ok k ub (wr_count w) ans"
  shows "\<exists>tr k'. sys_run s tr \<lparr>sys_kernel = k', tasks =
      ts[i := Writer (w\<lparr>wr_at := Wr_Unlocked (wr_count w - missing ans)\<rparr>)]\<rparr> \<and>
    dev_rel k' (device_write st (copied ub (wr_count w) ans)) \<and>
    buffer_size (aesd_device k') = buffer_size (aesd_device k) \<and>
    aesd_write k (wr_filp w) (Some ub) (wr_count w) ans =
      Inr (wr_count w - missing ans, write_done k' (wr_count w - missing ans))"
proof -
  let ?r = "wr_count w - missing ans"
  obtain k1 k2 where k: "write_fill (set_lock True k) ub (wr_count w) ans = Inr (Some ?r, k1)"
    "write_commit k1 ans = Inr k2" "dev_data k2 (device_write st (copied ub (wr_count w) ans))"
    "buffer_size (aesd_device k2) = buffer_size (aesd_device k)"
    "aesd_write k (wr_filp w) (Some ub) (wr_count w) ans = Inr (?r, write_done k2 ?r)"
    using aesd_write_steps [OF rel w(3) ok] by metis
  have "\<not> mx_lock (aesd_device k)" using rel by (simp add: dev_rel_def)
  then obtain tr1 where "sys_run s tr1 \<lparr>sys_kernel = k1, tasks = ts[i := Writer (w\<lparr>wr_at := Wr_Filled ?r\<rparr>)]\<rparr>"
    using schedule_fill [OF run i w _ ok k(1)] by blast
  then obtain tr2 where "sys_run s tr2 \<lparr>sys_kernel = set_lock False k2,
      tasks = ts[i := Writer (w\<lparr>wr_at := Wr_Unlocked ?r\<rparr>)]\<rparr>"
    using schedule_commit [of s tr1 k1 "ts[i := Writer (w\<lparr>wr_at := Wr_Filled ?r\<rparr>)]" i "w\<lparr>wr_at := Wr_Filled ?r\<rparr>" ?r]
      i k(2) by auto
  moreover have "dev_rel (set_lock False k2) (device_write st (copied ub (wr_count w) ans))"
    using k(3) by (simp add: dev_rel_def device_write_def Let_def)
  moreover have "write_done (set_lock False k2) ?r = write_done k2 ?r"
    by (simp add: write_done_def set_lock_def Let_def)
  ultimately show ?thesis using k(4,5) by (intro exI [of _ tr2] exI [of _ "set_lock False k2"]) simp
qed

section \<open>A read against an eviction\<close>

text \<open>The oldest command is the first hit of the search at a position inside it.\<close>

lemma read_oldest_entry:
  assumes data: "dev_data k st" and r: "private_data (rd_filp r) = Some Ref_aesd_device" "rd_buf r \<noteq> NULL"
    and pos: "fst st \<noteq> []" "unat (rd_pos r) < length (hd (fst st))"
  shows "read_search k r = Rd_Entry (unat (out_offs (aesd_cb (aesd_device k)))) (rd_pos r)"
proof -
  let ?cb = "aesd_cb (aesd_device k)"
  have wf: "cb_wf ?cb" using data by (simp add: dev_data_def)
  have "locate (map length (fst st)) (unat (rd_pos r)) = Some (0, unat (rd_pos r))"
    using pos by (cases "fst st") auto
  then have "aesd_circular_buffer_find_entry_offset_for_fpos ?cb (rd_pos r) =
      Some (Inr (Some (unat (out_offs ?cb) mod 10, rd_pos r)))"
    using find_entry_locate [OF wf] dev_data_sum [OF data] by simp
  moreover have "unat (out_offs ?cb) < 10" using wf by (simp add: cb_wf_def)
  ultimately show ?thesis using r by (simp add: read_search_def)
qed

lemma full_ring_oldest:
  assumes data: "dev_data k st" and "length (fst st) = 10"
  shows "full (aesd_cb (aesd_device k))"
    and "\<exists>a. buffptr (entry (aesd_cb (aesd_device k)) ! unat (out_offs (aesd_cb (aesd_device k)))) = Ptr a \<and>
      kheap k a \<noteq> None \<and> a \<noteq> 16"
    and "unat (entry_size (entry (aesd_cb (aesd_device k)) ! unat (out_offs (aesd_cb (aesd_device k))))) =
      length (hd (fst st))"
proof -
  let ?cb = "aesd_cb (aesd_device k)"
  have wf: "cb_wf ?cb" and holds: "list_all2 (entry_holds (kheap k)) (cb_list ?cb) (fst st)" and h16: "kheap k 16 = None"
    using data by (simp_all add: dev_data_def)
  show "full ?cb" using cb_full_iff [OF wf] list_all2_lengthD [OF holds] assms(2) by simp
  have "entry_holds (kheap k) (cb_list ?cb ! 0) (fst st ! 0)"
    using list_all2_nthD2 [OF holds, of 0] assms(2) by simp
  moreover have "cb_list ?cb ! 0 = entry ?cb ! unat (out_offs ?cb)"
    using cb_list_nth [OF wf, of 0] list_all2_lengthD [OF holds] assms(2) wf by (simp add: cb_wf_def)
  moreover have "hd (fst st) = fst st ! 0" using assms(2) by (cases "fst st") auto
  ultimately have e: "entry_holds (kheap k) (entry ?cb ! unat (out_offs ?cb)) (hd (fst st))" by simp
  then show "unat (entry_size (entry ?cb ! unat (out_offs ?cb))) = length (hd (fst st))"
    by (simp add: entry_holds_def)
  from e obtain a where "buffptr (entry ?cb ! unat (out_offs ?cb)) = Ptr a" "kheap k a \<noteq> None"
    by (auto simp: entry_holds_def holds_bytes_Ptr)
  then show "\<exists>a. buffptr (entry ?cb ! unat (out_offs ?cb)) = Ptr a \<and> kheap k a \<noteq> None \<and> a \<noteq> 16"
    using h16 by auto
qed

text \<open>The slot of the oldest command after its release: the block is gone, the pointer is not.\<close>

lemma evict_step_full:
  assumes data: "dev_data k (cmds, pend)" and nl: "NEWLINE \<in> set pend" and full: "length cmds = 10"
  shows "\<exists>k' a. write_evict_step k r = (k', Wr_Evicted r) \<and> kheap k' a = None \<and>
    length (entry (aesd_cb (aesd_device k'))) = 10 \<and>
    buffptr (entry (aesd_cb (aesd_device k')) ! unat (out_offs (aesd_cb (aesd_device k)))) = Ptr a"
proof -
  let ?d = "aesd_device k"
  let ?cb = "aesd_cb ?d"
  obtain a where a: "buffptr (entry ?cb ! unat (out_offs ?cb)) = Ptr a" "kheap k a \<noteq> None" "a \<noteq> 16"
    using full_ring_oldest(2) [OF data] full by auto
  have wf: "in_offs ?cb = out_offs ?cb" "unat (out_offs ?cb) < length (entry ?cb)" "length (entry ?cb) = 10" "full ?cb"
    using full_ring_oldest(1) [OF data] full data by (auto simp: dev_data_def cb_wf_def)
  let ?e = "entry ?cb ! unat (out_offs ?cb)"
  have "write_evict (kheap k) ?cb = Inr ((kheap k)(a := None),
      ?cb\<lparr>entry := (entry ?cb)[unat (out_offs ?cb) := ?e\<lparr>entry_size := 0\<rparr>]\<rparr>)"
    using a wf by (simp add: write_evict_def kfree_def)
  moreover have "mem_chr (kheap k) (tmp_buf ?d) NEWLINE (unat (tmp_size ?d)) =
      Inr (Some (length (takeWhile (\<lambda>x. x \<noteq> NEWLINE) pend)))"
    using mem_chr_holds [of "kheap k" "tmp_buf ?d" pend NEWLINE] data nl by (auto simp: dev_data_def)
  ultimately show ?thesis
    using a(1) wf by (auto simp: write_evict_step_def Let_def intro!: exI [of _ a])
qed

lemma read_size_some:
  assumes "i < length (entry (aesd_cb (aesd_device k)))" and "rd_count r \<noteq> 0"
    and "unat off < unat (entry_size (entry (aesd_cb (aesd_device k)) ! i))"
  shows "\<exists>n. read_size k r i off = Rd_Copy i off n \<and> n \<noteq> 0"
  using assms by (auto simp: read_size_def Let_def)

lemma read_copy_freed:
  assumes "i < length (entry (aesd_cb (aesd_device k)))" and "n \<noteq> 0"
    and "buffptr (entry (aesd_cb (aesd_device k)) ! i) = Ptr a" and "kheap k a = None"
  shows "read_copy k r i off n miss = Rd_Return (Inl Wild_Pointer)"
  using assms by (simp add: read_copy_def mem_read_def mem_block_def unat_eq_0)

lemma schedule_race:
  assumes rel: "dev_rel k st" and full: "length (fst st) = 10"
    and r: "rd_at r = Rd_Call" "private_data (rd_filp r) = Some Ref_aesd_device" "rd_buf r \<noteq> NULL" "rd_count r \<noteq> 0"
      "unat (rd_pos r) < length (hd (fst st))"
    and w: "wr_at w = Wr_Call" "wr_buf w = Some ub" "private_data (wr_filp w) = Some Ref_aesd_device"
    and ok: "answers_ok k ub (wr_count w) ans" and nl: "NEWLINE \<in> set (snd st @ copied ub (wr_count w) ans)"
  shows "\<exists>tr k' w'. sys_run \<lparr>sys_kernel = k, tasks = [Reader r, Writer w]\<rparr> tr
    \<lparr>sys_kernel = k', tasks = [Reader (r\<lparr>rd_at := Rd_Return (Inl Wild_Pointer)\<rparr>), Writer w']\<rparr>"
proof -
  let ?s = "\<lparr>sys_kernel = k, tasks = [Reader r, Writer w]\<rparr>"
  let ?o = "unat (out_offs (aesd_cb (aesd_device k)))"
  have data: "dev_data k st" and free: "\<not> mx_lock (aesd_device k)" using rel by (simp_all add: dev_rel_def)
  have o: "?o < length (entry (aesd_cb (aesd_device k)))" using data by (simp add: dev_data_def cb_wf_def)
  have ne: "fst st \<noteq> []" using full by auto
  obtain n where n: "read_size k (r\<lparr>rd_at := Rd_Entry ?o (rd_pos r)\<rparr>) ?o (rd_pos r) = Rd_Copy ?o (rd_pos r) n" "n \<noteq> 0"
    using read_size_some [of ?o k "r\<lparr>rd_at := Rd_Entry ?o (rd_pos r)\<rparr>" "rd_pos r"] o r
      full_ring_oldest(3) [OF data full] by auto
  let ?r1 = "r\<lparr>rd_at := Rd_Entry ?o (rd_pos r)\<rparr>" and ?r2 = "r\<lparr>rd_at := Rd_Copy ?o (rd_pos r) n\<rparr>"
  have "read_step 0 k r = Some ?r1"
    using r(1) read_oldest_entry [OF data r(2,3) ne r(5)] by (simp add: read_step_def)
  then obtain tr1 where "sys_run ?s tr1 \<lparr>sys_kernel = k, tasks = [Reader ?r1, Writer w]\<rparr>"
    using sys_read_one [of 0 "[Reader r, Writer w]" r 0 k ?r1, OF _ _ _ Run_Nil] by auto
  moreover have "read_step 0 k ?r1 = Some ?r2" using n(1) by (simp add: read_step_def)
  ultimately obtain tr2 where run2: "sys_run ?s tr2 \<lparr>sys_kernel = k, tasks = [Reader ?r2, Writer w]\<rparr>"
    using sys_read_one [of 0 "[Reader ?r1, Writer w]" ?r1 0 k ?r2 ?s tr1] by auto
  let ?rv = "wr_count w - missing ans"
  have okl: "answers_ok (set_lock True k) ub (wr_count w) ans" and dl: "dev_data (set_lock True k) (fst st, snd st)"
    using ok data by simp_all
  obtain k1 where k1: "write_fill (set_lock True k) ub (wr_count w) ans = Inr (Some ?rv, k1)"
    "dev_data k1 (fst st, snd st @ copied ub (wr_count w) ans)" "same_ring (set_lock True k) k1"
    using write_fill_ok [OF dl okl] by blast
  let ?w1 = "w\<lparr>wr_at := Wr_Filled ?rv\<rparr>"
  obtain tr3 where run3: "sys_run ?s tr3 \<lparr>sys_kernel = k1, tasks = [Reader ?r2, Writer ?w1]\<rparr>"
    using schedule_fill [OF run2, of 1 w ub ans ?rv k1] w free ok k1(1) by auto
  have o1: "unat (out_offs (aesd_cb (aesd_device k1))) = ?o" using k1(3) by (simp add: same_ring_def)
  obtain k2 a where k2: "write_evict_step k1 ?rv = (k2, Wr_Evicted ?rv)" "kheap k2 a = None"
    "length (entry (aesd_cb (aesd_device k2))) = 10" "buffptr (entry (aesd_cb (aesd_device k2)) ! ?o) = Ptr a"
    using evict_step_full [OF k1(2) nl full, of ?rv] o1 by auto
  have "write_step ans k1 ?w1 = Some (k2, Wr_Evicted ?rv)" using k2(1) by (simp add: write_step_def)
  then obtain tr4 where run4: "sys_run ?s tr4 \<lparr>sys_kernel = k2, tasks = [Reader ?r2, Writer (w\<lparr>wr_at := Wr_Evicted ?rv\<rparr>)]\<rparr>"
    using sys_write_one [of 1 "[Reader ?r2, Writer ?w1]" ?w1 k1 ans k2 "Wr_Evicted ?rv" ?s tr3] run3
    by (auto simp: fill_ok_def)
  have "?o < length (entry (aesd_cb (aesd_device k2)))" using k2(3) o data by (simp add: dev_data_def cb_wf_def)
  then have "read_step 0 k2 ?r2 = Some (r\<lparr>rd_at := Rd_Return (Inl Wild_Pointer)\<rparr>)"
    using read_copy_freed [OF _ n(2) k2(4,2)] by (simp add: read_step_def)
  then obtain tr5 where "sys_run ?s tr5 \<lparr>sys_kernel = k2,
      tasks = [Reader (r\<lparr>rd_at := Rd_Return (Inl Wild_Pointer)\<rparr>), Writer (w\<lparr>wr_at := Wr_Evicted ?rv\<rparr>)]\<rparr>"
    using sys_read_one [of 0 _ ?r2 0 k2 _ ?s tr4, OF _ _ _ run4] by auto
  then show ?thesis by blast
qed

section \<open>Two writers and the byte count\<close>

lemma answers_ok_write_done [simp]: "answers_ok (write_done k r) ub count ans = answers_ok k ub count ans"
  by (auto simp: answers_ok_def split: option.splits)

lemma schedule_counts:
  assumes "sys_run s tr \<lparr>sys_kernel = k, tasks =
      Writer (w1\<lparr>wr_at := Wr_Unlocked r1\<rparr>) # Writer (w2\<lparr>wr_at := Wr_Unlocked r2\<rparr>) # us\<rparr>"
  shows "\<exists>tr. sys_run s tr \<lparr>sys_kernel = set_dev (\<lambda>d. d\<lparr>buffer_size := buffer_size (aesd_device k) + r2\<rparr>) k,
      tasks = Writer (w1\<lparr>wr_at := Wr_Return (Inr r1)\<rparr>) # Writer (w2\<lparr>wr_at := Wr_Return (Inr r2)\<rparr>) # us\<rparr>"
proof -
  let ?b = "buffer_size (aesd_device k)" and ?ans = "good_answers 0"
  let ?s = "\<lambda>k pc1 pc2. \<lparr>sys_kernel = k, tasks = Writer (w1\<lparr>wr_at := pc1\<rparr>) # Writer (w2\<lparr>wr_at := pc2\<rparr>) # us\<rparr>"
  have one: "\<exists>tr. sys_run s tr (?s k' pc1' pc2)"
    if "sys_run s tr0 (?s k pc1 pc2)" "write_step ?ans k (w1\<lparr>wr_at := pc1\<rparr>) = Some (k', pc1')" "pc1 \<noteq> Wr_Locked"
    for tr0 k pc1 pc2 k' pc1'
    using sys_write_one [of 0 "Writer (w1\<lparr>wr_at := pc1\<rparr>) # Writer (w2\<lparr>wr_at := pc2\<rparr>) # us" _ k ?ans k' pc1' s tr0] that
    by (simp add: fill_ok_def)
  have two: "\<exists>tr. sys_run s tr (?s k' pc1 pc2')"
    if "sys_run s tr0 (?s k pc1 pc2)" "write_step ?ans k (w2\<lparr>wr_at := pc2\<rparr>) = Some (k', pc2')" "pc2 \<noteq> Wr_Locked"
    for tr0 k pc1 pc2 k' pc2'
    using sys_write_one [of 1 "Writer (w1\<lparr>wr_at := pc1\<rparr>) # Writer (w2\<lparr>wr_at := pc2\<rparr>) # us" _ k ?ans k' pc2' s tr0] that
    by (simp add: fill_ok_def)
  let ?k1 = "set_dev (\<lambda>d. d\<lparr>buffer_size := ?b + r1\<rparr>) k"
  let ?k2 = "set_dev (\<lambda>d. d\<lparr>buffer_size := ?b + r2\<rparr>) ?k1"
  obtain t1 where "sys_run s t1 (?s k (Wr_Counting r1 ?b) (Wr_Unlocked r2))"
    using one [OF assms, of k "Wr_Counting r1 ?b"] by (auto simp: write_step_def)
  then obtain t2 where "sys_run s t2 (?s k (Wr_Counting r1 ?b) (Wr_Counting r2 ?b))"
    using two [of t1 k _ "Wr_Unlocked r2" k "Wr_Counting r2 ?b"] by (auto simp: write_step_def)
  then obtain t3 where "sys_run s t3 (?s ?k1 (Wr_Return (Inr r1)) (Wr_Counting r2 ?b))"
    using one [of t2 k "Wr_Counting r1 ?b" _ ?k1 "Wr_Return (Inr r1)"] by (auto simp: write_step_def)
  then obtain t4 where "sys_run s t4 (?s ?k2 (Wr_Return (Inr r1)) (Wr_Return (Inr r2)))"
    using two [of t3 ?k1 _ "Wr_Counting r2 ?b" ?k2 "Wr_Return (Inr r2)"] by (auto simp: write_step_def)
  moreover have "?k2 = set_dev (\<lambda>d. d\<lparr>buffer_size := ?b + r2\<rparr>) k" by (simp add: set_dev_def)
  ultimately show ?thesis by auto
qed

lemma dev_rel_size [simp]: "dev_rel (set_dev (\<lambda>d. d\<lparr>buffer_size := n\<rparr>) k) st = dev_rel k st"
  using dev_data_same [OF same_device_size(1)] by (simp add: dev_rel_def)

text \<open>An llseek is one step.\<close>

lemma sys_lseek_one:
  assumes "sys_run s tr \<lparr>sys_kernel = k, tasks = ts\<rparr>" and "i < length ts" and "ts ! i = Lseeker l" and "ls_at l = Ls_Call"
  shows "\<exists>tr'. sys_run s tr' \<lparr>sys_kernel = k, tasks = ts[i := Lseeker (l\<lparr>ls_at :=
    Ls_Return (aesd_llseek k (ls_filp l) (ls_off l) (ls_whence l))\<rparr>)]\<rparr>"
  using Run_Snoc [OF assms(1) Step_Lseek [OF assms(2,3)]] assms(4) by (auto simp: lseek_step_def)

end
