(* ===== verification/Driver_Readers.thy ===== *)
theory Driver_Readers
  imports Driver_Concurrency "HOL-Library.Sublist"
begin

text \<open>
  Reads in runs that evict nothing: every read returns what the device held at one moment of
  the run.
\<close>

section \<open>Reads while nothing is evicted\<close>

text \<open>The stored commands as a read sees them.\<close>

definition ring_ok :: "kernel \<Rightarrow> byte list list \<Rightarrow> bool" where
  "ring_ok k cmds \<longleftrightarrow> cb_wf (aesd_cb (aesd_device k)) \<and>
     list_all2 (entry_holds (kheap k)) (cb_list (aesd_cb (aesd_device k))) cmds \<and>
     sum_list (map length cmds) < 2 ^ 63 \<and> entry_sizes (cb_list (aesd_cb (aesd_device k))) = map length cmds"

lemma ring_ok_data: "dev_data k st \<Longrightarrow> ring_ok k (fst st)"
  using dev_data_sum [of k st] by (simp add: ring_ok_def dev_data_def)

lemma ring_entry:
  assumes "ring_ok k cmds" and "j < length cmds"
  shows "(unat (out_offs (aesd_cb (aesd_device k))) + j) mod 10 < length (entry (aesd_cb (aesd_device k)))"
    and "entry_holds (kheap k)
      (entry (aesd_cb (aesd_device k)) ! ((unat (out_offs (aesd_cb (aesd_device k))) + j) mod 10)) (cmds ! j)"
proof -
  let ?cb = "aesd_cb (aesd_device k)"
  have wf: "cb_wf ?cb" and holds: "list_all2 (entry_holds (kheap k)) (cb_list ?cb) cmds"
    using assms(1) by (simp_all add: ring_ok_def)
  then show "(unat (out_offs ?cb) + j) mod 10 < length (entry ?cb)" by (simp add: cb_wf_def)
  show "entry_holds (kheap k) (entry ?cb ! ((unat (out_offs ?cb) + j) mod 10)) (cmds ! j)"
    using cb_list_nth [OF wf, of j] list_all2_nthD2 [OF holds assms(2)] list_all2_lengthD [OF holds] assms(2) by simp
qed

text \<open>What a read of the abstract device returns.\<close>

definition read_value :: "device \<Rightarrow> reader \<Rightarrow> size_t \<Rightarrow> (ssize_t \<times> loff_t \<times> byte list) res" where
  "read_value st r miss =
     (if rd_buf r = NULL then Inr (- EFAULT, rd_pos r, [])
      else let bs = device_read st (unat (rd_pos r)) (unat (rd_count r))
        in Inr (if miss \<noteq> 0 \<and> unat (rd_pos r) < length (device_bytes st)
                then (- EFAULT, rd_pos r, take (length bs - unat miss) bs)
                else (of_nat (length bs), rd_pos r + of_nat (length bs), bs)))"

lemma read_value_atomic:
  assumes "dev_data k st" and "private_data (rd_filp r) = Some Ref_aesd_device"
  shows "aesd_read k (rd_filp r) (rd_buf r) (rd_count r) (rd_pos r) miss = read_value st r miss"
  using aesd_read_result [OF assms] by (cases "rd_buf r = NULL") (simp_all add: read_value_def aesd_read_def)

lemma read_value_at [simp]: "read_value st (r\<lparr>rd_at := pc\<rparr>) miss = read_value st r miss"
  by (simp add: read_value_def Let_def)

text \<open>The entry a read has found, in a device \<open>st1\<close> that has only grown to \<open>st\<close> since.\<close>

definition found :: "device \<Rightarrow> device \<Rightarrow> kernel \<Rightarrow> reader \<Rightarrow> nat \<Rightarrow> nat \<Rightarrow> nat \<Rightarrow> size_t \<Rightarrow> bool" where
  "found st1 st k r j q i off \<longleftrightarrow>
     rd_buf r \<noteq> NULL \<and> locate (map length (fst st1)) (unat (rd_pos r)) = Some (j, q) \<and> prefix (fst st1) (fst st) \<and>
     i = (unat (out_offs (aesd_cb (aesd_device k))) + j) mod 10 \<and> off = of_nat q"

definition read_ok :: "device set \<Rightarrow> device \<Rightarrow> kernel \<Rightarrow> task \<Rightarrow> bool" where
  "read_ok past st k t = (case t of Writer w \<Rightarrow> True | Seeker s \<Rightarrow> True | Lseeker l \<Rightarrow> True | Reader r \<Rightarrow>
     private_data (rd_filp r) = Some Ref_aesd_device \<and>
     (case rd_at r of
        Rd_Call \<Rightarrow> True
      | Rd_Entry i off \<Rightarrow> \<exists>st1 \<in> past. \<exists>j q. found st1 st k r j q i off
      | Rd_Copy i off n \<Rightarrow> \<exists>st1 \<in> past. \<exists>j q. found st1 st k r j q i off \<and>
          unat n = min (unat (rd_count r)) (length (fst st ! j) - q)
      | Rd_Return v \<Rightarrow> \<exists>st1 \<in> past. \<exists>miss. v = read_value st1 r miss))"

lemma found_bounds:
  assumes "found st1 st k r j q i off"
  shows "j < length (fst st)" and "fst st ! j = fst st1 ! j" and "q < length (fst st ! j)"
proof -
  obtain zs where "fst st = fst st1 @ zs" using assms by (auto simp: found_def prefix_def)
  moreover have "j < length (fst st1)" "q < length (fst st1 ! j)"
    using assms locate_Some_bounds [of "map length (fst st1)" "unat (rd_pos r)" j q] by (auto simp: found_def)
  ultimately show "j < length (fst st)" "fst st ! j = fst st1 ! j" "q < length (fst st ! j)"
    by (auto simp: nth_append)
qed

lemma found_offset:
  assumes "found st1 st k r j q i off" and "ring_ok k (fst st)"
  shows "unat off = q"
proof -
  have "length (fst st ! j) < 2 ^ 63"
    using assms(2) found_bounds(1) [OF assms(1)] elem_le_sum_list [of j "map length (fst st)"] by (auto simp: ring_ok_def)
  then show ?thesis
    using assms(1) found_bounds(3) [OF assms(1)] by (simp add: found_def unat_of_nat_64)
qed

lemma search_step_ok:
  assumes ring: "ring_ok k (fst st)" and r: "private_data (rd_filp r) = Some Ref_aesd_device" and past: "st \<in> past"
  shows "read_ok past st k (Reader (r\<lparr>rd_at := read_search k r\<rparr>))"
proof (cases "rd_buf r = NULL")
  case True
  then have "read_search k r = Rd_Return (read_value st r 0)" by (simp add: read_search_def read_value_def)
  then show ?thesis using r past by (auto simp: read_ok_def)
next
  case False
  let ?cb = "aesd_cb (aesd_device k)"
  have "aesd_circular_buffer_find_entry_offset_for_fpos ?cb (rd_pos r) =
    Some (Inr (map_option (\<lambda>(i, q). ((unat (out_offs ?cb) + i) mod 10, of_nat q))
      (locate (map length (fst st)) (unat (rd_pos r)))))"
    using find_entry_locate [of ?cb "rd_pos r"] ring by (simp add: ring_ok_def)
  note find = this
  show ?thesis
  proof (cases "locate (map length (fst st)) (unat (rd_pos r))")
    case None
    then have "read_search k r = Rd_Return (read_value st r 0)"
      using False find r by (simp add: read_search_def read_value_def device_read_def)
    then show ?thesis using r past by (auto simp: read_ok_def)
  next
    case (Some jq)
    then obtain j q where jq: "locate (map length (fst st)) (unat (rd_pos r)) = Some (j, q)" by (cases jq) auto
    let ?i = "(unat (out_offs ?cb) + j) mod 10"
    have "found st st k (r\<lparr>rd_at := Rd_Entry ?i (of_nat q)\<rparr>) j q ?i (of_nat q)"
      using False jq by (simp add: found_def)
    moreover have "read_search k r = Rd_Entry ?i (of_nat q)"
      using False find r jq by (simp add: read_search_def)
    ultimately show ?thesis
      unfolding read_ok_def using r past by auto
  qed
qed

lemma size_step_ok:
  assumes ring: "ring_ok k (fst st)" and ok: "read_ok past st k (Reader r)" and at: "rd_at r = Rd_Entry i off"
  shows "read_ok past st k (Reader (r\<lparr>rd_at := read_size k r i off\<rparr>))"
proof -
  obtain st1 j q where f: "st1 \<in> past" "found st1 st k r j q i off" and r: "private_data (rd_filp r) = Some Ref_aesd_device"
    using ok at by (auto simp: read_ok_def)
  let ?e = "entry (aesd_cb (aesd_device k)) ! i"
  have i: "i < length (entry (aesd_cb (aesd_device k)))" and e: "entry_holds (kheap k) ?e (fst st ! j)"
    using ring_entry [OF ring found_bounds(1) [OF f(2)]] f(2) by (auto simp: found_def)
  have q: "unat off = q" by (rule found_offset [OF f(2) ring])
  let ?n = "if entry_size ?e - off > rd_count r then rd_count r else entry_size ?e - off"
  have "unat (entry_size ?e - off) = length (fst st ! j) - q"
    using e q found_bounds(3) [OF f(2)] by (subst unat_sub_le) (auto simp: entry_holds_def word_le_nat_alt)
  then have n: "unat ?n = min (unat (rd_count r)) (length (fst st ! j) - q)" by (auto simp: word_less_nat_alt)
  have "read_size k r i off = Rd_Copy i off ?n" using i by (simp add: read_size_def Let_def)
  moreover have "found st1 st k (r\<lparr>rd_at := pc\<rparr>) j q i off" for pc using f(2) by (simp add: found_def)
  ultimately show ?thesis
    using f(1) n r unfolding read_ok_def by (auto split del: if_split)
qed

lemma copy_step_ok:
  assumes ring: "ring_ok k (fst st)" and ok: "read_ok past st k (Reader r)" and at: "rd_at r = Rd_Copy i off n"
  shows "read_ok past st k (Reader (r\<lparr>rd_at := read_copy k r i off n miss\<rparr>))"
proof -
  obtain st1 j q where f: "st1 \<in> past" "found st1 st k r j q i off" and r: "private_data (rd_filp r) = Some Ref_aesd_device"
    and n: "unat n = min (unat (rd_count r)) (length (fst st ! j) - q)"
    using ok at by (auto simp: read_ok_def)
  let ?e = "entry (aesd_cb (aesd_device k)) ! i" and ?c = "fst st ! j"
  have i: "i < length (entry (aesd_cb (aesd_device k)))" and e: "entry_holds (kheap k) ?e ?c"
    using ring_entry [OF ring found_bounds(1) [OF f(2)]] f(2) by (auto simp: found_def)
  have q: "unat off = q" by (rule found_offset [OF f(2) ring])
  have rd: "mem_read (kheap k) (buffptr ?e) q (unat n) = Inr (take (unat n) (drop q ?c))"
    using e n found_bounds(3) [OF f(2)] by (intro mem_read_holds) (auto simp: entry_holds_def)
  have l: "locate (map length (fst st1)) (unat (rd_pos r)) = Some (j, q)" "rd_buf r \<noteq> NULL"
    using f(2) by (auto simp: found_def)
  have dr: "device_read st1 (unat (rd_pos r)) (unat (rd_count r)) = take (unat n) (drop q ?c)"
    using l(1) found_bounds(2) [OF f(2)] n by (simp add: device_read_def min_def)
  have len: "length (take (unat n) (drop q ?c)) = unat n" using n by simp
  have more: "unat (rd_pos r) < length (device_bytes st1)"
    using l(1) locate_None_iff [of "map length (fst st1)" "unat (rd_pos r)"]
    by (simp add: device_bytes_def length_concat)
  have "of_nat (unat n) = n" by (simp only: of_nat_unat ucast_id)
  then have "read_copy k r i off n miss = Rd_Return (read_value st1 r miss)"
    using i q rd l(2) more unfolding read_value_def dr Let_def len by (simp add: read_copy_def)
  then show ?thesis using f(1) r by (auto simp: read_ok_def)
qed

lemma read_step_ok:
  assumes ring: "ring_ok k (fst st)" and ok: "read_ok past st k (Reader r)" and past: "st \<in> past"
    and step: "read_step miss k r = Some r'"
  shows "read_ok past st k (Reader r')"
proof (cases "rd_at r")
  case Rd_Call
  have "private_data (rd_filp r) = Some Ref_aesd_device" using ok by (simp add: read_ok_def)
  then show ?thesis using search_step_ok [OF ring _ past, of r] step Rd_Call by (auto simp: read_step_def)
next
  case (Rd_Entry i off)
  then show ?thesis using size_step_ok [OF ring ok Rd_Entry] step by (auto simp: read_step_def)
next
  case (Rd_Copy i off n)
  then show ?thesis using copy_step_ok [OF ring ok Rd_Copy] step by (auto simp: read_step_def)
next
  case (Rd_Return v)
  then show ?thesis using step by (simp add: read_step_def)
qed

text \<open>Without evictions, a writer that has passed the release of a slot meets a ring with room.\<close>

definition roomy :: "kernel \<Rightarrow> task list \<Rightarrow> bool" where
  "roomy k ts \<longleftrightarrow> (\<forall>w r. Writer w \<in> set ts \<longrightarrow> wr_at w = Wr_Evicted r \<longrightarrow> \<not> full (aesd_cb (aesd_device k)))"

lemma write_evict_keeps_full: "write_evict h cb = Inr (h', cb') \<Longrightarrow> full cb' = full cb"
  by (auto simp: write_evict_def rbind_eq_Inr_iff split: if_splits)

lemma evicted_roomy:
  assumes "evicted_from k0 k" and "\<not> full (aesd_cb (aesd_device k))"
  shows "kheap k = kheap k0" and "aesd_cb (aesd_device k) = aesd_cb (aesd_device k0)"
proof -
  have "\<not> full (aesd_cb (aesd_device k0))"
    using assms write_evict_keeps_full by (auto simp: evicted_from_def)
  then show "kheap k = kheap k0" and "aesd_cb (aesd_device k) = aesd_cb (aesd_device k0)"
    using assms(1) by (simp_all add: evicted_from_def write_evict_def)
qed

lemma ring_now:
  assumes inv: "sys_inv st \<lparr>sys_kernel = k, tasks = ts\<rparr>" and room: "roomy k ts"
  shows "ring_ok k (fst st)"
proof (cases "mx_lock (aesd_device k)")
  case False
  then show ?thesis using inv ring_ok_data by (simp add: sys_inv_def)
next
  case True
  then obtain i where i: "i < length ts" "holder_task st k (ts ! i)" using inv by (auto simp: sys_inv_def)
  show ?thesis
  proof (cases "ts ! i")
    case (Reader r)
    with i show ?thesis by (simp add: holder_task_def)
  next
    case (Seeker s)
    with i show ?thesis by (simp add: holder_task_def ring_ok_data)
  next
    case (Lseeker l)
    with i show ?thesis by (simp add: holder_task_def)
  next
    case (Writer w)
    with i have w: "i < length ts" "ts ! i = Writer w" "holder_ok st k w" by (simp_all add: holder_task_def)
    show ?thesis
    proof (cases "\<exists>r. wr_at w = Wr_Evicted r")
      case True
      then obtain r k0 where r: "wr_at w = Wr_Evicted r" "dev_data k0 (fst st, snd st @ taken w r)" "evicted_from k0 k"
        using w(3) by (auto simp: holder_ok_def)
      have "Writer w \<in> set ts" using w nth_mem by fastforce
      then have "\<not> full (aesd_cb (aesd_device k))" using room r(1) by (auto simp: roomy_def)
      then show ?thesis
        using ring_ok_data [OF r(2)] evicted_roomy [OF r(3)] by (simp add: ring_ok_def)
    next
      case False
      then obtain p where "dev_data k (fst st, p)"
        using w(3) by (cases "wr_at w") (auto simp: holder_ok_def intro: that [of "snd st"])
      then show ?thesis using ring_ok_data by fastforce
    qed
  qed
qed

text \<open>A step of a seek leaves the ring alone.\<close>

lemma seek_step_ring: "seek_step ans k s = Some (k', pc) \<Longrightarrow> aesd_cb (aesd_device k') = aesd_cb (aesd_device k)"
  by (auto simp: seek_step_def seek_lock_def split: sk_pc.splits if_splits sum.splits)

text \<open>What a step of a write without an eviction leaves to the readers.\<close>

definition grows :: "device \<Rightarrow> kernel \<Rightarrow> device \<Rightarrow> kernel \<Rightarrow> bool" where
  "grows st k st' k' \<longleftrightarrow>
     out_offs (aesd_cb (aesd_device k')) = out_offs (aesd_cb (aesd_device k)) \<and> prefix (fst st) (fst st')"

lemma add_entry_out_offs:
  "\<not> full b \<Longrightarrow> aesd_circular_buffer_add_entry b e = Inr (v, b') \<Longrightarrow> out_offs b' = out_offs b"
  by (auto simp: aesd_circular_buffer_add_entry_def cb_evict_def cb_store_def rbind_eq_Inr_iff Let_def)

lemma write_step_grows:
  assumes inv: "sys_inv st \<lparr>sys_kernel = k, tasks = ts\<rparr>" and i: "i < length ts" "ts ! i = Writer w"
    and ok: "fill_ok k w ans" and step: "write_step ans k w = Some (k', pc)"
    and room: "roomy k ts" and quiet: "write_event k w pc \<noteq> Evict"
  shows "grows st k (after_event st (write_event k w pc)) k'"
proof -
  have w: "Writer w \<in> set ts" using i nth_mem by fastforce
  show ?thesis
  proof (cases "wr_at w")
    case Wr_Call
    have "private_data (wr_filp w) = Some Ref_aesd_device" by (rule task_fault_inv [OF inv i])
    then show ?thesis
      using lock_step_cases [of ans k w k' pc] step Wr_Call by (auto simp: write_step_def grows_def write_event_def)
  next
    case Wr_Locked
    then obtain ub where ub: "wr_buf w = Some ub" "answers_ok k ub (wr_count w) ans" "dev_data k (fst st, snd st)"
      using inv_holder_ok [OF inv i] ok by (auto simp: holder_ok_def fill_ok_def)
    then obtain k1 where "write_fill k ub (wr_count w) ans = Inr (Some (wr_count w - missing ans), k1)" "same_ring k k1"
      using write_fill_ok by blast
    then show ?thesis
      using step Wr_Locked ub(1) by (auto simp: write_step_def write_fill_step_def same_ring_def grows_def write_event_def)
  next
    case (Wr_Filled r)
    have h: "holds_lock (Writer w)" using Wr_Filled by simp
    consider "pc = Wr_Evicted r" "evicted_from k k'" | "pc = Wr_Stored r" "k' = k" "NEWLINE \<notin> set (snd st @ taken w r)"
      using evict_step_ok [OF inv_holder_ok [OF inv i h] Wr_Filled] step Wr_Filled by (auto simp: write_step_def)
    then show ?thesis
    proof cases
      case 1
      then have "\<not> full (aesd_cb (aesd_device k'))"
        using quiet write_evict_keeps_full by (auto simp: write_event_def evicted_from_def split: if_splits)
      then show ?thesis
        using evicted_roomy(2) [OF 1(2)] 1(1) by (auto simp: grows_def write_event_def)
    next
      case 2
      then show ?thesis by (simp add: grows_def write_event_def device_write_def)
    qed
  next
    case (Wr_Evicted r)
    have free: "\<not> full (aesd_cb (aesd_device k))" using room w Wr_Evicted by (auto simp: roomy_def)
    have ring: "ring_ok k (fst st)" by (rule ring_now [OF inv room])
    then have "length (fst st) < 10"
      using free cb_full_iff [of "aesd_cb (aesd_device k)"] cb_list_bound [of "aesd_cb (aesd_device k)"]
      by (auto simp: ring_ok_def dest: list_all2_lengthD)
    then show ?thesis
      using step Wr_Evicted free
      by (auto simp: write_step_def write_store_step_def grows_def write_event_def Let_def device_write_def
          fifo_push_def dest: add_entry_out_offs split: sum.splits)
  qed (use step in \<open>auto simp: write_step_def grows_def write_event_def set_dev_def\<close>)
qed

lemma write_step_roomy:
  assumes inv: "sys_inv st \<lparr>sys_kernel = k, tasks = ts\<rparr>" and i: "i < length ts" "ts ! i = Writer w"
    and step: "write_step ans k w = Some (k', pc)" and room: "roomy k ts" and quiet: "write_event k w pc \<noteq> Evict"
  shows "roomy k' (ts[i := Writer (w\<lparr>wr_at := pc\<rparr>)])"
  unfolding roomy_def
proof (intro allI impI)
  fix v r
  assume v: "Writer v \<in> set (ts[i := Writer (w\<lparr>wr_at := pc\<rparr>)])" and at: "wr_at v = Wr_Evicted r"
  from v obtain j where j: "j < length ts" "ts[i := Writer (w\<lparr>wr_at := pc\<rparr>)] ! j = Writer v"
    by (auto simp: in_set_conv_nth)
  show "\<not> full (aesd_cb (aesd_device k'))"
  proof (cases "j = i")
    case True
    then have "pc = Wr_Evicted r" using j at by auto
    then show ?thesis
      using step quiet
      by (auto simp: write_step_def write_lock_def write_fill_step_def write_evict_step_def write_store_step_def
          write_event_def Let_def dest: write_evict_keeps_full
          split: wr_pc.splits sum.splits option.splits if_splits)
  next
    case False
    then have tj: "ts ! j = Writer v" using j by simp
    then have "\<not> holds_lock (Writer w)"
      using inv_holder(3) [OF inv i, of j] j(1) False at by auto
    then have "aesd_cb (aesd_device k') = aesd_cb (aesd_device k)"
      using step
      by (auto simp: write_step_def write_lock_def mutex_lock_interruptible_def set_dev_def
          split: wr_pc.splits sum.splits option.splits if_splits)
    moreover have "Writer v \<in> set ts" using tj j(1) nth_mem by fastforce
    ultimately show ?thesis using room at by (auto simp: roomy_def)
  qed
qed

lemma read_ok_grows:
  assumes "read_ok past st k t" and "grows st k st' k'" and "past \<subseteq> past'"
  shows "read_ok past' st' k' t"
proof (cases t)
  case (Reader r)
  have f: "found st1 st' k' r j q i off" "fst st' ! j = fst st ! j" if "found st1 st k r j q i off" for st1 j q i off
  proof -
    show "found st1 st' k' r j q i off"
      using that assms(2) by (auto simp: found_def grows_def intro: prefix_order.trans)
    show "fst st' ! j = fst st ! j"
      using found_bounds(1) [OF that] assms(2) by (auto simp: grows_def prefix_def nth_append)
  qed
  show ?thesis
    using assms(1,3) f Reader by (cases "rd_at r") (fastforce simp: read_ok_def)+
qed (simp_all add: read_ok_def)

text \<open>The devices a run has gone through.\<close>

definition history :: "device \<Rightarrow> event list \<Rightarrow> device set" where
  "history st tr = {foldl device_write st (appends tr1) | tr1 tr2. tr = tr1 @ tr2}"

lemma history_snoc: "history st tr \<subseteq> history st (tr @ [ev])"
  by (auto simp: history_def)

lemma history_now: "foldl device_write st (appends tr) \<in> history st tr"
  by (auto simp: history_def)

lemma sys_run_reads:
  assumes "sys_run s tr t" and "sys_inv st s" and "roomy (sys_kernel s) (tasks s)"
    and "list_all (read_ok {st} st (sys_kernel s)) (tasks s)" and "Evict \<notin> set tr"
  shows "roomy (sys_kernel t) (tasks t) \<and>
    list_all (read_ok (history st tr) (foldl device_write st (appends tr)) (sys_kernel t)) (tasks t)"
  using assms
proof (induction rule: run.induct)
  case (Run_Nil s)
  then show ?case by (simp add: history_def)
next
  case (Run_Snoc s tr s1 ev s2)
  let ?st = "foldl device_write st (appends tr)"
  let ?past = "history st tr" and ?past' = "history st (tr @ [ev])"
  have IH: "roomy (sys_kernel s1) (tasks s1)" "list_all (read_ok ?past ?st (sys_kernel s1)) (tasks s1)"
    using Run_Snoc.IH Run_Snoc.prems by auto
  have inv: "sys_inv ?st s1" by (rule sys_run_inv [OF Run_Snoc.hyps(1) Run_Snoc.prems(1)])
  have past: "?past \<subseteq> ?past'" by (rule history_snoc)
  from Run_Snoc.hyps(2) show ?case
  proof cases
    case (Step_Read i ts r miss k r')
    have ring: "ring_ok k (fst ?st)" using ring_now [of ?st k ts] inv IH(1) Step_Read by simp
    have ri: "read_ok ?past ?st k (Reader r)"
      using IH(2) Step_Read nth_mem [of i ts] by (auto simp: list_all_iff)
    then have "read_ok ?past ?st k (Reader r')"
      using Step_Read(6) by (rule read_step_ok [OF ring _ history_now])
    then have "list_all (read_ok ?past ?st k) (ts[i := Reader r'])"
      using IH(2) Step_Read by (auto simp: list_all_iff dest: set_update_subset_insert [THEN subsetD])
    moreover have "grows ?st k ?st k" by (simp add: grows_def)
    moreover have "roomy k (ts[i := Reader r'])"
      using IH(1) Step_Read by (auto simp: roomy_def dest: set_update_subset_insert [THEN subsetD])
    ultimately show ?thesis
      using Step_Read past by (auto simp: list_all_iff intro: read_ok_grows)
  next
    case (Step_Write i ts w k ans k' pc)
    let ?st' = "after_event ?st ev"
    have inv1: "sys_inv ?st \<lparr>sys_kernel = k, tasks = ts\<rparr>" "roomy k ts" "ev = write_event k w pc" "ev \<noteq> Evict"
      using inv IH(1) Step_Write Run_Snoc.prems(4) by auto
    have g: "grows ?st k ?st' k'"
      using write_step_grows [OF inv1(1) Step_Write(4-7) inv1(2)] inv1 by simp
    have "roomy k' (ts[i := Writer (w\<lparr>wr_at := pc\<rparr>)])"
      using write_step_roomy [OF inv1(1) Step_Write(4,5,7) inv1(2)] inv1 by simp
    moreover have "list_all (read_ok ?past' ?st' k') (ts[i := Writer (w\<lparr>wr_at := pc\<rparr>)])"
      using IH(2) Step_Write read_ok_grows [OF _ g past]
      by (auto simp: list_all_iff read_ok_def [of _ _ _ "Writer _"] dest: set_update_subset_insert [THEN subsetD])
    moreover have "?st' = foldl device_write st (appends (tr @ [ev]))" by (cases ev) auto
    ultimately show ?thesis using Step_Write by simp
  next
    case (Step_Seek i ts s ans k k' pc)
    have k': "aesd_cb (aesd_device k') = aesd_cb (aesd_device k)"
      using seek_step_ring [OF Step_Seek(6)] .
    then have g: "grows ?st k ?st k'" by (simp add: grows_def)
    have "roomy k' (ts[i := Seeker (s\<lparr>sk_at := pc\<rparr>)])"
      using IH(1) Step_Seek k' by (auto simp: roomy_def dest: set_update_subset_insert [THEN subsetD])
    moreover have "list_all (read_ok ?past' ?st k') (ts[i := Seeker (s\<lparr>sk_at := pc\<rparr>)])"
      using IH(2) Step_Seek read_ok_grows [OF _ g past]
      by (auto simp: list_all_iff read_ok_def [of _ _ _ "Seeker _"] dest: set_update_subset_insert [THEN subsetD])
    ultimately show ?thesis using Step_Seek by simp
  next
    case (Step_Lseek i ts l k l')
    have "roomy k (ts[i := Lseeker l'])"
      using IH(1) Step_Lseek by (auto simp: roomy_def dest: set_update_subset_insert [THEN subsetD])
    moreover have "list_all (read_ok ?past' ?st k) (ts[i := Lseeker l'])"
      using IH(2) Step_Lseek read_ok_grows [OF _ _ past, of ?st k _ ?st k]
      by (auto simp: grows_def list_all_iff read_ok_def [of _ _ _ "Lseeker _"] dest: set_update_subset_insert [THEN subsetD])
    ultimately show ?thesis using Step_Lseek by simp
  qed
qed

end
