(* ===== verification/Driver_Seekers.thy ===== *)
theory Driver_Seekers
  imports Driver_Readers
begin

text \<open>
  Seeks in interleavings: every \<^verbatim>\<open>AESDCHAR_IOCSEEKTO\<close> request that was not interrupted has the
  result \<^const>\<open>aesd_ioctl\<close> has on the device at rest, at one moment of the run.
\<close>

text \<open>The result \<open>x\<close> of the handler on the kernel at a moment of a run from \<open>s0\<close> when no write is under way.\<close>

definition seek_value :: "sys \<Rightarrow> device \<Rightarrow> event list \<Rightarrow> seeker \<Rightarrow> 64 word \<times> struct_file \<Rightarrow> bool" where
  "seek_value s0 st tr s x \<longleftrightarrow> (\<exists>tr1 tr2 t1 ans. tr = tr1 @ tr2 \<and> sys_run s0 tr1 t1 \<and>
     dev_rel (set_lock False (sys_kernel t1)) (foldl device_write st (appends tr1)) \<and>
     aesd_ioctl (set_lock False (sys_kernel t1)) (sk_filp s) (sk_cmd s) (sk_arg s) ans =
       Inr (fst x, snd x, set_lock False (sys_kernel t1)))"

definition seek_ok :: "sys \<Rightarrow> device \<Rightarrow> event list \<Rightarrow> task \<Rightarrow> bool" where
  "seek_ok s0 st tr t = (case t of Reader r \<Rightarrow> True | Writer w \<Rightarrow> True | Lseeker l \<Rightarrow> True | Seeker s \<Rightarrow>
     (case sk_at s of
        Sk_Call \<Rightarrow> True
      | Sk_Locked \<Rightarrow> sk_cmd s = AESDCHAR_IOCSEEKTO
      | Sk_Found retval filp \<Rightarrow> seek_value s0 st tr s (retval, filp)
      | Sk_Return v \<Rightarrow> v = Inr (- ERESTARTSYS, sk_filp s) \<or> (\<exists>x. v = Inr x \<and> seek_value s0 st tr s x)))"

lemma seek_value_at [simp]: "seek_value s0 st tr (s\<lparr>sk_at := pc\<rparr>) x = seek_value s0 st tr s x"
  by (simp add: seek_value_def)

lemma seek_value_later: "seek_value s0 st tr s x \<Longrightarrow> seek_value s0 st (tr @ tr') s x"
  unfolding seek_value_def by (metis append_assoc)

lemma seek_ok_later: "seek_ok s0 st tr t \<Longrightarrow> seek_ok s0 st (tr @ tr') t"
  by (auto simp: seek_ok_def intro: seek_value_later split: task.splits sk_pc.splits)

lemma set_lock_twice [simp]: "set_lock l (set_lock m k) = set_lock l k"
  by (simp add: set_lock_def)

lemma set_lock_fields [simp]:
  "file_dev (set_lock l k) filp = rbind (file_dev k filp) (\<lambda>d. Inr (d\<lparr>mx_lock := l\<rparr>))"
  by (auto simp: set_lock_def file_dev_def split: option.splits aesd_dev_ref.splits)

text \<open>What a step of a seek does, related to the handler run at once.\<close>

lemma seek_step_value:
  assumes inv: "sys_inv (foldl device_write st (appends tr)) \<lparr>sys_kernel = k, tasks = ts\<rparr>"
    and i: "i < length ts" "ts ! i = Seeker s"
    and run: "sys_run s0 tr \<lparr>sys_kernel = k, tasks = ts\<rparr>" and start: "dev_rel (sys_kernel s0) st"
    and ok: "seek_ok s0 st tr (Seeker s)" and step: "seek_step ans k s = Some (k', pc)"
  shows "seek_ok s0 st tr (Seeker (s\<lparr>sk_at := pc\<rparr>))"
proof -
  have s: "no_write_fault (Seeker s)" using inv i nth_mem [of i ts] by (auto simp: sys_inv_def list_all_iff)
  show ?thesis
  proof (cases "sk_at s")
    case Sk_Call
    then have lock: "seek_lock ans k s = Some (k', pc)" using step by (simp add: seek_step_def)
    show ?thesis
    proof (cases "sk_cmd s \<noteq> AESDCHAR_IOCSEEKTO \<or> missing ans \<noteq> 0 \<or> unat (write_cmd (sk_arg s)) > 10")
      case True
      have "set_lock False (sys_kernel s0) = sys_kernel s0" using start by (simp add: dev_rel_def set_lock_def)
      moreover have "aesd_ioctl (sys_kernel s0) (sk_filp s) (sk_cmd s) (sk_arg s) ans = Inr (- EINVAL, sk_filp s, sys_kernel s0)"
        using True by (auto simp: aesd_ioctl_def)
      ultimately have "seek_value s0 st tr s (- EINVAL, sk_filp s)"
        unfolding seek_value_def using start
        by (intro exI [of _ "[]"] exI [of _ tr] exI [of _ s0] exI [of _ ans]) (simp add: Run_Nil)
      moreover have "pc = Sk_Return (Inr (- EINVAL, sk_filp s))" using lock True by (auto simp: seek_lock_def)
      ultimately show ?thesis by (simp add: seek_ok_def)
    next
      case False
      then show ?thesis
        using lock s
        by (auto simp: seek_lock_def seek_ok_def no_write_fault_def mutex_lock_interruptible_def split: if_splits)
    qed
  next
    case Sk_Locked
    have h: "holds_lock (Seeker s)" using Sk_Locked by simp
    have data: "dev_data k (foldl device_write st (appends tr))"
      using inv_holder(2) [OF inv i h] by (simp add: holder_task_def)
    then have "length (entry (aesd_cb (aesd_device k))) = 10" by (simp add: dev_data_def cb_wf_def)
    moreover have cmd: "unat (write_cmd (sk_arg s)) < 10" using s Sk_Locked by (simp add: no_write_fault_def)
    ultimately obtain retval f where v: "seek_entry (entry (aesd_cb (aesd_device k))) (sk_arg s) (sk_filp s) = Inr (retval, f)"
      using seek_entry_no_fault by fastforce
    have "aesd_ioctl (set_lock False k) (sk_filp s) (sk_cmd s) (sk_arg s) (good_answers 0) = Inr (retval, f, set_lock False k)"
      using ok s v cmd Sk_Locked
      by (simp add: aesd_ioctl_def seek_ok_def no_write_fault_def good_answers_def mutex_lock_interruptible_def file_dev_def)
    moreover have "dev_rel (set_lock False k) (foldl device_write st (appends tr))"
      using data inv by (simp add: dev_rel_def sys_inv_def)
    ultimately have "seek_value s0 st tr s (retval, f)"
      unfolding seek_value_def using run
      by (intro exI [of _ tr] exI [of _ "[]"] exI [of _ "\<lparr>sys_kernel = k, tasks = ts\<rparr>"] exI [of _ "good_answers 0"]) simp
    then show ?thesis using step v Sk_Locked by (auto simp: seek_step_def seek_search_def seek_ok_def)
  next
    case (Sk_Found retval filp)
    then show ?thesis using step ok by (auto simp: seek_step_def seek_ok_def)
  next
    case (Sk_Return v)
    then show ?thesis using step by (simp add: seek_step_def)
  qed
qed

lemma sys_run_seeks:
  assumes "sys_run s tr t" and "sys_inv st s" and "dev_rel (sys_kernel s) st" and "list_all (seek_ok s st []) (tasks s)"
  shows "list_all (seek_ok s st tr) (tasks t)"
  using assms
proof (induction rule: run.induct)
  case (Run_Nil s)
  then show ?case by simp
next
  case (Run_Snoc s tr s1 ev s2)
  have IH: "list_all (seek_ok s st tr) (tasks s1)" using Run_Snoc by blast
  then have past: "list_all (seek_ok s st (tr @ [ev])) (tasks s1)" by (auto simp: list_all_iff intro: seek_ok_later)
  have inv: "sys_inv (foldl device_write st (appends tr)) s1"
    by (rule sys_run_inv [OF Run_Snoc.hyps(1) Run_Snoc.prems(1)])
  from Run_Snoc.hyps(2) show ?case
  proof cases
    case (Step_Seek i ts q ans k k' pc)
    have "seek_ok s st tr (Seeker q)" using IH Step_Seek nth_mem [of i ts] by (auto simp: list_all_iff)
    then have "seek_ok s st tr (Seeker (q\<lparr>sk_at := pc\<rparr>))"
      using seek_step_value [of st tr k ts i q s ans k' pc] inv Run_Snoc.hyps(1) Run_Snoc.prems(2) Step_Seek by simp
    then have "seek_ok s st (tr @ [ev]) (Seeker (q\<lparr>sk_at := pc\<rparr>))" by (rule seek_ok_later)
    then show ?thesis
      using past Step_Seek by (auto simp: list_all_iff dest: set_update_subset_insert [THEN subsetD])
  qed (use past in \<open>auto simp: list_all_iff seek_ok_def [of _ _ _ "Writer _"] seek_ok_def [of _ _ _ "Reader _"] seek_ok_def [of _ _ _ "Lseeker _"]
      dest: set_update_subset_insert [THEN subsetD]\<close>)
qed

text \<open>A seek by itself is a run.\<close>

lemma seeker_run:
  "\<exists>tr k' s'. seek_alone n ans k s = (k', s') \<and>
     sys_run \<lparr>sys_kernel = k, tasks = [Seeker s]\<rparr> tr \<lparr>sys_kernel = k', tasks = [Seeker s']\<rparr> \<and> appends tr = []"
proof (induction n arbitrary: k s)
  case 0
  show ?case by (rule exI [of _ "[]"]) (simp add: Run_Nil)
next
  case (Suc n)
  show ?case
  proof (cases "seek_step ans k s")
    case None
    then show ?thesis by (intro exI [of _ "[]"]) (simp add: Run_Nil)
  next
    case (Some kp)
    obtain k1 pc where kp: "kp = (k1, pc)" by (cases kp)
    let ?s = "s\<lparr>sk_at := pc\<rparr>"
    have "sys_step \<lparr>sys_kernel = k, tasks = [Seeker s]\<rparr> Silent \<lparr>sys_kernel = k1, tasks = [Seeker ?s]\<rparr>"
      using Step_Seek [of 0 "[Seeker s]" s ans k k1 pc] Some kp by simp
    then have one: "sys_run \<lparr>sys_kernel = k, tasks = [Seeker s]\<rparr> [Silent] \<lparr>sys_kernel = k1, tasks = [Seeker ?s]\<rparr>"
      by (rule run_one)
    obtain tr k' s' where "seek_alone n ans k1 ?s = (k', s')" "appends tr = []"
      "sys_run \<lparr>sys_kernel = k1, tasks = [Seeker ?s]\<rparr> tr \<lparr>sys_kernel = k', tasks = [Seeker s']\<rparr>"
      using Suc.IH [of k1 ?s] by blast
    then show ?thesis
      using run_append [OF _ one] Some kp by (intro exI [of _ "[Silent] @ tr"] exI [of _ k'] exI [of _ s']) simp
  qed
qed

end
