(* ===== verification/Driver_Liveness.thy ===== *)
theory Driver_Liveness
  imports Driver_Seekers
begin

text \<open>
  Progress of the driver's tasks: no interleaving goes on for ever, none gets stuck before every
  call has returned, and left in calm every write takes all its bytes. And the exception: a
  failed allocation leaves the mutex locked with nobody to release it.
\<close>

section \<open>Ranks\<close>

fun task_rank :: "task \<Rightarrow> nat" where
  "task_rank (Reader r) = (case rd_at r of Rd_Call \<Rightarrow> 3 | Rd_Entry _ _ \<Rightarrow> 2 | Rd_Copy _ _ _ \<Rightarrow> 1 | Rd_Return _ \<Rightarrow> 0)"
| "task_rank (Writer w) = (case wr_at w of Wr_Call \<Rightarrow> 7 | Wr_Locked \<Rightarrow> 6 | Wr_Filled _ \<Rightarrow> 5 | Wr_Evicted _ \<Rightarrow> 4
     | Wr_Stored _ \<Rightarrow> 3 | Wr_Unlocked _ \<Rightarrow> 2 | Wr_Counting _ _ \<Rightarrow> 1 | Wr_Return _ \<Rightarrow> 0)"
| "task_rank (Seeker s) = (case sk_at s of Sk_Call \<Rightarrow> 3 | Sk_Locked \<Rightarrow> 2 | Sk_Found _ _ \<Rightarrow> 1 | Sk_Return _ \<Rightarrow> 0)"
| "task_rank (Lseeker l) = (case ls_at l of Ls_Call \<Rightarrow> 1 | Ls_Return _ \<Rightarrow> 0)"

definition tasks_rank :: "task list \<Rightarrow> nat" where
  "tasks_rank ts = sum_list (map task_rank ts)"

fun returned :: "task \<Rightarrow> bool" where
  "returned (Reader r) = (\<exists>v. rd_at r = Rd_Return v)"
| "returned (Writer w) = (\<exists>v. wr_at w = Wr_Return v)"
| "returned (Seeker s) = (\<exists>v. sk_at s = Sk_Return v)"
| "returned (Lseeker l) = (\<exists>v. ls_at l = Ls_Return v)"

lemma sum_list_map_upd:
  fixes f :: "'a \<Rightarrow> nat"
  assumes "i < length xs"
  shows "sum_list (map f (xs[i := x])) + f (xs ! i) = sum_list (map f xs) + f x"
  using assms
proof (induction xs arbitrary: i)
  case (Cons a xs)
  then show ?case by (cases i) (use Cons.IH in \<open>auto simp: add.left_commute\<close>)
qed simp

lemma read_step_rank: "read_step miss k r = Some r' \<Longrightarrow> task_rank (Reader r') < task_rank (Reader r)"
  by (cases "rd_at r")
    (auto simp: read_step_def read_search_def read_size_def read_copy_def Let_def split: sum.splits option.splits if_split)

lemma write_step_rank:
  assumes "write_step ans k w = Some (k', pc)"
  shows "task_rank (Writer (w\<lparr>wr_at := pc\<rparr>)) < task_rank (Writer w)"
  using assms
  by (cases "wr_at w")
    (auto simp: write_step_def write_lock_def write_fill_step_def write_evict_step_def write_store_step_def Let_def
      split: sum.splits option.splits if_splits)

lemma seek_step_rank:
  assumes "seek_step ans k s = Some (k', pc)"
  shows "task_rank (Seeker (s\<lparr>sk_at := pc\<rparr>)) < task_rank (Seeker s)"
  using assms
  by (cases "sk_at s") (auto simp: seek_step_def seek_lock_def seek_search_def split: sum.splits if_splits)

lemma task_step_rank:
  assumes "task_step ok calm s ev t"
  shows "tasks_rank (tasks t) < tasks_rank (tasks s)"
  using assms
proof cases
  case (Step_Read i ts r miss k r')
  then show ?thesis
    using read_step_rank [of miss k r r'] sum_list_map_upd [of i ts task_rank "Reader r'"] by (simp add: tasks_rank_def)
next
  case (Step_Write i ts w k ans k' pc)
  then show ?thesis
    using write_step_rank [of ans k w k' pc] sum_list_map_upd [of i ts task_rank "Writer (w\<lparr>wr_at := pc\<rparr>)"]
    by (simp add: tasks_rank_def)
next
  case (Step_Seek i ts s ans k k' pc)
  then show ?thesis
    using seek_step_rank [of ans k s k' pc] sum_list_map_upd [of i ts task_rank "Seeker (s\<lparr>sk_at := pc\<rparr>)"]
    by (simp add: tasks_rank_def)
next
  case (Step_Lseek i ts l k l')
  then show ?thesis
    using lseek_step_call [of k l l'] sum_list_map_upd [of i ts task_rank "Lseeker l'"] by (auto simp: tasks_rank_def)
qed

section \<open>Room for what is under way\<close>

text \<open>The bytes a task may still add to the pending command.\<close>

fun owed :: "task \<Rightarrow> nat" where
  "owed (Writer w) = (case wr_at w of
       Wr_Call \<Rightarrow> (if wr_buf w = None then 0 else unat (wr_count w))
     | Wr_Locked \<Rightarrow> unat (wr_count w)
     | Wr_Filled r \<Rightarrow> length (taken w r)
     | Wr_Evicted r \<Rightarrow> length (taken w r)
     | _ \<Rightarrow> 0)"
| "owed _ = 0"

text \<open>The user's buffer is as long as the count says.\<close>

fun buffer_long :: "task \<Rightarrow> bool" where
  "buffer_long (Writer w) = (case wr_buf w of None \<Rightarrow> True | Some ub \<Rightarrow> unat (wr_count w) \<le> length ub)"
| "buffer_long _ = True"

definition live_inv :: "device \<Rightarrow> sys \<Rightarrow> bool" where
  "live_inv st s \<longleftrightarrow> sys_inv st s \<and> finite (dom (kheap (sys_kernel s))) \<and>
     length (snd st) + sum_list (map owed (tasks s)) < 2 ^ 59 \<and> list_all buffer_long (tasks s)"

subsection \<open>Finite heaps\<close>

lemma mem_write_finite: "mem_write h p off bs = Inr h' \<Longrightarrow> finite (dom h) \<Longrightarrow> finite (dom h')"
  by (auto simp: mem_write_def mem_block_def split: if_splits ptr.splits option.splits sum.splits)

lemma kfree_finite: "kfree h p = Inr h' \<Longrightarrow> finite (dom h) \<Longrightarrow> finite (dom h')"
  by (auto simp: kfree_def split: if_splits ptr.splits)

lemma kmalloc_finite: "kmalloc a h n = (p, h') \<Longrightarrow> finite (dom h) \<Longrightarrow> finite (dom h')"
  by (auto simp: kmalloc_def split: if_splits option.splits)

lemma krealloc_finite: "krealloc a h p n = Inr (q, h') \<Longrightarrow> finite (dom h) \<Longrightarrow> finite (dom h')"
  using kfree_finite [of h p] kmalloc_finite [of a h n]
  by (auto simp: krealloc_def rbind_eq_Inr_iff split: if_splits option.splits)

lemma write_fill_finite:
  assumes "write_fill k ub count ans = Inr (res, k')" and "finite (dom (kheap k))"
  shows "finite (dom (kheap k'))"
  using assms
  by (auto simp: write_fill_def rbind_eq_Inr_iff copy_from_user_def Let_def split: if_splits prod.splits
      dest!: krealloc_finite kmalloc_finite mem_write_finite)

lemma write_evict_finite: "write_evict h cb = Inr (h', cb') \<Longrightarrow> finite (dom h) \<Longrightarrow> finite (dom h')"
  by (auto simp: write_evict_def rbind_eq_Inr_iff split: if_splits dest: kfree_finite)

lemma write_step_finite:
  assumes "write_step ans k w = Some (k', pc)" and "finite (dom (kheap k))"
  shows "finite (dom (kheap k'))"
  using assms
  by (cases "wr_at w")
    (auto simp: write_step_def write_lock_def write_fill_step_def write_evict_step_def write_store_step_def Let_def
      set_lock_def set_dev_def split: sum.splits option.splits if_splits dest: write_fill_finite write_evict_finite)

lemma seek_step_finite: "seek_step ans k s = Some (k', pc) \<Longrightarrow> kheap k' = kheap k"
  by (auto simp: seek_step_def seek_lock_def set_lock_def split: sk_pc.splits sum.splits if_splits)

subsection \<open>The pending command\<close>

lemma write_fill_retval: "write_fill k ub count ans = Inr (Some r, k1) \<Longrightarrow> r = count - missing ans"
  by (auto simp: write_fill_def rbind_eq_Inr_iff Let_def split: if_splits prod.splits)

lemma device_write_pending: "length (snd (device_write st bs)) \<le> length (snd st) + length bs"
  by (simp add: device_write_def Let_def)

lemma write_step_owed:
  assumes "write_step ans k w = Some (k', pc)" and "fill_ok k w ans"
  shows "length (snd (after_event st (write_event k w pc))) + owed (Writer (w\<lparr>wr_at := pc\<rparr>)) \<le>
    length (snd st) + owed (Writer w)"
proof (cases "wr_at w")
  case Wr_Locked
  then obtain ub where ub: "wr_buf w = Some ub" "missing ans \<le> wr_count w"
    using assms(2) by (auto simp: fill_ok_def answers_ok_def split: option.splits)
  then have le: "length (take (unat (wr_count w - missing ans)) ub) \<le> unat (wr_count w)"
    using unat_sub_le [OF ub(2)] by simp
  show ?thesis
  proof (cases "\<exists>r. pc = Wr_Filled r")
    case True
    then obtain r where r: "pc = Wr_Filled r" ..
    then have "r = wr_count w - missing ans"
      using assms(1) Wr_Locked ub
      by (auto simp: write_step_def write_fill_step_def split: sum.splits option.splits intro: write_fill_retval)
    then show ?thesis using r Wr_Locked ub le by (simp add: write_event_def taken_def)
  next
    case False
    then show ?thesis
      using assms(1) Wr_Locked ub
      by (auto simp: write_step_def write_fill_step_def write_event_def split: sum.splits option.splits)
  qed
qed (use assms(1) in \<open>auto simp: write_step_def write_lock_def write_evict_step_def write_store_step_def
    write_event_def Let_def device_write_pending split: sum.splits option.splits if_splits\<close>)

section \<open>Nobody waits for ever\<close>

lemma live_inv_step:
  assumes "sys_step s ev t" and "live_inv st s"
  shows "live_inv (after_event st ev) t"
proof -
  have inv: "sys_inv (after_event st ev) t" using assms sys_step_inv by (simp add: live_inv_def)
  from assms(1) show ?thesis
  proof cases
    case (Step_Read i ts r miss k r')
    then show ?thesis
      using assms(2) inv sum_list_map_upd [of i ts owed "Reader r'"]
      by (auto simp: live_inv_def list_all_iff dest: set_update_subset_insert [THEN subsetD])
  next
    case (Step_Write i ts w k ans k' pc)
    have "buffer_long (Writer w)"
      using assms(2) Step_Write nth_mem [of i ts] by (auto simp: live_inv_def list_all_iff simp del: buffer_long.simps)
    then have "buffer_long (Writer (w\<lparr>wr_at := pc\<rparr>))" by (simp split: option.splits)
    then have "list_all buffer_long (ts[i := Writer (w\<lparr>wr_at := pc\<rparr>)])"
      using assms(2) Step_Write
      by (auto simp: live_inv_def list_all_iff simp del: buffer_long.simps dest: set_update_subset_insert [THEN subsetD])
    then show ?thesis
      using assms(2) inv Step_Write write_step_owed [of ans k w k' pc st] write_step_finite [of ans k w k' pc]
        sum_list_map_upd [of i ts owed "Writer (w\<lparr>wr_at := pc\<rparr>)"]
      by (simp add: live_inv_def)
  next
    case (Step_Seek i ts s ans k k' pc)
    then show ?thesis
      using assms(2) inv sum_list_map_upd [of i ts owed "Seeker (s\<lparr>sk_at := pc\<rparr>)"] seek_step_finite [of ans k s k' pc]
      by (auto simp: live_inv_def list_all_iff dest: set_update_subset_insert [THEN subsetD])
  next
    case (Step_Lseek i ts l k l')
    then show ?thesis
      using assms(2) inv sum_list_map_upd [of i ts owed "Lseeker l'"]
      by (auto simp: live_inv_def list_all_iff dest: set_update_subset_insert [THEN subsetD])
  qed
qed

text \<open>A kernel that works can always grant an allocation.\<close>

lemma free_address: "finite (dom (h :: heap)) \<Longrightarrow> \<exists>a. a \<noteq> 16 \<and> h a = None"
  using ex_new_if_finite [of "insert 16 (dom h)"] by (auto simp: dom_def)

lemma live_fill_answer:
  assumes inv: "live_inv st \<lparr>sys_kernel = k, tasks = ts\<rparr>" and i: "i < length ts" "ts ! i = Writer w"
    and w: "wr_at w = Wr_Locked"
  shows "\<exists>a. fill_ok k w (good_answers a)"
proof -
  obtain a where a: "a \<noteq> 16" "kheap k a = None"
    using inv free_address [of "kheap k"] by (auto simp: live_inv_def)
  have "sys_inv st \<lparr>sys_kernel = k, tasks = ts\<rparr>" using inv by (simp add: live_inv_def)
  then have h: "holder_ok st k w" using inv_holder_ok i w by simp
  then obtain ub where ub: "wr_buf w = Some ub" by (auto simp: holder_ok_def)
  have "unat (tmp_size (aesd_device k)) = length (snd st)" using h w by (simp add: holder_ok_def dev_data_def)
  moreover have "owed (Writer w) \<le> sum_list (map owed ts)"
    using i elem_le_sum_list [of i "map owed ts"] by simp
  moreover have "buffer_long (Writer w)" using inv i nth_mem [of i ts] by (auto simp: live_inv_def list_all_iff)
  ultimately have "answers_ok k ub (wr_count w) (good_answers a)"
    using inv a ub w by (simp add: answers_ok_def good_answers_def live_inv_def)
  then show ?thesis using ub by (auto simp: fill_ok_def)
qed

lemma calm_good: "calm_answers (good_answers a)"
  by (simp add: calm_answers_def good_answers_def)

lemma live_writer_steps:
  assumes inv: "live_inv st \<lparr>sys_kernel = k, tasks = ts\<rparr>" and i: "i < length ts" "ts ! i = Writer w"
    and w: "\<not> returned (Writer w)" "wr_at w = Wr_Call \<Longrightarrow> \<not> mx_lock (aesd_device k)"
  shows "\<exists>ev t. calm_step \<lparr>sys_kernel = k, tasks = ts\<rparr> ev t"
proof -
  obtain a where a: "fill_ok k w (good_answers a)"
  proof (cases "wr_at w = Wr_Locked")
    case True
    then show ?thesis using live_fill_answer [OF inv i] that by blast
  qed (auto simp: fill_ok_def intro: that)
  have "sys_inv st \<lparr>sys_kernel = k, tasks = ts\<rparr>" using inv by (simp add: live_inv_def)
  then have "private_data (wr_filp w) = Some Ref_aesd_device" by (rule task_fault_inv [OF _ i])
  then have "write_step (good_answers a) k w \<noteq> None"
    using w by (cases "wr_at w")
      (auto simp: write_step_def write_lock_def mutex_lock_interruptible_def split: option.splits)
  then obtain k' pc where "write_step (good_answers a) k w = Some (k', pc)" by auto
  then show ?thesis using Step_Write [OF i, of fill_ok k "good_answers a"] a calm_good by blast
qed

lemma live_seeker_steps:
  assumes inv: "live_inv st \<lparr>sys_kernel = k, tasks = ts\<rparr>" and i: "i < length ts" "ts ! i = Seeker s"
    and s: "\<not> returned (Seeker s)" "sk_at s = Sk_Call \<Longrightarrow> \<not> mx_lock (aesd_device k)"
  shows "\<exists>ev t. calm_step \<lparr>sys_kernel = k, tasks = ts\<rparr> ev t"
proof -
  have "private_data (sk_filp s) = Some Ref_aesd_device"
    using inv i nth_mem [of i ts] by (auto simp: live_inv_def sys_inv_def list_all_iff no_write_fault_def)
  then have "seek_step (good_answers 0) k s \<noteq> None"
    using s by (cases "sk_at s") (auto simp: seek_step_def seek_lock_def mutex_lock_interruptible_def)
  then obtain k' pc where "seek_step (good_answers 0) k s = Some (k', pc)" by auto
  then show ?thesis using Step_Seek [OF i, of "good_answers 0" k] calm_good by blast
qed

lemma live_progress:
  assumes "live_inv st s" and "\<not> list_all returned (tasks s)"
  shows "\<exists>ev t. calm_step s ev t"
proof -
  obtain k ts where s: "s = \<lparr>sys_kernel = k, tasks = ts\<rparr>" by (cases s) simp
  have inv: "live_inv st \<lparr>sys_kernel = k, tasks = ts\<rparr>" using assms(1) s by simp
  obtain i where i: "i < length ts" "\<not> returned (ts ! i)" "mx_lock (aesd_device k) \<longrightarrow> holds_lock (ts ! i)"
  proof (cases "mx_lock (aesd_device k)")
    case True
    then obtain j where "j < length ts" "holds_lock (ts ! j)"
      using inv by (auto simp: live_inv_def sys_inv_def)
    moreover have "\<not> returned (ts ! j)" if "holds_lock (ts ! j)" using that by (cases "ts ! j") auto
    ultimately show ?thesis using that by blast
  next
    case False
    obtain j where "j < length ts" "\<not> returned (ts ! j)"
      using assms(2) s by (auto simp: list_all_length)
    then show ?thesis using that False by blast
  qed
  show ?thesis
  proof (cases "ts ! i")
    case (Reader r)
    then obtain r' where "read_step 0 k r = Some r'" using i(2) by (cases "rd_at r") (auto simp: read_step_def)
    then show ?thesis using s task_step.Step_Read [OF i(1) Reader] by blast
  next
    case (Writer w)
    then have "wr_at w = Wr_Call \<Longrightarrow> \<not> mx_lock (aesd_device k)" using i(3) by auto
    then show ?thesis using s live_writer_steps [OF inv i(1) Writer] i(2) Writer by simp
  next
    case (Seeker q)
    then have "sk_at q = Sk_Call \<Longrightarrow> \<not> mx_lock (aesd_device k)" using i(3) by auto
    then show ?thesis using s live_seeker_steps [OF inv i(1) Seeker] i(2) Seeker by simp
  next
    case (Lseeker l)
    then obtain l' where "lseek_step k l = Some l'" using i(2) by (cases "ls_at l") (auto simp: lseek_step_def)
    then show ?thesis using s task_step.Step_Lseek [OF i(1) Lseeker] by blast
  qed
qed

lemma calm_is_step: "calm_step s ev t \<Longrightarrow> sys_step s ev t"
  by (erule task_step_mono) simp_all

interpretation any_tasks: finishing_machine sys_step "\<lambda>st. live_inv st" after_event
  "\<lambda>s. tasks_rank (tasks s)" "\<lambda>s. list_all returned (tasks s)"
  by unfold_locales (use live_inv_step task_step_rank live_progress calm_is_step in blast)+

text \<open>In calm as well.\<close>

interpretation live_tasks: finishing_machine calm_step "\<lambda>st. live_inv st" after_event
  "\<lambda>s. tasks_rank (tasks s)" "\<lambda>s. list_all returned (tasks s)"
  by unfold_locales (auto intro: live_inv_step calm_is_step task_step_rank live_progress)

section \<open>Calm runs\<close>

text \<open>A write on its way to return \<open>c\<close>.\<close>

definition on_its_way :: "size_t \<Rightarrow> task \<Rightarrow> bool" where
  "on_its_way c t = (case t of
      Writer w \<Rightarrow> private_data (wr_filp w) = Some Ref_aesd_device \<and> wr_buf w \<noteq> None \<and> wr_count w = c \<and>
        (case wr_at w of
           Wr_Call \<Rightarrow> True
         | Wr_Locked \<Rightarrow> True
         | Wr_Filled r \<Rightarrow> r = c
         | Wr_Evicted r \<Rightarrow> r = c
         | Wr_Stored r \<Rightarrow> r = c
         | Wr_Unlocked r \<Rightarrow> r = c
         | Wr_Counting r n \<Rightarrow> r = c
         | Wr_Return v \<Rightarrow> v = Inr c)
    | _ \<Rightarrow> False)"

lemma calm_write_step:
  assumes inv: "sys_inv st \<lparr>sys_kernel = k, tasks = ts\<rparr>" and i: "i < length ts" "ts ! i = Writer w"
    and ok: "fill_ok k w ans" "calm_answers ans" and step: "write_step ans k w = Some (k', pc)"
    and way: "on_its_way c (Writer w)"
  shows "on_its_way c (Writer (w\<lparr>wr_at := pc\<rparr>))"
proof (cases "wr_at w")
  case Wr_Call
  then show ?thesis
    using way step ok(2)
    by (auto simp: write_step_def write_lock_def mutex_lock_interruptible_def on_its_way_def calm_answers_def
        split: option.splits if_splits)
next
  case Wr_Locked
  then have "holder_ok st k w" using inv_holder_ok [OF inv i] by simp
  then obtain k1 r where r: "write_fill_step ans k w = (k1, Wr_Filled r)" using fill_step_ok Wr_Locked ok(1) by blast
  then have "r = wr_count w - missing ans"
    by (auto simp: write_fill_step_def split: option.splits sum.splits prod.splits intro: write_fill_retval)
  then show ?thesis
    using r step way Wr_Locked ok(2) by (auto simp: write_step_def on_its_way_def calm_answers_def)
next
  case (Wr_Filled r)
  then have "holder_ok st k w" using inv_holder_ok [OF inv i] by simp
  then have "pc = Wr_Evicted r \<or> pc = Wr_Stored r"
    using evict_step_ok [OF _ Wr_Filled] step Wr_Filled by (fastforce simp: write_step_def)
  then show ?thesis using way Wr_Filled by (auto simp: on_its_way_def)
next
  case (Wr_Evicted r)
  then have "holder_ok st k w" using inv_holder_ok [OF inv i] by simp
  then have "pc = Wr_Stored r" using store_step_ok [OF _ Wr_Evicted, of st k ans] step Wr_Evicted by (auto simp: write_step_def)
  then show ?thesis using way Wr_Evicted by (auto simp: on_its_way_def)
qed (use step way in \<open>auto simp: write_step_def on_its_way_def\<close>)

lemma calm_run_way:
  assumes "run calm_step s tr t" and "sys_inv st s" and "i < length (tasks s)" and "on_its_way c (tasks s ! i)"
  shows "i < length (tasks t) \<and> on_its_way c (tasks t ! i)"
  using assms
proof (induction rule: run.induct)
  case (Run_Snoc s tr s1 ev s2)
  have IH: "i < length (tasks s1)" "on_its_way c (tasks s1 ! i)" using Run_Snoc by blast+
  have inv: "sys_inv (foldl device_write st (appends tr)) s1"
    using sys_run_inv [OF run_mono [OF Run_Snoc.hyps(1) calm_is_step] Run_Snoc.prems(1)] .
  from Run_Snoc.hyps(2) show ?case
  proof cases
    case (Step_Read j ts r miss k r')
    then show ?thesis using IH by (cases "j = i") (auto simp: on_its_way_def)
  next
    case (Step_Write j ts w k ans k' pc)
    then show ?thesis
      using IH inv calm_write_step [of _ k ts j w ans k' pc c] by (cases "j = i") auto
  next
    case (Step_Seek j ts q ans k k' pc)
    then show ?thesis using IH by (cases "j = i") (auto simp: on_its_way_def)
  next
    case (Step_Lseek j ts l k l')
    then show ?thesis using IH by (cases "j = i") (auto simp: on_its_way_def)
  qed
qed simp

section \<open>A mutex nobody releases\<close>

definition orphaned :: "sys \<Rightarrow> bool" where
  "orphaned s \<longleftrightarrow> mx_lock (aesd_device (sys_kernel s)) \<and> (\<forall>t \<in> set (tasks s). \<not> holds_lock t)"

text \<open>A call that has not got past the mutex: it waits, or was refused before it or interrupted.\<close>

fun turned_away :: "task \<Rightarrow> bool" where
  "turned_away (Reader r) = False"
| "turned_away (Writer w) = (private_data (wr_filp w) = Some Ref_aesd_device \<and>
     wr_at w \<in> {Wr_Call, Wr_Return (Inr (- EFAULT)), Wr_Return (Inr (- ERESTARTSYS))})"
| "turned_away (Seeker s) = (private_data (sk_filp s) = Some Ref_aesd_device \<and>
     sk_at s \<in> {Sk_Call, Sk_Return (Inr (- EINVAL, sk_filp s)), Sk_Return (Inr (- ERESTARTSYS, sk_filp s))})"
| "turned_away (Lseeker l) = False"

lemma orphan_write_step:
  assumes "write_step ans k w = Some (k', pc)" and "mx_lock (aesd_device k)" and "\<not> holds_lock (Writer w)"
  shows "same_device k k' \<and> mx_lock (aesd_device k') \<and> \<not> holds_lock (Writer (w\<lparr>wr_at := pc\<rparr>)) \<and>
    write_event k w pc = Silent \<and> (turned_away (Writer w) \<longrightarrow> turned_away (Writer (w\<lparr>wr_at := pc\<rparr>)))"
proof (cases "wr_at w")
  case Wr_Call
  then show ?thesis
    using assms by (auto simp: write_step_def write_lock_def mutex_lock_interruptible_def write_event_def file_dev_def
        split: option.splits if_splits aesd_dev_ref.splits)
qed (use assms in \<open>auto simp: write_step_def write_event_def\<close>)

lemma orphan_seek_step:
  assumes "seek_step ans k s = Some (k', pc)" and "mx_lock (aesd_device k)" and "\<not> holds_lock (Seeker s)"
  shows "k' = k \<and> \<not> holds_lock (Seeker (s\<lparr>sk_at := pc\<rparr>)) \<and>
    (turned_away (Seeker s) \<longrightarrow> turned_away (Seeker (s\<lparr>sk_at := pc\<rparr>)))"
proof (cases "sk_at s")
  case Sk_Call
  then show ?thesis
    using assms by (auto simp: seek_step_def seek_lock_def mutex_lock_interruptible_def file_dev_def
        split: option.splits if_splits aesd_dev_ref.splits)
qed (use assms in \<open>auto simp: seek_step_def\<close>)

lemma orphan_step:
  assumes "wild_step s ev t" and "orphaned s"
  shows "orphaned t \<and> same_device (sys_kernel s) (sys_kernel t) \<and> ev = Silent \<and>
    length (tasks t) = length (tasks s) \<and> (\<forall>i < length (tasks s). turned_away (tasks s ! i) \<longrightarrow> turned_away (tasks t ! i))"
  using assms(1)
proof cases
  case (Step_Read i ts r miss k r')
  then show ?thesis
    using assms(2) by (auto simp: orphaned_def nth_list_update dest: set_update_subset_insert [THEN subsetD])
next
  case (Step_Write i ts w k ans k' pc)
  then have "\<not> holds_lock (Writer w)" "mx_lock (aesd_device k)" using assms(2) nth_mem [of i ts] by (auto simp: orphaned_def)
  then show ?thesis
    using Step_Write assms(2) orphan_write_step [of ans k w k' pc]
    by (auto simp: orphaned_def nth_list_update simp del: holds_lock.simps turned_away.simps
        dest: set_update_subset_insert [THEN subsetD])
next
  case (Step_Seek i ts s ans k k' pc)
  then have "\<not> holds_lock (Seeker s)" "mx_lock (aesd_device k)" using assms(2) nth_mem [of i ts] by (auto simp: orphaned_def)
  then show ?thesis
    using Step_Seek assms(2) orphan_seek_step [of ans k s k' pc]
    by (auto simp: orphaned_def nth_list_update simp del: holds_lock.simps turned_away.simps
        dest: set_update_subset_insert [THEN subsetD])
next
  case (Step_Lseek i ts l k l')
  then show ?thesis
    using assms(2) by (auto simp: orphaned_def nth_list_update dest: set_update_subset_insert [THEN subsetD])
qed

lemma orphan_run:
  assumes "run wild_step s tr t" and "orphaned s"
  shows "orphaned t \<and> same_device (sys_kernel s) (sys_kernel t) \<and> appends tr = [] \<and>
    length (tasks t) = length (tasks s) \<and> (\<forall>i < length (tasks s). turned_away (tasks s ! i) \<longrightarrow> turned_away (tasks t ! i))"
  using assms
proof (induction rule: run.induct)
  case (Run_Snoc s tr s1 ev s2)
  then have 1: "orphaned s1" "same_device (sys_kernel s) (sys_kernel s1)" "appends tr = []" "length (tasks s1) = length (tasks s)"
    "\<forall>i < length (tasks s). turned_away (tasks s ! i) \<longrightarrow> turned_away (tasks s1 ! i)" by blast+
  show ?case using orphan_step [OF Run_Snoc.hyps(2) 1(1)] 1 by (auto simp: same_device_def)
qed simp

lemma failed_fill_orphans:
  assumes inv: "sys_inv st \<lparr>sys_kernel = k, tasks = ts\<rparr>" and i: "i < length ts" "ts ! i = Writer w"
    and w: "wr_at w = Wr_Locked" "0 < wr_count w" "unat (tmp_size (aesd_device k)) + unat (wr_count w) < 2 ^ 59"
    and none: "alloc ans = None"
  shows "\<exists>k'. write_step ans k w = Some (k', Wr_Return (Inr (- ENOMEM))) \<and> kheap k' = kheap k \<and>
    tmp_buf (aesd_device k') = NULL \<and>
    orphaned \<lparr>sys_kernel = k', tasks = ts[i := Writer (w\<lparr>wr_at := Wr_Return (Inr (- ENOMEM))\<rparr>)]\<rparr>"
proof -
  let ?k = "k\<lparr>aesd_device := (aesd_device k)\<lparr>tmp_buf := NULL\<rparr>\<rparr>" and ?w = "w\<lparr>wr_at := Wr_Return (Inr (- ENOMEM))\<rparr>"
  have h: "holds_lock (Writer w)" using w(1) by simp
  have "holder_ok st k w" by (rule inv_holder_ok [OF inv i h])
  then obtain ub where ub: "wr_buf w = Some ub" "dev_data k st" using w(1) by (auto simp: holder_ok_def)
  then have "write_fill k ub (wr_count w) ans = Inr (None, ?k)" using write_fill_alloc_fails w none by blast
  then have "write_step ans k w = Some (?k, Wr_Return (Inr (- ENOMEM)))"
    using w(1) ub(1) by (simp add: write_step_def write_fill_step_def)
  moreover have "\<not> holds_lock t" if t: "t \<in> set (ts[i := Writer ?w])" for t
  proof -
    obtain j where "j < length ts" "t = ts[i := Writer ?w] ! j"
      using t unfolding in_set_conv_nth by auto
    then show ?thesis using inv_holder(3) [OF inv i h, of j] by (cases "j = i") simp_all
  qed
  moreover have "mx_lock (aesd_device ?k)" using inv_holder(1) [OF inv i h] by simp
  ultimately show ?thesis by (intro exI [of _ ?k]) (simp add: orphaned_def)
qed

end
