(* ===== verification/Concurrency_Properties.thy ===== *)
theory Concurrency_Properties
  imports Driver_Schedules Driver_Liveness
begin

text \<open>
  The theorems about concurrent calls of the driver's handlers, each with an instance at a
  concrete kernel state.
\<close>

text \<open>Instances: a write of one command, a read at the start of the device.\<close>

definition hi_writer :: writer where
  "hi_writer = writer_call (opened_file 0) (Some (''hi'' @ [NEWLINE])) 3"

definition start_reader :: reader where
  "start_reader = reader_call (opened_file 0) (Ptr 1) 5 0"

lemma reader_run:
  "\<exists>tr. sys_run \<lparr>sys_kernel = k, tasks = [Reader r]\<rparr> tr \<lparr>sys_kernel = k, tasks = [Reader (read_alone n miss k r)]\<rparr> \<and>
     Evict \<notin> set tr \<and> appends tr = []"
proof (induction n arbitrary: r)
  case 0
  show ?case by (rule exI [of _ "[]"]) (simp add: Run_Nil)
next
  case (Suc n)
  show ?case
  proof (cases "read_step miss k r")
    case None
    then show ?thesis by (intro exI [of _ "[]"]) (simp add: Run_Nil)
  next
    case (Some r')
    have "sys_step \<lparr>sys_kernel = k, tasks = [Reader r]\<rparr> Silent \<lparr>sys_kernel = k, tasks = [Reader r']\<rparr>"
      using Step_Read [of 0 "[Reader r]" r miss k r'] Some by simp
    then have one: "sys_run \<lparr>sys_kernel = k, tasks = [Reader r]\<rparr> [Silent] \<lparr>sys_kernel = k, tasks = [Reader r']\<rparr>"
      by (rule run_one)
    obtain tr where "sys_run \<lparr>sys_kernel = k, tasks = [Reader r']\<rparr> tr
        \<lparr>sys_kernel = k, tasks = [Reader (read_alone n miss k r')]\<rparr>" "Evict \<notin> set tr" "appends tr = []"
      using Suc.IH [of r'] by blast
    then show ?thesis using run_append [OF _ one] Some by (intro exI [of _ "[Silent] @ tr"]) simp
  qed
qed


text \<open>
  C10: Writes are serialised. However the steps of any number of writes, reads, seeks and llseeks
  are interleaved, at most one task is between taking and releasing the mutex, the mutex is held
  exactly then, no write meets a fault, and whenever the mutex is free the device is the one
  that results from the completed appends, one after the other.
\<close>

theorem writes_serialised:
  assumes "dev_rel k st" and "list_all task_start ts" and "sys_run \<lparr>sys_kernel = k, tasks = ts\<rparr> tr t"
  shows "(mx_lock (aesd_device (sys_kernel t)) \<longleftrightarrow> (\<exists>u \<in> set (tasks t). holds_lock u)) \<and>
    (\<forall>i j. i < length (tasks t) \<longrightarrow> j < length (tasks t) \<longrightarrow>
      holds_lock (tasks t ! i) \<longrightarrow> holds_lock (tasks t ! j) \<longrightarrow> i = j) \<and>
    (\<forall>w e. Writer w \<in> set (tasks t) \<longrightarrow> wr_at w \<noteq> Wr_Return (Inl e)) \<and>
    (\<not> mx_lock (aesd_device (sys_kernel t)) \<longrightarrow>
      dev_rel (sys_kernel t) (foldl device_write st (appends tr)))"
proof -
  have inv: "sys_inv (foldl device_write st (appends tr)) t"
    by (rule sys_run_inv [OF assms(3) sys_inv_start [OF assms(1,2)]])
  then have "wr_at w \<noteq> Wr_Return (Inl e)" if "Writer w \<in> set (tasks t)" for w e
    using that by (auto simp: sys_inv_def list_all_iff no_write_fault_def)
  moreover have "dev_rel (sys_kernel t) (foldl device_write st (appends tr))" if "\<not> mx_lock (aesd_device (sys_kernel t))"
    using inv that by (simp add: sys_inv_def dev_rel_def)
  ultimately show ?thesis using sys_inv_mutex [OF inv] by blast
qed

theorem writes_serialised_witness:
  "\<exists>tr k' w. sys_run \<lparr>sys_kernel = fresh_kernel, tasks = [Writer hi_writer]\<rparr> tr \<lparr>sys_kernel = k', tasks = [Writer w]\<rparr> \<and>
     wr_at w = Wr_Unlocked 3 \<and> dev_rel k' (foldl device_write empty_device (appends tr))"
proof -
  have "answers_ok fresh_kernel (''hi'' @ [NEWLINE]) 3 (good_answers 100)"
    using fresh_answers_ok [of 100 "''hi'' @ [NEWLINE]"] by simp
  then obtain tr k' where run: "sys_run \<lparr>sys_kernel = fresh_kernel, tasks = [Writer hi_writer]\<rparr> tr
      \<lparr>sys_kernel = k', tasks = [Writer (hi_writer\<lparr>wr_at := Wr_Unlocked 3\<rparr>)]\<rparr>"
    using schedule_write [OF Run_Nil, of 0 "[Writer hi_writer]" hi_writer _ fresh_kernel _ "good_answers 100", OF _ _ _ _ _ fresh_dev_rel]
    by (auto simp: hi_writer_def writer_call_def good_answers_def)
  have "list_all task_start [Writer hi_writer]" by (simp add: task_start_def hi_writer_def writer_call_def)
  then show ?thesis
    using writes_serialised [OF fresh_dev_rel _ run] run by (intro exI conjI) (auto simp: hi_writer_def)
qed



text \<open>
  C12: Seeks against writes. In an interleaving of any calls, a seek that has
  returned met no fault; unless a signal interrupted its wait for the mutex, its result and its
  new file position are those the handler has when it runs at once on the device as it was, with
  no write under way, at one moment of the run.
\<close>

theorem seeks_linearise:
  assumes "dev_rel k st" and "list_all task_start ts" and "sys_run \<lparr>sys_kernel = k, tasks = ts\<rparr> tr t"
    and "Seeker s \<in> set (tasks t)" and "sk_at s = Sk_Return v" and "v \<noteq> Inr (- ERESTARTSYS, sk_filp s)"
  shows "\<exists>tr1 tr2 t1 k1 ans r f. tr = tr1 @ tr2 \<and> sys_run \<lparr>sys_kernel = k, tasks = ts\<rparr> tr1 t1 \<and>
    k1 = set_lock False (sys_kernel t1) \<and> dev_rel k1 (foldl device_write st (appends tr1)) \<and>
    v = Inr (r, f) \<and> aesd_ioctl k1 (sk_filp s) (sk_cmd s) (sk_arg s) ans = Inr (r, f, k1)"
proof -
  let ?s = "\<lparr>sys_kernel = k, tasks = ts\<rparr>"
  have "list_all (seek_ok ?s st []) (tasks ?s)"
    using assms(2) by (auto simp: list_all_iff task_start_def seek_ok_def split: task.splits)
  then have "list_all (seek_ok ?s st tr) (tasks t)"
    using sys_run_seeks [OF assms(3) sys_inv_start [OF assms(1,2)]] assms(1) by simp
  then obtain x where x: "v = Inr x" "seek_value ?s st tr s x"
    using assms(4-6) by (fastforce simp: list_all_iff seek_ok_def)
  then show ?thesis by (cases x) (auto simp: seek_value_def)
qed

lemma seek_wrapped:
  "aesd_ioctl wrapped_kernel (opened_file 0) AESDCHAR_IOCSEEKTO \<lparr>write_cmd = 1, write_cmd_offset = 0\<rparr> (good_answers 0) =
     Inr (0, opened_file 11, wrapped_kernel)"
  by (simp add: aesd_ioctl_def seek_entry_def wrapped_kernel_def good_answers_def mutex_lock_interruptible_def
      opened_file_dev file_dev_def opened_file_def set_lock_def fresh_fields seek_loop.simps wrapped_cmds_def)

theorem seeks_linearise_witness:
  "\<exists>tr t s k1. sys_run \<lparr>sys_kernel = wrapped_kernel, tasks =
       [Seeker (seeker_call (opened_file 0) AESDCHAR_IOCSEEKTO \<lparr>write_cmd = 1, write_cmd_offset = 0\<rparr>)]\<rparr> tr t \<and>
     Seeker s \<in> set (tasks t) \<and> sk_at s = Sk_Return (Inr (0, opened_file 11)) \<and>
     (\<exists>ans. aesd_ioctl k1 (sk_filp s) (sk_cmd s) (sk_arg s) ans = Inr (0, opened_file 11, k1))"
proof -
  let ?q = "seeker_call (opened_file 0) AESDCHAR_IOCSEEKTO \<lparr>write_cmd = 1, write_cmd_offset = 0\<rparr>"
  let ?s = "\<lparr>sys_kernel = wrapped_kernel, tasks = [Seeker ?q]\<rparr>"
  obtain tr k' q where run: "seek_alone 3 (good_answers 0) wrapped_kernel ?q = (k', q)"
    "sys_run ?s tr \<lparr>sys_kernel = k', tasks = [Seeker q]\<rparr>"
    using seeker_run by blast
  have q: "sk_at q = Sk_Return (Inr (0, opened_file 11))"
    using seek_alone_aesd_ioctl [where k = wrapped_kernel and filp = "opened_file 0" and cmd = AESDCHAR_IOCSEEKTO
        and seek = "\<lparr>write_cmd = 1, write_cmd_offset = 0\<rparr>" and ans = "good_answers 0"] seek_wrapped run(1) by auto
  have start: "list_all task_start [Seeker ?q]" by (simp add: task_start_def seeker_call_def)
  have mem: "Seeker q \<in> set (tasks \<lparr>sys_kernel = k', tasks = [Seeker q]\<rparr>)" by simp
  obtain k1 ans where "aesd_ioctl k1 (sk_filp q) (sk_cmd q) (sk_arg q) ans = Inr (0, opened_file 11, k1)"
    using seeks_linearise [OF wrapped_dev_rel start run(2) mem q] by auto
  then show ?thesis using run(2) q by (intro exI conjI) auto
qed

text \<open>
  C15: A read against an eviction. When the ring is full, a read inside the oldest command and a
  write that completes a command have an interleaving in which the read copies from the block
  the write has just freed.
\<close>

theorem read_races_eviction:
  assumes "dev_rel k st" and "length (fst st) = 10" and "private_data f = Some Ref_aesd_device" and "buf \<noteq> NULL"
    and "count \<noteq> 0" and "unat pos < length (hd (fst st))" and "private_data g = Some Ref_aesd_device"
    and "answers_ok k ub n ans" and "NEWLINE \<in> set (snd st @ copied ub n ans)"
  shows "\<exists>tr k' w'. sys_run \<lparr>sys_kernel = k, tasks = [Reader (reader_call f buf count pos), Writer (writer_call g (Some ub) n)]\<rparr>
    tr \<lparr>sys_kernel = k', tasks = [Reader ((reader_call f buf count pos)\<lparr>rd_at := Rd_Return (Inl Wild_Pointer)\<rparr>), Writer w']\<rparr>"
  using assms by (intro schedule_race [of k st _ _ ub ans]) (simp_all add: reader_call_def writer_call_def)

theorem read_races_eviction_witness:
  "\<exists>tr k' w'. sys_run \<lparr>sys_kernel = wrapped_kernel, tasks = [Reader (reader_call (opened_file 0) (Ptr 1) 5 0),
       Writer (writer_call (opened_file 0) (Some (''hi'' @ [NEWLINE])) 3)]\<rparr> tr
     \<lparr>sys_kernel = k', tasks = [Reader ((reader_call (opened_file 0) (Ptr 1) 5 0)\<lparr>rd_at := Rd_Return (Inl Wild_Pointer)\<rparr>),
        Writer w']\<rparr>"
proof (rule read_races_eviction [OF wrapped_dev_rel, where ans = "good_answers 200"])
  show "answers_ok wrapped_kernel (''hi'' @ [NEWLINE]) 3 (good_answers 200)"
    by (simp add: answers_ok_def good_answers_def wrapped_kernel_def fresh_fields)
qed (simp_all add: wrapped_cmds_def wrapped_cmd_def copied_def good_answers_def)

text \<open>
  C16: The byte count. Two writes that succeed one after the other add both their lengths to
  the count \<^verbatim>\<open>SEEK_END\<close> uses; the same writes at the same time can lose one of the two, for the
  count is updated after the mutex is released. Then an llseek to the end that follows goes to the
  length of the second write alone, although the device has taken both.
\<close>

theorem byte_count_lost:
  assumes "dev_rel k st" and "private_data f = Some Ref_aesd_device" and "private_data g = Some Ref_aesd_device"
    and "answers_ok k ub1 n1 ans1" and "aesd_write k f (Some ub1) n1 ans1 = Inr (r1, k1)"
    and "answers_ok k1 ub2 n2 ans2" and "aesd_write k1 g (Some ub2) n2 ans2 = Inr (r2, k2)"
  shows "buffer_size (aesd_device k2) = buffer_size (aesd_device k) + r1 + r2 \<and>
    (\<exists>tr t w1 w2 l. sys_run \<lparr>sys_kernel = k, tasks = [Writer (writer_call f (Some ub1) n1),
         Writer (writer_call g (Some ub2) n2), Lseeker (lseeker_call h 0 SEEK_END)]\<rparr> tr t \<and>
       tasks t = [Writer w1, Writer w2, Lseeker l] \<and> wr_at w1 = Wr_Return (Inr r1) \<and> wr_at w2 = Wr_Return (Inr r2) \<and>
       dev_rel (sys_kernel t) (foldl device_write st [copied ub1 n1 ans1, copied ub2 n2 ans2]) \<and>
       (let sz = buffer_size (aesd_device k) + r2
        in buffer_size (aesd_device (sys_kernel t)) = sz \<and>
          ls_at l = Ls_Return (if sint sz < 0 then (- EINVAL, h) else (sz, h\<lparr>f_pos := sz\<rparr>))))"
proof -
  let ?w1 = "writer_call f (Some ub1) n1" and ?w2 = "writer_call g (Some ub2) n2" and ?l = "lseeker_call h 0 SEEK_END"
  let ?ts = "[Writer ?w1, Writer ?w2, Lseeker ?l]" and ?b = "buffer_size (aesd_device k)"
  let ?s = "\<lparr>sys_kernel = k, tasks = ?ts\<rparr>" and ?st2 = "foldl device_write st [copied ub1 n1 ans1, copied ub2 n2 ans2]"
  obtain tr1 ka where a: "sys_run ?s tr1 \<lparr>sys_kernel = ka,
      tasks = [Writer (?w1\<lparr>wr_at := Wr_Unlocked r1\<rparr>), Writer ?w2, Lseeker ?l]\<rparr>"
    "dev_rel ka (device_write st (copied ub1 n1 ans1))" "buffer_size (aesd_device ka) = ?b"
    "k1 = write_done ka r1"
    using schedule_write [OF Run_Nil [of _ ?s], of 0 ?w1 ub1 st ans1] assms(1,2,4,5) by (auto simp: writer_call_def)
  have "answers_ok ka ub2 n2 ans2" using assms(6) a(4) by simp
  then obtain tr2 kb where b: "sys_run ?s tr2 \<lparr>sys_kernel = kb,
      tasks = [Writer (?w1\<lparr>wr_at := Wr_Unlocked r1\<rparr>), Writer (?w2\<lparr>wr_at := Wr_Unlocked (n2 - missing ans2)\<rparr>), Lseeker ?l]\<rparr>"
    "dev_rel kb ?st2" "buffer_size (aesd_device kb) = ?b"
    using schedule_write [OF a(1), of 1 ?w2 ub2 "device_write st (copied ub1 n1 ans1)" ans2] a(2,3) assms(3)
    by (auto simp: writer_call_def)
  have rel1: "dev_rel k1 (device_write st (copied ub1 n1 ans1))"
    using aesd_write_ok [OF assms(1,2,4)] assms(5) by simp
  have r2: "r2 = n2 - missing ans2" "buffer_size (aesd_device k2) = ?b + r1 + r2"
    using aesd_write_ok [OF rel1 assms(3,6)] assms(7) a(3,4) by auto
  let ?kc = "set_dev (\<lambda>d. d\<lparr>buffer_size := ?b + r2\<rparr>) kb"
  obtain tr3 where c: "sys_run ?s tr3 \<lparr>sys_kernel = ?kc,
      tasks = [Writer (?w1\<lparr>wr_at := Wr_Return (Inr r1)\<rparr>), Writer (?w2\<lparr>wr_at := Wr_Return (Inr r2)\<rparr>), Lseeker ?l]\<rparr>"
    using schedule_counts [OF b(1)] b(3) r2(1) by auto
  have size: "buffer_size (aesd_device ?kc) = ?b + r2" by (simp add: set_dev_def)
  then have "aesd_llseek ?kc h 0 SEEK_END =
      (if sint (?b + r2) < 0 then (- EINVAL, h) else (?b + r2, h\<lparr>f_pos := ?b + r2\<rparr>))"
    by (simp add: aesd_llseek_def Let_def)
  then obtain tr4 where "sys_run ?s tr4 \<lparr>sys_kernel = ?kc,
      tasks = [Writer (?w1\<lparr>wr_at := Wr_Return (Inr r1)\<rparr>), Writer (?w2\<lparr>wr_at := Wr_Return (Inr r2)\<rparr>),
        Lseeker (?l\<lparr>ls_at := Ls_Return (if sint (?b + r2) < 0 then (- EINVAL, h) else (?b + r2, h\<lparr>f_pos := ?b + r2\<rparr>))\<rparr>)]\<rparr>"
    using sys_lseek_one [OF c, of 2 ?l] by (auto simp: lseeker_call_def)
  then show ?thesis using r2(2) b(2) size unfolding Let_def by fastforce
qed

theorem byte_count_lost_witness:
  "\<exists>tr t w1 w2 l. sys_run \<lparr>sys_kernel = fresh_kernel, tasks = [Writer (writer_call (opened_file 0) (Some ''ab'') 2),
       Writer (writer_call (opened_file 0) (Some (''c'' @ [NEWLINE])) 2), Lseeker (lseeker_call (opened_file 0) 0 SEEK_END)]\<rparr> tr t \<and>
     tasks t = [Writer w1, Writer w2, Lseeker l] \<and> wr_at w1 = Wr_Return (Inr 2) \<and> wr_at w2 = Wr_Return (Inr 2) \<and>
     dev_rel (sys_kernel t) ([''abc'' @ [NEWLINE]], []) \<and> ls_at l = Ls_Return (2, opened_file 2)"
proof -
  have ok1: "answers_ok fresh_kernel ''ab'' 2 (good_answers 100)" using fresh_answers_ok [of 100 "''ab''"] by simp
  then obtain k1 where k1: "aesd_write fresh_kernel (opened_file 0) (Some ''ab'') 2 (good_answers 100) = Inr (2, k1)"
    "dev_rel k1 (device_write empty_device (copied ''ab'' 2 (good_answers 100)))"
    using aesd_write_ok [OF fresh_dev_rel opened_file_dev ok1] by (auto simp: good_answers_def)
  have st: "device_write empty_device (copied ''ab'' 2 (good_answers 100)) = ([], ''ab'')"
    by (simp add: device_write_def empty_device_def copied_def good_answers_def)
  have d: "unat (tmp_size (aesd_device k1)) = 2" "holds_bytes (kheap k1) (tmp_buf (aesd_device k1)) ''ab''"
    "kheap k1 16 = None"
    using k1(2) unfolding st by (simp_all add: dev_rel_def dev_data_def)
  then obtain a where a: "tmp_buf (aesd_device k1) = Ptr a" "kheap k1 a \<noteq> None"
    by (auto simp: holds_bytes_Ptr)
  then have a16: "a \<noteq> 16" using d(3) by auto
  have ok2: "answers_ok k1 (''c'' @ [NEWLINE]) 2 (good_answers a)"
    using d(1) a(1) a16 by (simp add: answers_ok_def good_answers_def word_less_nat_alt)
  then obtain k2 where "aesd_write k1 (opened_file 0) (Some (''c'' @ [NEWLINE])) 2 (good_answers a) = Inr (2, k2)"
    using aesd_write_ok [OF k1(2) opened_file_dev ok2] by (auto simp: good_answers_def)
  moreover have "foldl device_write empty_device [copied ''ab'' 2 (good_answers 100), copied (''c'' @ [NEWLINE]) 2 (good_answers a)]
      = ([''abc'' @ [NEWLINE]], [])"
    by (simp add: device_write_def empty_device_def copied_def good_answers_def fifo_push_def)
  moreover have "(opened_file 0)\<lparr>f_pos := 2\<rparr> = opened_file 2" by (simp add: opened_file_def)
  ultimately show ?thesis
    using byte_count_lost [OF fresh_dev_rel opened_file_dev [of 0] opened_file_dev [of 0] ok1 k1(1) ok2, of 2 k2 "opened_file 0"]
    by (simp add: fresh_fields Let_def) blast
qed



text \<open>
  C19: A failed allocation stops the device for everyone. When the allocation of a write fails in any
  interleaving, the write returns \<^verbatim>\<open>-ENOMEM\<close> with the mutex held by no task. Whatever happens then,
  whether allocations work or not, the mutex is never released, nothing is ever appended, the
  stored commands stay as they are, and no write or seek that had not got the mutex ends otherwise
  than refused before it or interrupted (\<^verbatim>\<open>main.c\<close> lines 99 and 112).
\<close>

theorem enomem_orphans_mutex:
  assumes "dev_rel k st" and "list_all task_start ts" and "sys_run \<lparr>sys_kernel = k, tasks = ts\<rparr> tr \<lparr>sys_kernel = k1, tasks = ts1\<rparr>"
    and "i < length ts1" and "ts1 ! i = Writer w" and "wr_at w = Wr_Locked"
    and "alloc ans = None" and "0 < wr_count w" and "unat (tmp_size (aesd_device k1)) + unat (wr_count w) < 2 ^ 59"
  shows "\<exists>k2. write_step ans k1 w = Some (k2, Wr_Return (Inr (- ENOMEM))) \<and>
    (\<forall>tr' t. run wild_step \<lparr>sys_kernel = k2, tasks = ts1[i := Writer (w\<lparr>wr_at := Wr_Return (Inr (- ENOMEM))\<rparr>)]\<rparr> tr' t \<longrightarrow>
      mx_lock (aesd_device (sys_kernel t)) \<and> (\<forall>u \<in> set (tasks t). \<not> holds_lock u) \<and> appends tr' = [] \<and>
      same_device k2 (sys_kernel t) \<and>
      (\<forall>j < length ts1. j \<noteq> i \<longrightarrow> turned_away (ts1 ! j) \<longrightarrow> turned_away (tasks t ! j)))"
proof -
  have inv: "sys_inv (foldl device_write st (appends tr)) \<lparr>sys_kernel = k1, tasks = ts1\<rparr>"
    by (rule sys_run_inv [OF assms(3) sys_inv_start [OF assms(1,2)]])
  obtain k2 where k2: "write_step ans k1 w = Some (k2, Wr_Return (Inr (- ENOMEM)))"
    "orphaned \<lparr>sys_kernel = k2, tasks = ts1[i := Writer (w\<lparr>wr_at := Wr_Return (Inr (- ENOMEM))\<rparr>)]\<rparr>"
    using failed_fill_orphans [OF inv assms(4-6,8,9,7)] by blast
  then show ?thesis
    using orphan_run by (intro exI [of _ k2]) (fastforce simp: orphaned_def)
qed

theorem enomem_orphans_mutex_witness:
  "\<exists>k1 k2. sys_step \<lparr>sys_kernel = fresh_kernel, tasks = [Writer hi_writer, Writer hi_writer]\<rparr> Silent
      \<lparr>sys_kernel = k1, tasks = [Writer (hi_writer\<lparr>wr_at := Wr_Locked\<rparr>), Writer hi_writer]\<rparr> \<and>
    write_step (good_answers 0\<lparr>alloc := None\<rparr>) k1 (hi_writer\<lparr>wr_at := Wr_Locked\<rparr>) = Some (k2, Wr_Return (Inr (- ENOMEM))) \<and>
    (\<forall>tr t. run wild_step \<lparr>sys_kernel = k2,
        tasks = [Writer (hi_writer\<lparr>wr_at := Wr_Return (Inr (- ENOMEM))\<rparr>), Writer hi_writer]\<rparr> tr t \<longrightarrow>
      mx_lock (aesd_device (sys_kernel t)) \<and> turned_away (tasks t ! 1))"
proof -
  let ?w = "hi_writer\<lparr>wr_at := Wr_Locked\<rparr>" and ?k = "set_lock True fresh_kernel" and ?ts = "[Writer hi_writer, Writer hi_writer]"
  let ?ans = "good_answers 0\<lparr>alloc := None\<rparr>"
  have w: "wr_at hi_writer = Wr_Call" "private_data (wr_filp hi_writer) = Some Ref_aesd_device" "wr_count hi_writer = 3"
    "wr_buf hi_writer = Some (''hi'' @ [NEWLINE])"
    by (simp_all add: hi_writer_def writer_call_def)
  have "write_step (good_answers 0) fresh_kernel hi_writer = Some (?k, Wr_Locked)"
    using w by (simp add: write_step_def write_lock_def mutex_lock_interruptible_def file_dev_def fresh_fields good_answers_def)
  then have step: "sys_step \<lparr>sys_kernel = fresh_kernel, tasks = ?ts\<rparr> Silent \<lparr>sys_kernel = ?k, tasks = [Writer ?w, Writer hi_writer]\<rparr>"
    using Step_Write [of 0 ?ts hi_writer fill_ok fresh_kernel "good_answers 0" ?k Wr_Locked "\<lambda>_. True"] w
    by (simp add: fill_ok_def write_event_def)
  have start: "list_all task_start ?ts" using w by (simp add: task_start_def)
  have tmp: "unat (tmp_size (aesd_device ?k)) + unat (wr_count ?w) < 2 ^ 59" using w by (simp add: set_lock_def fresh_fields)
  obtain k2 where k2: "write_step ?ans ?k ?w = Some (k2, Wr_Return (Inr (- ENOMEM)))"
    "\<And>tr' t. run wild_step \<lparr>sys_kernel = k2, tasks = [Writer (hi_writer\<lparr>wr_at := Wr_Return (Inr (- ENOMEM))\<rparr>), Writer hi_writer]\<rparr> tr' t \<Longrightarrow>
      mx_lock (aesd_device (sys_kernel t)) \<and>
      (\<forall>j < 2. j \<noteq> 0 \<longrightarrow> turned_away ([Writer ?w, Writer hi_writer] ! j) \<longrightarrow> turned_away (tasks t ! j))"
    using enomem_orphans_mutex [OF fresh_dev_rel start run_one [of sys_step, OF step], of 0 ?w ?ans] w(3) tmp by auto
  have "turned_away (tasks t ! 1)" if "\<forall>j < 2. j \<noteq> 0 \<longrightarrow> turned_away ([Writer ?w, Writer hi_writer] ! j) \<longrightarrow> turned_away (tasks t ! j)" for t
    using spec [OF that, of 1] w by simp
  then show ?thesis using step k2 by (intro exI [of _ ?k] exI [of _ k2]) blast
qed

end
