(* ===== verification/Queue_Links.thy ===== *)
theory Queue_Links
  imports AESD_Prelude
begin

text \<open>
  The memory the macros of \<^verbatim>\<open>server/queue.h\<close> work on. A list head and the link field of an
  element are memory cells that hold a pointer to an element; \<open>link\<close> names such a cell (the
  macros take the address of one), and the store maps the cells of live objects to their
  content. A chain is the list of elements reached by following the links.
\<close>

section \<open>Cells and the store\<close>

text \<open>\<open>First h\<close> is the first-element field of head \<open>h\<close>, \<open>Next a\<close> the next field of element \<open>a\<close>.\<close>

datatype link = First nat | Next nat

record link_store =
  links :: "link \<rightharpoonup> ptr"

definition load :: "'z link_store_scheme \<Rightarrow> link \<Rightarrow> ptr res" where
  "load s l = (case links s l of None \<Rightarrow> Inl Wild_Pointer | Some p \<Rightarrow> Inr p)"

definition store :: "link \<Rightarrow> ptr \<Rightarrow> 'z link_store_scheme \<Rightarrow> 'z link_store_scheme res" where
  "store l p s = (if links s l = None then Inl Wild_Pointer else Inr (s\<lparr>links := (links s)(l \<mapsto> p)\<rparr>))"

text \<open>The link field of the element a pointer points to.\<close>

definition next_cell :: "ptr \<Rightarrow> link res" where
  "next_cell p = (case p of NULL \<Rightarrow> Inl Null_Deref | Ptr a \<Rightarrow> Inr (Next a))"

lemma load_Some [simp]: "links s l = Some p \<Longrightarrow> load s l = Inr p"
  by (simp add: load_def)

lemma store_Some [simp]: "links s l = Some q \<Longrightarrow> store l p s = Inr (s\<lparr>links := (links s)(l \<mapsto> p)\<rparr>)"
  by (simp add: store_def)

lemma next_cell_simps [simp]: "next_cell NULL = Inl Null_Deref" "next_cell (Ptr a) = Inr (Next a)"
  by (simp_all add: next_cell_def)

section \<open>Chains\<close>

text \<open>\<open>chain m p xs q\<close>: following the links from \<open>p\<close> visits the elements \<open>xs\<close> and arrives at \<open>q\<close>.\<close>

fun chain :: "(link \<rightharpoonup> ptr) \<Rightarrow> ptr \<Rightarrow> nat list \<Rightarrow> ptr \<Rightarrow> bool" where
  "chain m p [] q \<longleftrightarrow> p = q"
| "chain m p (a # xs) q \<longleftrightarrow> p = Ptr a \<and> (case m (Next a) of None \<Rightarrow> False | Some p' \<Rightarrow> chain m p' xs q)"

definition list_in :: "(link \<rightharpoonup> ptr) \<Rightarrow> nat \<Rightarrow> nat list \<Rightarrow> bool" where
  "list_in m h xs \<longleftrightarrow> (case m (First h) of None \<Rightarrow> False | Some p \<Rightarrow> chain m p xs NULL)"

abbreviation list_at :: "'z link_store_scheme \<Rightarrow> nat \<Rightarrow> nat list \<Rightarrow> bool" where
  "list_at s h xs \<equiv> list_in (links s) h xs"

lemma chain_append: "chain m p (xs @ ys) q \<longleftrightarrow> (\<exists>r. chain m p xs r \<and> chain m r ys q)"
  by (induction xs arbitrary: p) (auto split: option.splits)

lemma chain_NULL: "chain m NULL xs q \<longleftrightarrow> xs = [] \<and> q = NULL"
  by (cases xs) auto

lemma chain_Cons_iff: "chain m p (a # xs) q \<longleftrightarrow> p = Ptr a \<and> (\<exists>r. m (Next a) = Some r \<and> chain m r xs q)"
  by (auto split: option.splits)

lemma chain_upd_Next [simp]: "a \<notin> set xs \<Longrightarrow> chain (m(Next a := v)) p xs q \<longleftrightarrow> chain m p xs q"
  by (induction xs arbitrary: p) (auto split: option.splits)

lemma chain_upd_First [simp]: "chain (m(First h := v)) p xs q \<longleftrightarrow> chain m p xs q"
  by (induction xs arbitrary: p) (auto split: option.splits)

lemma chain_live: "chain m p xs q \<Longrightarrow> a \<in> set xs \<Longrightarrow> m (Next a) \<noteq> None"
  by (induction xs arbitrary: p) (auto split: option.splits)

text \<open>The links determine the chain, so a chain that ends has no repetition.\<close>

lemma chain_unique: "chain m p xs NULL \<Longrightarrow> chain m p ys NULL \<Longrightarrow> xs = ys"
proof (induction xs arbitrary: p ys)
  case Nil
  then show ?case by (simp add: chain_NULL)
next
  case (Cons a xs)
  then obtain ys' where "ys = a # ys'" by (cases ys) auto
  with Cons show ?case by (auto split: option.splits)
qed

lemma chain_distinct: "chain m p xs NULL \<Longrightarrow> distinct xs"
proof (induction xs arbitrary: p)
  case Nil
  then show ?case by simp
next
  case (Cons a xs)
  then obtain r where r: "m (Next a) = Some r" "chain m r xs NULL" by (auto split: option.splits)
  have "a \<notin> set xs"
  proof
    assume "a \<in> set xs"
    then obtain ys zs where xs: "xs = ys @ a # zs" by (auto dest: split_list)
    with r have "chain m r zs NULL" by (auto simp: chain_append split: option.splits)
    with r(2) have "xs = zs" by (rule chain_unique)
    with xs show False by simp
  qed
  with r Cons.IH show ?case by auto
qed

lemma list_at_unique: "list_at s h xs \<Longrightarrow> list_at s h ys \<Longrightarrow> xs = ys"
  by (auto simp: list_in_def split: option.splits intro: chain_unique)

lemma list_at_distinct: "list_at s h xs \<Longrightarrow> distinct xs"
  by (auto simp: list_in_def split: option.splits intro: chain_distinct)

lemma list_at_live: "list_at s h xs \<Longrightarrow> a \<in> set xs \<Longrightarrow> links s (Next a) \<noteq> None"
  by (auto simp: list_in_def split: option.splits dest: chain_live)

lemma list_at_iff: "list_in m h xs \<longleftrightarrow> (\<exists>p. m (First h) = Some p \<and> chain m p xs NULL)"
  by (auto simp: list_in_def split: option.splits)

text \<open>Writes that leave a list alone.\<close>

lemma list_at_upd_Next: "a \<notin> set xs \<Longrightarrow> list_at (s\<lparr>links := (links s)(Next a := v)\<rparr>) h xs \<longleftrightarrow> list_at s h xs"
  by (auto simp: list_at_iff)

lemma list_at_upd_First: "g \<noteq> h \<Longrightarrow> list_at (s\<lparr>links := (links s)(First g := v)\<rparr>) h xs \<longleftrightarrow> list_at s h xs"
  by (auto simp: list_at_iff)

lemma list_at_cong: "links s = links t \<Longrightarrow> list_at s h xs \<longleftrightarrow> list_at t h xs"
  by (auto simp: list_at_iff)

text \<open>A suffix of a chain starts at a non-null pointer unless it is empty.\<close>

lemma chain_end_NULL: "chain m p xs NULL \<Longrightarrow> p = NULL \<longleftrightarrow> xs = []"
  by (cases xs) auto

section \<open>Splicing\<close>

text \<open>The cell that holds the pointer to what follows the elements \<open>xs\<close> of list \<open>h\<close>.\<close>

definition cell_before :: "nat \<Rightarrow> nat list \<Rightarrow> link" where
  "cell_before h xs = (if xs = [] then First h else Next (last xs))"

lemma cell_before_simps [simp]:
  "cell_before h [] = First h" "cell_before h (xs @ [a]) = Next a" "cell_before h (a # xs) = Next (last (a # xs))"
  by (simp_all add: cell_before_def)

lemma cell_before_nonempty [simp]: "xs \<noteq> [] \<Longrightarrow> cell_before h xs = Next (last xs)"
  by (simp add: cell_before_def)

lemma cell_before_append: "ys \<noteq> [] \<Longrightarrow> cell_before h (xs @ ys) = Next (last ys)"
  by (simp add: cell_before_def)

lemma cell_before_inj: "cell_before h xs = Next a \<Longrightarrow> a \<in> set xs"
  by (auto simp: cell_before_def split: if_splits)

lemma cell_before_First: "cell_before h xs = First g \<Longrightarrow> g = h \<and> xs = []"
  by (auto simp: cell_before_def split: if_splits)

lemma list_at_cell:
  assumes "list_at s h (xs @ ys)"
  shows "\<exists>q. links s (cell_before h xs) = Some q \<and> chain (links s) q ys NULL"
  using assms
  by (cases xs rule: rev_cases) (auto simp: list_at_iff chain_append split: option.splits)

text \<open>Redirecting that cell replaces the rest of the list.\<close>

lemma list_at_splice:
  assumes "list_at s h (xs @ ys)" and "chain (links s) r zs NULL" and "set xs \<inter> set zs = {}"
  shows "list_at (s\<lparr>links := (links s)(cell_before h xs \<mapsto> r)\<rparr>) h (xs @ zs)"
proof (cases xs rule: rev_cases)
  case Nil
  with assms show ?thesis by (auto simp: list_at_iff)
next
  case (snoc us b)
  have "distinct xs" using list_at_distinct [OF assms(1)] by simp
  then have b: "b \<notin> set us" "b \<notin> set zs" using assms(3) snoc by auto
  obtain p where "links s (First h) = Some p" "chain (links s) p us (Ptr b)"
    using assms(1) snoc by (auto simp: list_at_iff chain_append split: option.splits)
  then show ?thesis using b assms(2) snoc by (auto simp: list_at_iff chain_append)
qed

text \<open>A list that does not use the redirected cell is left alone.\<close>

lemma list_at_other:
  assumes "list_at s g zs" and "l \<noteq> First g" and "\<And>a. l = Next a \<Longrightarrow> a \<notin> set zs"
  shows "list_at (s\<lparr>links := (links s)(l := v)\<rparr>) g zs"
  using assms by (cases l) (auto simp: list_at_iff)

text \<open>Inserting an element whose link already points to the rest, and dropping an element.\<close>

lemma list_at_insert:
  assumes "list_at s h (xs @ ys)" and "links s (cell_before h xs) = Some q" and "a \<notin> set (xs @ ys)"
  shows "list_at (s\<lparr>links := (links s)(Next a \<mapsto> q, cell_before h xs \<mapsto> Ptr a)\<rparr>) h (xs @ a # ys)"
proof -
  let ?s1 = "s\<lparr>links := (links s)(Next a \<mapsto> q)\<rparr>"
  have "chain (links s) q ys NULL"
    using list_at_cell [OF assms(1)] assms(2) by auto
  then have "chain (links ?s1) (Ptr a) (a # ys) NULL" using assms(3) by simp
  moreover have "list_at ?s1 h (xs @ ys)"
    using assms(1,3) by (auto simp: list_at_iff)
  moreover have "set xs \<inter> set (a # ys) = {}"
    using assms(3) list_at_distinct [OF assms(1)] by auto
  ultimately show ?thesis
    using list_at_splice [of ?s1 h xs ys "Ptr a" "a # ys"] by simp
qed

lemma list_at_drop:
  assumes "list_at s h (xs @ a # ys)" and "links s (Next a) = Some q"
  shows "list_at (s\<lparr>links := (links s)(cell_before h xs \<mapsto> q)\<rparr>) h (xs @ ys)"
proof -
  have "chain (links s) q ys NULL"
    using list_at_cell [OF assms(1)] assms(2) by auto
  moreover have "set xs \<inter> set ys = {}"
    using list_at_distinct [OF assms(1)] by auto
  ultimately show ?thesis using list_at_splice [OF assms(1)] by blast
qed

lemma list_at_join:
  assumes "list_at s h xs" and "list_at s g ys" and "links s (First g) = Some q" and "h \<noteq> g"
    and "set xs \<inter> set ys = {}"
  shows "list_at (s\<lparr>links := (links s)(cell_before h xs \<mapsto> q, First g \<mapsto> NULL)\<rparr>) h (xs @ ys)"
    and "list_at (s\<lparr>links := (links s)(cell_before h xs \<mapsto> q, First g \<mapsto> NULL)\<rparr>) g []"
proof -
  let ?s1 = "s\<lparr>links := (links s)(cell_before h xs \<mapsto> q)\<rparr>"
  have "chain (links s) q ys NULL" using assms(2,3) by (auto simp: list_at_iff)
  then have "list_at ?s1 h (xs @ ys)"
    using list_at_splice [of s h xs "[]" q ys] assms(1,5) by simp
  then show "list_at (s\<lparr>links := (links s)(cell_before h xs \<mapsto> q, First g \<mapsto> NULL)\<rparr>) h (xs @ ys)"
    using assms(4) list_at_upd_First [of g h ?s1 "Some NULL" "xs @ ys"] by simp
  show "list_at (s\<lparr>links := (links s)(cell_before h xs \<mapsto> q, First g \<mapsto> NULL)\<rparr>) g []"
    by (simp add: list_at_iff)
qed

end
