(* ===== verification/Queue_SList.thy ===== *)
theory Queue_SList
  imports Queue_Links
begin

text \<open>
  The singly-linked list of \<^verbatim>\<open>server/queue.h\<close> (the \<^verbatim>\<open>SLIST\<close> macros), which the socket server
  keeps its threads in. Every macro is a function on the link store; the loops follow the
  links and need not end on a cyclic structure. The macros refine operations on lists of
  elements: that is the content of the locale \<open>list_ops\<close> and its interpretation.
\<close>

section \<open>The macros\<close>

definition SLIST_FIRST :: "nat \<Rightarrow> 'z link_store_scheme \<Rightarrow> ptr res" where
  "SLIST_FIRST head s = load s (First head)"

definition SLIST_NEXT :: "ptr \<Rightarrow> 'z link_store_scheme \<Rightarrow> ptr res" where
  "SLIST_NEXT elm s = rbind (next_cell elm) (load s)"

definition set_SLIST_NEXT :: "ptr \<Rightarrow> ptr \<Rightarrow> 'z link_store_scheme \<Rightarrow> 'z link_store_scheme res" where
  "set_SLIST_NEXT elm p s = rbind (next_cell elm) (\<lambda>l. store l p s)"

definition SLIST_EMPTY :: "nat \<Rightarrow> 'z link_store_scheme \<Rightarrow> bool res" where
  "SLIST_EMPTY head s = rbind (SLIST_FIRST head s) (\<lambda>p. Inr (p = NULL))"

definition SLIST_INIT :: "nat \<Rightarrow> 'z link_store_scheme \<Rightarrow> 'z link_store_scheme res" where
  "SLIST_INIT head s = store (First head) NULL s"

text \<open>A head defined with its initializer.\<close>

definition SLIST_HEAD_INITIALIZER :: "nat \<Rightarrow> 'z link_store_scheme \<Rightarrow> 'z link_store_scheme" where
  "SLIST_HEAD_INITIALIZER head s = s\<lparr>links := (links s)(First head \<mapsto> NULL)\<rparr>"

definition SLIST_INSERT_AFTER :: "ptr \<Rightarrow> ptr \<Rightarrow> 'z link_store_scheme \<Rightarrow> 'z link_store_scheme res" where
  "SLIST_INSERT_AFTER slistelm elm s =
     rbind (SLIST_NEXT slistelm s) (\<lambda>n.
       rbind (set_SLIST_NEXT elm n s) (\<lambda>s1. set_SLIST_NEXT slistelm elm s1))"

definition SLIST_INSERT_HEAD :: "nat \<Rightarrow> ptr \<Rightarrow> 'z link_store_scheme \<Rightarrow> 'z link_store_scheme res" where
  "SLIST_INSERT_HEAD head elm s =
     rbind (SLIST_FIRST head s) (\<lambda>f.
       rbind (set_SLIST_NEXT elm f s) (\<lambda>s1. store (First head) elm s1))"

definition SLIST_REMOVE_AFTER :: "ptr \<Rightarrow> 'z link_store_scheme \<Rightarrow> 'z link_store_scheme res" where
  "SLIST_REMOVE_AFTER elm s =
     rbind (SLIST_NEXT elm s) (\<lambda>n. rbind (SLIST_NEXT n s) (\<lambda>nn. set_SLIST_NEXT elm nn s))"

definition SLIST_REMOVE_HEAD :: "nat \<Rightarrow> 'z link_store_scheme \<Rightarrow> 'z link_store_scheme res" where
  "SLIST_REMOVE_HEAD head s =
     rbind (SLIST_FIRST head s) (\<lambda>f. rbind (SLIST_NEXT f s) (\<lambda>n. store (First head) n s))"

text \<open>The search for the predecessor of an element; \<^term>\<open>None\<close> is a search that never ends.\<close>

partial_function (option) remove_loop :: "ptr \<Rightarrow> ptr \<Rightarrow> 'z link_store_scheme \<Rightarrow> ptr res option" where
  "remove_loop elm curelm s =
     (case SLIST_NEXT curelm s of
        Inl e \<Rightarrow> Some (Inl e)
      | Inr n \<Rightarrow> if n \<noteq> elm then remove_loop elm n s else Some (Inr curelm))"

definition SLIST_REMOVE :: "nat \<Rightarrow> ptr \<Rightarrow> 'z link_store_scheme \<Rightarrow> 'z link_store_scheme res option" where
  "SLIST_REMOVE head elm s =
     (case SLIST_FIRST head s of
        Inl e \<Rightarrow> Some (Inl e)
      | Inr f \<Rightarrow>
          if f = elm then Some (SLIST_REMOVE_HEAD head s)
          else map_option (\<lambda>r. rbind r (\<lambda>cur. SLIST_REMOVE_AFTER cur s)) (remove_loop elm f s))"

text \<open>The walk to the last element.\<close>

partial_function (option) concat_loop :: "ptr \<Rightarrow> 'z link_store_scheme \<Rightarrow> ptr res option" where
  "concat_loop curelm s =
     (case SLIST_NEXT curelm s of
        Inl e \<Rightarrow> Some (Inl e)
      | Inr n \<Rightarrow> if n \<noteq> NULL then concat_loop n s else Some (Inr curelm))"

definition SLIST_CONCAT :: "nat \<Rightarrow> nat \<Rightarrow> 'z link_store_scheme \<Rightarrow> 'z link_store_scheme res option" where
  "SLIST_CONCAT head1 head2 s =
     (case SLIST_FIRST head1 s of
        Inl e \<Rightarrow> Some (Inl e)
      | Inr curelm \<Rightarrow>
          (case SLIST_FIRST head2 s of
             Inl e \<Rightarrow> Some (Inl e)
           | Inr f2 \<Rightarrow>
               if curelm = NULL
               then Some (rbind (store (First head1) f2 s)
                      (\<lambda>s1. if f2 \<noteq> NULL then SLIST_INIT head2 s1 else Inr s1))
               else if f2 \<noteq> NULL
               then map_option (\<lambda>r. rbind r (\<lambda>last.
                      rbind (set_SLIST_NEXT last f2 s) (SLIST_INIT head2))) (concat_loop curelm s)
               else Some (Inr s)))"

definition SLIST_SWAP :: "nat \<Rightarrow> nat \<Rightarrow> 'z link_store_scheme \<Rightarrow> 'z link_store_scheme res" where
  "SLIST_SWAP head1 head2 s =
     rbind (SLIST_FIRST head1 s) (\<lambda>swap_first.
       rbind (SLIST_FIRST head2 s) (\<lambda>f2.
         rbind (store (First head1) f2 s) (\<lambda>s1. store (First head2) swap_first s1)))"

text \<open>
  The iterations. \<open>body\<close> is the statement after the macro; it answers whether it left the loop
  by \<^verbatim>\<open>break\<close>, and the new state. The result is the value of the loop variable after the loop
  with the state. \<^verbatim>\<open>SLIST_FOREACH\<close> reads the link of the current element after the body,
  \<^verbatim>\<open>SLIST_FOREACH_SAFE\<close> before it.
\<close>

partial_function (option) foreach_loop ::
  "(ptr \<Rightarrow> 'z link_store_scheme \<Rightarrow> (bool \<times> 'z link_store_scheme) res) \<Rightarrow> ptr \<Rightarrow> 'z link_store_scheme \<Rightarrow>
   (ptr \<times> 'z link_store_scheme) res option" where
  "foreach_loop body var s =
     (if var = NULL then Some (Inr (var, s))
      else case body var s of
        Inl e \<Rightarrow> Some (Inl e)
      | Inr (brk, s1) \<Rightarrow>
          if brk then Some (Inr (var, s1))
          else (case SLIST_NEXT var s1 of
                  Inl e \<Rightarrow> Some (Inl e)
                | Inr n \<Rightarrow> foreach_loop body n s1))"

definition SLIST_FOREACH where
  "SLIST_FOREACH body head s =
     (case SLIST_FIRST head s of Inl e \<Rightarrow> Some (Inl e) | Inr f \<Rightarrow> foreach_loop body f s)"

definition SLIST_FOREACH_FROM where
  "SLIST_FOREACH_FROM body var head s =
     (if var \<noteq> NULL then foreach_loop body var s else SLIST_FOREACH body head s)"

partial_function (option) foreach_safe_loop ::
  "(ptr \<Rightarrow> 'z link_store_scheme \<Rightarrow> (bool \<times> 'z link_store_scheme) res) \<Rightarrow> ptr \<Rightarrow> 'z link_store_scheme \<Rightarrow>
   (ptr \<times> 'z link_store_scheme) res option" where
  "foreach_safe_loop body var s =
     (if var = NULL then Some (Inr (var, s))
      else case SLIST_NEXT var s of
        Inl e \<Rightarrow> Some (Inl e)
      | Inr tvar \<Rightarrow>
          (case body var s of
             Inl e \<Rightarrow> Some (Inl e)
           | Inr (brk, s1) \<Rightarrow> if brk then Some (Inr (var, s1)) else foreach_safe_loop body tvar s1))"

definition SLIST_FOREACH_SAFE where
  "SLIST_FOREACH_SAFE body head s =
     (case SLIST_FIRST head s of Inl e \<Rightarrow> Some (Inl e) | Inr f \<Rightarrow> foreach_safe_loop body f s)"

definition SLIST_FOREACH_FROM_SAFE where
  "SLIST_FOREACH_FROM_SAFE body var head s =
     (if var \<noteq> NULL then foreach_safe_loop body var s else SLIST_FOREACH_SAFE body head s)"

text \<open>\<^verbatim>\<open>SLIST_FOREACH_PREVPTR\<close>: \<open>varp\<close> is the cell that points to the current element.\<close>

partial_function (option) foreach_prevptr_loop ::
  "(ptr \<Rightarrow> link \<Rightarrow> 'z link_store_scheme \<Rightarrow> (bool \<times> 'z link_store_scheme) res) \<Rightarrow> link \<Rightarrow>
   'z link_store_scheme \<Rightarrow> (ptr \<times> link \<times> 'z link_store_scheme) res option" where
  "foreach_prevptr_loop body varp s =
     (case load s varp of
        Inl e \<Rightarrow> Some (Inl e)
      | Inr var \<Rightarrow>
          if var = NULL then Some (Inr (var, varp, s))
          else (case body var varp s of
                  Inl e \<Rightarrow> Some (Inl e)
                | Inr (brk, s1) \<Rightarrow>
                    if brk then Some (Inr (var, varp, s1))
                    else (case next_cell var of
                            Inl e \<Rightarrow> Some (Inl e)
                          | Inr l \<Rightarrow> foreach_prevptr_loop body l s1)))"

definition SLIST_FOREACH_PREVPTR where
  "SLIST_FOREACH_PREVPTR body head s = foreach_prevptr_loop body (First head) s"

section \<open>Effects on lists of elements\<close>

lemmas slist_basic_defs = SLIST_FIRST_def SLIST_NEXT_def set_SLIST_NEXT_def

lemma SLIST_INIT_list:
  assumes "links s (First h) \<noteq> None"
  shows "\<exists>s'. SLIST_INIT h s = Inr s' \<and> list_at s' h []"
  using assms by (auto simp: SLIST_INIT_def list_at_iff)

lemma SLIST_HEAD_INITIALIZER_list:
  "list_at (SLIST_HEAD_INITIALIZER h s) h []" "g \<noteq> h \<Longrightarrow> list_at s g xs \<Longrightarrow> list_at (SLIST_HEAD_INITIALIZER h s) g xs"
  by (simp_all add: SLIST_HEAD_INITIALIZER_def list_at_iff list_at_upd_First [unfolded list_at_iff])

lemma SLIST_EMPTY_list: "list_at s h xs \<Longrightarrow> SLIST_EMPTY h s = Inr (xs = [])"
  by (auto simp: SLIST_EMPTY_def SLIST_FIRST_def list_at_iff dest: chain_end_NULL)

lemma SLIST_INSERT_HEAD_list:
  assumes "list_at s h xs" and "links s (Next a) \<noteq> None" and "a \<notin> set xs"
  shows "\<exists>s'. SLIST_INSERT_HEAD h (Ptr a) s = Inr s' \<and> list_at s' h (a # xs) \<and>
    dom (links s') = dom (links s) \<and>
    (\<forall>g ys. g \<noteq> h \<longrightarrow> a \<notin> set ys \<longrightarrow> list_at s' g ys = list_at s g ys)"
proof -
  obtain p q where p: "links s (First h) = Some p" "chain (links s) p xs NULL" "links s (Next a) = Some q"
    using assms by (auto simp: list_at_iff)
  have "SLIST_INSERT_HEAD h (Ptr a) s = Inr (s\<lparr>links := (links s)(Next a \<mapsto> p, First h \<mapsto> Ptr a)\<rparr>)"
    using p by (simp add: SLIST_INSERT_HEAD_def slist_basic_defs)
  then show ?thesis using p assms(3) by (auto simp: list_at_iff)
qed

lemma SLIST_INSERT_AFTER_list:
  assumes "list_at s h (ys @ b # zs)" and "links s (Next a) \<noteq> None" and "a \<notin> set (ys @ b # zs)"
  shows "\<exists>s'. SLIST_INSERT_AFTER (Ptr b) (Ptr a) s = Inr s' \<and> list_at s' h (ys @ b # a # zs) \<and>
    dom (links s') = dom (links s)"
proof -
  obtain p r q where p: "links s (First h) = Some p" "chain (links s) p ys (Ptr b)"
    "links s (Next b) = Some r" "chain (links s) r zs NULL" "links s (Next a) = Some q"
    using assms by (auto simp: list_at_iff chain_append split: option.splits)
  have "b \<notin> set ys" "b \<notin> set zs"
    using list_at_distinct [OF assms(1)] by auto
  moreover have "SLIST_INSERT_AFTER (Ptr b) (Ptr a) s = Inr (s\<lparr>links := (links s)(Next a \<mapsto> r, Next b \<mapsto> Ptr a)\<rparr>)"
    using p assms(3) by (simp add: SLIST_INSERT_AFTER_def slist_basic_defs)
  ultimately show ?thesis using p assms(3) by (auto simp: list_at_iff chain_append)
qed

lemma SLIST_REMOVE_HEAD_list:
  assumes "list_at s h (a # xs)"
  shows "\<exists>s'. SLIST_REMOVE_HEAD h s = Inr s' \<and> list_at s' h xs \<and> dom (links s') = dom (links s)"
  using assms
  by (auto simp: SLIST_REMOVE_HEAD_def slist_basic_defs list_at_iff split: option.splits)

lemma SLIST_REMOVE_HEAD_empty: "list_at s h [] \<Longrightarrow> SLIST_REMOVE_HEAD h s = Inl Null_Deref"
  by (auto simp: SLIST_REMOVE_HEAD_def slist_basic_defs list_at_iff)

lemma SLIST_REMOVE_AFTER_list:
  assumes "list_at s h (ys @ b # a # zs)"
  shows "\<exists>s'. SLIST_REMOVE_AFTER (Ptr b) s = Inr s' \<and> list_at s' h (ys @ b # zs) \<and>
    dom (links s') = dom (links s)"
proof -
  obtain p r where p: "links s (First h) = Some p" "chain (links s) p ys (Ptr b)"
    "links s (Next b) = Some (Ptr a)" "links s (Next a) = Some r" "chain (links s) r zs NULL"
    using assms by (auto simp: list_at_iff chain_append split: option.splits)
  have "b \<notin> set ys" "b \<notin> set zs" "b \<noteq> a"
    using list_at_distinct [OF assms] by auto
  moreover have "SLIST_REMOVE_AFTER (Ptr b) s = Inr (s\<lparr>links := (links s)(Next b \<mapsto> r)\<rparr>)"
    using p by (simp add: SLIST_REMOVE_AFTER_def slist_basic_defs)
  ultimately show ?thesis using p by (auto simp: list_at_iff chain_append)
qed

text \<open>The loops end on a list that ends.\<close>

lemma remove_loop_finds:
  "chain (links s) (Ptr c) (c # ys) (Ptr a) \<Longrightarrow> a \<notin> set ys \<Longrightarrow>
   remove_loop (Ptr a) (Ptr c) s = Some (Inr (Ptr (last (c # ys))))"
proof (induction ys arbitrary: c)
  case Nil
  then show ?case by (subst remove_loop.simps) (auto simp: slist_basic_defs split: option.splits)
next
  case (Cons d ys)
  then have "links s (Next c) = Some (Ptr d)" "chain (links s) (Ptr d) (d # ys) (Ptr a)"
    by (auto split: option.splits)
  with Cons show ?case by (subst remove_loop.simps) (simp add: slist_basic_defs del: chain.simps)
qed

lemma remove_loop_absent:
  "chain (links s) p xs NULL \<Longrightarrow> a \<notin> set xs \<Longrightarrow> remove_loop (Ptr a) p s = Some (Inl Null_Deref)"
proof (induction xs arbitrary: p)
  case Nil
  then show ?case by (subst remove_loop.simps) (simp add: slist_basic_defs)
next
  case (Cons c xs)
  then obtain r where "p = Ptr c" "links s (Next c) = Some r" "chain (links s) r xs NULL" "r \<noteq> Ptr a"
    by (cases xs) (auto split: option.splits)
  with Cons show ?case by (subst remove_loop.simps) (simp add: slist_basic_defs)
qed

lemma concat_loop_last:
  "chain (links s) (Ptr c) (c # ys) NULL \<Longrightarrow> concat_loop (Ptr c) s = Some (Inr (Ptr (last (c # ys))))"
proof (induction ys arbitrary: c)
  case Nil
  then show ?case by (subst concat_loop.simps) (auto simp: slist_basic_defs split: option.splits)
next
  case (Cons d ys)
  then have "links s (Next c) = Some (Ptr d)" "chain (links s) (Ptr d) (d # ys) NULL"
    by (auto split: option.splits)
  with Cons show ?case by (subst concat_loop.simps) (simp add: slist_basic_defs del: chain.simps)
qed

lemma SLIST_REMOVE_list:
  assumes "list_at s h xs" and "a \<in> set xs"
  shows "\<exists>s'. SLIST_REMOVE h (Ptr a) s = Some (Inr s') \<and> list_at s' h (remove1 a xs) \<and>
    dom (links s') = dom (links s)"
proof -
  obtain ys zs where xs: "xs = ys @ a # zs" "a \<notin> set ys"
    using assms(2) by (auto dest: split_list_first)
  then have rem: "remove1 a xs = ys @ zs" by (simp add: remove1_append)
  show ?thesis
  proof (cases ys rule: rev_cases)
    case Nil
    with assms(1) xs have "SLIST_REMOVE h (Ptr a) s = Some (SLIST_REMOVE_HEAD h s)"
      by (auto simp: SLIST_REMOVE_def SLIST_FIRST_def list_at_iff split: option.splits)
    then show ?thesis
      using SLIST_REMOVE_HEAD_list [of s h a zs] assms(1) xs rem Nil by auto
  next
    case (snoc us b)
    obtain c cs where ys: "ys = c # cs" using snoc by (meson append_is_Nil_conv list.exhaust not_Cons_self2)
    obtain p where p: "links s (First h) = Some p" "chain (links s) p ys (Ptr a)" "p = Ptr c"
      using assms(1) xs ys by (auto simp: list_at_iff chain_append split: option.splits)
    have "last (c # cs) = b" using snoc ys by (metis last_snoc)
    then have "remove_loop (Ptr a) (Ptr c) s = Some (Inr (Ptr b))"
      using remove_loop_finds [of s c cs a] p ys xs(2) by (auto simp del: chain.simps)
    moreover have "c \<noteq> a" using xs(2) ys by auto
    ultimately have "SLIST_REMOVE h (Ptr a) s = Some (SLIST_REMOVE_AFTER (Ptr b) s)"
      using p by (simp add: SLIST_REMOVE_def SLIST_FIRST_def)
    then show ?thesis
      using SLIST_REMOVE_AFTER_list [of s h us b a zs] assms(1) xs(1) rem snoc by simp
  qed
qed

text \<open>Removing an element that is not in the list runs off its end: the search dereferences the null
  pointer there (the macro has no test for it).\<close>

lemma SLIST_REMOVE_absent:
  assumes "list_at s h xs" and "a \<notin> set xs"
  shows "SLIST_REMOVE h (Ptr a) s = Some (Inl Null_Deref)"
proof -
  obtain p where p: "links s (First h) = Some p" "chain (links s) p xs NULL"
    using assms(1) by (auto simp: list_at_iff)
  then have "p \<noteq> Ptr a" using assms(2) by (cases xs) auto
  then show ?thesis
    using remove_loop_absent [OF p(2) assms(2)] p(1) by (simp add: SLIST_REMOVE_def SLIST_FIRST_def)
qed

lemma SLIST_CONCAT_list:
  assumes "list_at s h xs" and "list_at s g ys" and "h \<noteq> g" and "set xs \<inter> set ys = {}"
  shows "\<exists>s'. SLIST_CONCAT h g s = Some (Inr s') \<and> list_at s' h (xs @ ys) \<and> list_at s' g []"
proof -
  obtain p q where p: "links s (First h) = Some p" "chain (links s) p xs NULL"
    and q: "links s (First g) = Some q" "chain (links s) q ys NULL"
    using assms by (auto simp: list_at_iff)
  show ?thesis
  proof (cases "xs = [] \<or> ys = []")
    case True
    then show ?thesis
      using p q assms(3) chain_end_NULL [OF p(2)] chain_end_NULL [OF q(2)]
      by (auto simp: SLIST_CONCAT_def SLIST_FIRST_def SLIST_INIT_def list_at_iff)
  next
    case False
    then obtain c cs where xs: "xs = c # cs" by (cases xs) auto
    then have c: "p = Ptr c" using p(2) by simp
    obtain us b where us: "xs = us @ [b]" using False by (cases xs rule: rev_cases) auto
    have "last (c # cs) = b" using xs us by (metis last_snoc)
    then have loop: "concat_loop p s = Some (Inr (Ptr b))"
      using concat_loop_last [of s c cs] p(2) xs c by (auto simp del: chain.simps)
    have b: "links s (Next b) = Some NULL" "chain (links s) p us (Ptr b)"
      using p(2) us by (auto simp: chain_append split: option.splits)
    have "b \<notin> set us" "b \<notin> set ys"
      using chain_distinct [OF p(2)] us assms(4) by auto
    moreover have "SLIST_CONCAT h g s =
        Some (Inr (s\<lparr>links := (links s)(Next b \<mapsto> q, First g \<mapsto> NULL)\<rparr>))"
      using False p q loop b chain_end_NULL [OF p(2)] chain_end_NULL [OF q(2)]
      by (simp add: SLIST_CONCAT_def slist_basic_defs SLIST_INIT_def)
    ultimately show ?thesis
      using p q b assms(3) us by (auto simp: list_at_iff chain_append)
  qed
qed

lemma SLIST_SWAP_list:
  assumes "list_at s h xs" and "list_at s g ys" and "h \<noteq> g"
  shows "\<exists>s'. SLIST_SWAP h g s = Inr s' \<and> list_at s' h ys \<and> list_at s' g xs"
  using assms by (auto simp: SLIST_SWAP_def SLIST_FIRST_def list_at_iff)

section \<open>Iteration\<close>

text \<open>The iteration over a list of elements, which the macros implement by following links.\<close>

fun foreach_list :: "(ptr \<Rightarrow> 's \<Rightarrow> (bool \<times> 's) res) \<Rightarrow> nat list \<Rightarrow> 's \<Rightarrow> (ptr \<times> 's) res" where
  "foreach_list body [] s = Inr (NULL, s)"
| "foreach_list body (a # xs) s =
     rbind (body (Ptr a) s) (\<lambda>(brk, s1). if brk then Inr (Ptr a, s1) else foreach_list body xs s1)"

text \<open>A body that goes on without touching a link, or only the link of its own element.\<close>

definition keeps_links :: "(ptr \<Rightarrow> 'z link_store_scheme \<Rightarrow> (bool \<times> 'z link_store_scheme) res) \<Rightarrow> bool" where
  "keeps_links body \<longleftrightarrow> (\<forall>p s s1. body p s = Inr (False, s1) \<longrightarrow> links s1 = links s)"

definition keeps_other_links :: "(ptr \<Rightarrow> 'z link_store_scheme \<Rightarrow> (bool \<times> 'z link_store_scheme) res) \<Rightarrow> bool" where
  "keeps_other_links body \<longleftrightarrow> (\<forall>p s s1 b. body p s = Inr (False, s1) \<longrightarrow> Ptr b \<noteq> p \<longrightarrow>
     links s1 (Next b) = links s (Next b))"

lemma foreach_loop_chain:
  assumes "chain (links s) p xs NULL" and "keeps_links body"
  shows "foreach_loop body p s = Some (foreach_list body xs s)"
  using assms(1)
proof (induction xs arbitrary: p s)
  case Nil
  then show ?case by (simp add: foreach_loop.simps)
next
  case (Cons a xs)
  then obtain r where r: "p = Ptr a" "links s (Next a) = Some r" "chain (links s) r xs NULL"
    by (auto split: option.splits)
  show ?case
  proof (cases "body (Ptr a) s")
    case (Inr bs)
    obtain brk s1 where bs: "bs = (brk, s1)" by (cases bs)
    have "links s1 = links s" if "\<not> brk"
      using that assms(2) Inr bs by (auto simp: keeps_links_def)
    with Cons.IH [of s1 r] r Inr bs show ?thesis
      by (subst foreach_loop.simps) (simp add: slist_basic_defs)
  qed (simp add: r foreach_loop.simps)
qed

lemma chain_cong:
  "chain m p xs q \<Longrightarrow> (\<And>a. a \<in> set xs \<Longrightarrow> m' (Next a) = m (Next a)) \<Longrightarrow> chain m' p xs q"
  by (induction xs arbitrary: p) (auto split: option.splits)

lemma foreach_safe_loop_chain:
  assumes "chain (links s) p xs NULL" and "keeps_other_links body"
  shows "foreach_safe_loop body p s = Some (foreach_list body xs s)"
  using assms(1)
proof (induction xs arbitrary: p s)
  case Nil
  then show ?case by (simp add: foreach_safe_loop.simps)
next
  case (Cons a xs)
  then obtain r where r: "p = Ptr a" "links s (Next a) = Some r" "chain (links s) r xs NULL"
    by (auto split: option.splits)
  have a: "a \<notin> set xs" using chain_distinct [OF Cons.prems] by simp
  show ?case
  proof (cases "body (Ptr a) s")
    case (Inr bs)
    obtain brk s1 where bs: "bs = (brk, s1)" by (cases bs)
    have "chain (links s1) r xs NULL" if "\<not> brk"
    proof (rule chain_cong [OF r(3)])
      fix b assume "b \<in> set xs"
      with a have "Ptr b \<noteq> Ptr a" by auto
      moreover have "body (Ptr a) s = Inr (False, s1)" using that Inr bs by simp
      ultimately show "links s1 (Next b) = links s (Next b)"
        using assms(2) unfolding keeps_other_links_def by blast
    qed
    with Cons.IH [of s1 r] r Inr bs show ?thesis
      by (subst foreach_safe_loop.simps) (simp add: slist_basic_defs)
  qed (simp add: r foreach_safe_loop.simps slist_basic_defs)
qed

lemma SLIST_FOREACH_list:
  "list_at s h xs \<Longrightarrow> keeps_links body \<Longrightarrow> SLIST_FOREACH body h s = Some (foreach_list body xs s)"
  by (auto simp: SLIST_FOREACH_def SLIST_FIRST_def list_at_iff intro: foreach_loop_chain)

lemma SLIST_FOREACH_SAFE_list:
  "list_at s h xs \<Longrightarrow> keeps_other_links body \<Longrightarrow>
   SLIST_FOREACH_SAFE body h s = Some (foreach_list body xs s)"
  by (auto simp: SLIST_FOREACH_SAFE_def SLIST_FIRST_def list_at_iff intro: foreach_safe_loop_chain)

lemma list_at_suffix:
  "list_at s h (ys @ a # xs) \<Longrightarrow> chain (links s) (Ptr a) (a # xs) NULL"
  by (auto simp: list_at_iff chain_append split: option.splits)

lemma SLIST_FOREACH_FROM_list:
  "list_at s h (ys @ a # xs) \<Longrightarrow> keeps_links body \<Longrightarrow>
   SLIST_FOREACH_FROM body (Ptr a) h s = Some (foreach_list body (a # xs) s)"
  by (simp add: SLIST_FOREACH_FROM_def foreach_loop_chain [OF list_at_suffix] del: foreach_list.simps)

lemma SLIST_FOREACH_FROM_SAFE_list:
  "list_at s h (ys @ a # xs) \<Longrightarrow> keeps_other_links body \<Longrightarrow>
   SLIST_FOREACH_FROM_SAFE body (Ptr a) h s = Some (foreach_list body (a # xs) s)"
  by (simp add: SLIST_FOREACH_FROM_SAFE_def foreach_safe_loop_chain [OF list_at_suffix]
      del: foreach_list.simps)

text \<open>A search with the address of the link: the cell found points to the element found.\<close>

lemma foreach_prevptr_search:
  assumes "links s varp = Some p" and "chain (links s) p (ys @ a # zs) NULL"
    and "\<forall>y \<in> set ys. \<not> P y" and "P a"
  shows "foreach_prevptr_loop (\<lambda>var varp s. Inr (case var of NULL \<Rightarrow> False | Ptr x \<Rightarrow> P x, s)) varp s =
    Some (Inr (Ptr a, (if ys = [] then varp else Next (last ys)), s))"
  using assms(1-3)
proof (induction ys arbitrary: varp p)
  case Nil
  with assms(4) show ?case by (subst foreach_prevptr_loop.simps) (auto split: option.splits)
next
  case (Cons y ys)
  then have "p = Ptr y" by simp
  with Cons show ?case
    by (subst foreach_prevptr_loop.simps) (auto split: option.splits)
qed

lemma SLIST_FOREACH_PREVPTR_search:
  assumes "list_at s h (ys @ a # zs)" and "\<forall>y \<in> set ys. \<not> P y" and "P a"
  shows "SLIST_FOREACH_PREVPTR (\<lambda>var varp s. Inr (case var of NULL \<Rightarrow> False | Ptr x \<Rightarrow> P x, s)) h s =
    Some (Inr (Ptr a, cell_before h ys, s))" and "links s (cell_before h ys) = Some (Ptr a)"
proof -
  obtain p where p: "links s (First h) = Some p" "chain (links s) p (ys @ a # zs) NULL"
    using assms(1) by (auto simp: list_at_iff)
  then show "SLIST_FOREACH_PREVPTR (\<lambda>var varp s. Inr (case var of NULL \<Rightarrow> False | Ptr x \<Rightarrow> P x, s)) h s =
      Some (Inr (Ptr a, cell_before h ys, s))"
    using foreach_prevptr_search [OF p assms(2,3)]
    by (simp add: SLIST_FOREACH_PREVPTR_def cell_before_def)
  show "links s (cell_before h ys) = Some (Ptr a)"
    using p by (cases ys rule: rev_cases) (auto simp: cell_before_def chain_append split: option.splits)
qed

section \<open>The interface of a list\<close>

text \<open>
  What a user of a list relies on: insertion at the head and removal of a given element, on
  the list of elements the head represents. Elements are live objects of the user.
\<close>

fun insert_all :: "(nat \<Rightarrow> 's \<Rightarrow> 's res) \<Rightarrow> nat list \<Rightarrow> 's \<Rightarrow> 's res" where
  "insert_all ins [] s = Inr s"
| "insert_all ins (a # as) s = rbind (ins a s) (insert_all ins as)"

fun remove_all :: "(nat \<Rightarrow> 's \<Rightarrow> 's res option) \<Rightarrow> nat list \<Rightarrow> 's \<Rightarrow> 's res option" where
  "remove_all del [] s = Some (Inr s)"
| "remove_all del (a # as) s =
     (case del a s of None \<Rightarrow> None | Some (Inl e) \<Rightarrow> Some (Inl e) | Some (Inr s1) \<Rightarrow> remove_all del as s1)"

locale list_ops =
  fixes repr :: "'s \<Rightarrow> nat list \<Rightarrow> bool"
    and live :: "'s \<Rightarrow> nat set"
    and ins :: "nat \<Rightarrow> 's \<Rightarrow> 's res"
    and del :: "nat \<Rightarrow> 's \<Rightarrow> 's res option"
  assumes repr_distinct: "repr s xs \<Longrightarrow> distinct xs"
    and repr_live: "repr s xs \<Longrightarrow> set xs \<subseteq> live s"
    and ins_law: "repr s xs \<Longrightarrow> a \<in> live s \<Longrightarrow> a \<notin> set xs \<Longrightarrow>
      \<exists>s'. ins a s = Inr s' \<and> repr s' (a # xs) \<and> live s' = live s"
    and del_law: "repr s xs \<Longrightarrow> a \<in> set xs \<Longrightarrow>
      \<exists>s'. del a s = Some (Inr s') \<and> repr s' (remove1 a xs) \<and> live s' = live s"
begin

lemma insert_all_rev:
  assumes "repr s xs" and "set as \<subseteq> live s" and "distinct as" and "set as \<inter> set xs = {}"
  shows "\<exists>s'. insert_all ins as s = Inr s' \<and> repr s' (rev as @ xs) \<and> live s' = live s"
  using assms
proof (induction as arbitrary: s xs)
  case Nil
  then show ?case by simp
next
  case (Cons a as)
  then obtain s1 where s1: "ins a s = Inr s1" "repr s1 (a # xs)" "live s1 = live s"
    using ins_law [of s xs a] by auto
  then show ?case
    using Cons.IH [of s1 "a # xs"] Cons.prems by auto
qed

lemma remove_all_rest:
  assumes "repr s xs" and "set as \<subseteq> set xs" and "distinct as"
  shows "\<exists>s'. remove_all del as s = Some (Inr s') \<and> repr s' (filter (\<lambda>x. x \<notin> set as) xs) \<and> live s' = live s"
  using assms
proof (induction as arbitrary: s xs)
  case Nil
  then show ?case by simp
next
  case (Cons a as)
  then obtain s1 where s1: "del a s = Some (Inr s1)" "repr s1 (remove1 a xs)" "live s1 = live s"
    using del_law [of s xs a] by auto
  have rem: "remove1 a xs = filter (\<lambda>x. x \<noteq> a) xs"
    using repr_distinct [OF Cons.prems(1)] by (simp add: distinct_remove1_removeAll removeAll_filter_not_eq)
      (rule filter_cong, auto)
  show ?case
    using Cons.IH [OF s1(2)] Cons.prems s1(1,3) rem by (fastforce simp: conj_commute)
qed

text \<open>Elements inserted one by one can be removed in any order.\<close>

lemma insert_remove_all:
  assumes "repr s xs" and "set as \<subseteq> live s" and "distinct as" and "set as \<inter> set xs = {}"
    and "set bs = set as" and "distinct bs"
  shows "\<exists>s1 s2. insert_all ins as s = Inr s1 \<and> repr s1 (rev as @ xs) \<and>
    remove_all del bs s1 = Some (Inr s2) \<and> repr s2 xs"
proof -
  obtain s1 where s1: "insert_all ins as s = Inr s1" "repr s1 (rev as @ xs)"
    using insert_all_rev [OF assms(1-4)] by blast
  then obtain s2 where "remove_all del bs s1 = Some (Inr s2)" "repr s2 (filter (\<lambda>x. x \<notin> set bs) (rev as @ xs))"
    using remove_all_rest [OF s1(2), of bs] assms(5,6) by auto
  moreover have "filter (\<lambda>x. x \<notin> set bs) (rev as @ xs) = xs"
    using assms(4,5) by (auto simp: filter_empty_conv filter_id_conv)
  ultimately show ?thesis using s1 by auto
qed

end

definition live_elems :: "'z link_store_scheme \<Rightarrow> nat set" where
  "live_elems s = {a. links s (Next a) \<noteq> None}"

lemma live_elems_dom: "dom (links s') = dom (links s) \<Longrightarrow> live_elems s' = live_elems s"
  by (auto simp: live_elems_def domIff)

interpretation slist: list_ops "\<lambda>s. list_at s h" live_elems "\<lambda>a. SLIST_INSERT_HEAD h (Ptr a)"
  "\<lambda>a. SLIST_REMOVE h (Ptr a)" for h
proof unfold_locales
  fix s :: "'z link_store_scheme" and xs a
  assume repr: "list_at s h xs"
  show "distinct xs" by (rule list_at_distinct [OF repr])
  show "set xs \<subseteq> live_elems s"
    using list_at_live [OF repr] by (auto simp: live_elems_def)
  show "\<exists>s'. SLIST_INSERT_HEAD h (Ptr a) s = Inr s' \<and> list_at s' h (a # xs) \<and> live_elems s' = live_elems s"
    if a: "a \<in> live_elems s" "a \<notin> set xs"
  proof -
    have "links s (Next a) \<noteq> None" using a(1) by (simp add: live_elems_def)
    then obtain s' where "SLIST_INSERT_HEAD h (Ptr a) s = Inr s'" "list_at s' h (a # xs)"
      "dom (links s') = dom (links s)"
      using SLIST_INSERT_HEAD_list [OF repr _ a(2)] by blast
    then show ?thesis using live_elems_dom by blast
  qed
  show "\<exists>s'. SLIST_REMOVE h (Ptr a) s = Some (Inr s') \<and> list_at s' h (remove1 a xs) \<and> live_elems s' = live_elems s"
    if "a \<in> set xs"
    using SLIST_REMOVE_list [OF repr that] live_elems_dom by blast
qed

section \<open>Properties\<close>

text \<open>An instance: a store with two empty lists and four elements linked to nothing.\<close>

definition sample_store :: link_store where
  "sample_store = \<lparr>links = (\<lambda>l. case l of First h \<Rightarrow> if h < 2 then Some NULL else None
     | Next a \<Rightarrow> if a < 4 then Some NULL else None)\<rparr>"

lemma sample_store_lists: "list_at sample_store 0 []" "list_at sample_store 1 []"
  "live_elems sample_store = {a. a < 4}"
  by (auto simp: sample_store_def list_in_def live_elems_def split: if_splits)

definition linked_store :: link_store where
  "linked_store = \<lparr>links = [First 0 \<mapsto> Ptr 0, Next 0 \<mapsto> Ptr 1, Next 1 \<mapsto> NULL, First 1 \<mapsto> Ptr 2, Next 2 \<mapsto> NULL]\<rparr>"

lemma linked_store_lists: "list_at linked_store 0 [0, 1]" "list_at linked_store 1 [2]"
  by (simp_all add: linked_store_def list_in_def)

text \<open>
  C22: The singly-linked list. Inserting distinct live elements at the head of a list gives
  them in reverse order before the old ones; removing them again, in any order, ends (each
  search follows a list that ends) and restores the list.
\<close>

theorem slist_insert_remove:
  assumes "list_at s h xs" and "set as \<subseteq> live_elems s" and "distinct as" and "set as \<inter> set xs = {}"
    and "set bs = set as" and "distinct bs"
  shows "\<exists>s1 s2. insert_all (\<lambda>a. SLIST_INSERT_HEAD h (Ptr a)) as s = Inr s1 \<and> list_at s1 h (rev as @ xs) \<and>
    remove_all (\<lambda>a. SLIST_REMOVE h (Ptr a)) bs s1 = Some (Inr s2) \<and> list_at s2 h xs"
  using assms by (rule slist.insert_remove_all)

theorem slist_insert_remove_witness:
  "\<exists>s1 s2. insert_all (\<lambda>a. SLIST_INSERT_HEAD 0 (Ptr a)) [0, 1, 2] sample_store = Inr s1 \<and>
     list_at s1 0 [2, 1, 0] \<and> remove_all (\<lambda>a. SLIST_REMOVE 0 (Ptr a)) [1, 2, 0] s1 = Some (Inr s2) \<and>
     list_at s2 0 []"
  using slist_insert_remove [OF sample_store_lists(1), of "[0, 1, 2]" "[1, 2, 0]"]
  by (auto simp: sample_store_lists(3) simp del: insert_all.simps remove_all.simps)

text \<open>
  Iteration. Over a list that ends, \<^verbatim>\<open>SLIST_FOREACH\<close> runs the body on the elements in order
  as long as a body that goes on changes no link, and \<^verbatim>\<open>SLIST_FOREACH_SAFE\<close> even when it
  changes or frees the link of its own element; both end.
\<close>

theorem slist_foreach_visits:
  assumes "list_at s h xs"
  shows "(keeps_links body \<longrightarrow> SLIST_FOREACH body h s = Some (foreach_list body xs s)) \<and>
    (keeps_other_links body \<longrightarrow> SLIST_FOREACH_SAFE body h s = Some (foreach_list body xs s))"
  using assms SLIST_FOREACH_list SLIST_FOREACH_SAFE_list by blast

theorem slist_foreach_visits_witness:
  "SLIST_FOREACH (\<lambda>p s. Inr (p = Ptr 1, s)) 0 linked_store = Some (Inr (Ptr 1, linked_store)) \<and>
   SLIST_FOREACH_SAFE (\<lambda>p s. Inr (p = Ptr 1, s)) 0 linked_store = Some (Inr (Ptr 1, linked_store))"
proof -
  have "keeps_links (\<lambda>p s :: link_store. Inr (p = Ptr 1, s))"
    "keeps_other_links (\<lambda>p s :: link_store. Inr (p = Ptr 1, s))"
    by (auto simp: keeps_links_def keeps_other_links_def)
  then show ?thesis
    using slist_foreach_visits [OF linked_store_lists(1), of "\<lambda>p s. Inr (p = Ptr 1, s)"] by simp
qed

text \<open>
  Concatenation and exchange. \<^verbatim>\<open>SLIST_CONCAT\<close> of two disjoint lists ends, appends the second
  to the first and empties the second; \<^verbatim>\<open>SLIST_SWAP\<close> exchanges the two lists.
\<close>

theorem slist_concat_swap:
  assumes "list_at s h xs" and "list_at s g ys" and "h \<noteq> g" and "set xs \<inter> set ys = {}"
  shows "(\<exists>s'. SLIST_CONCAT h g s = Some (Inr s') \<and> list_at s' h (xs @ ys) \<and> list_at s' g []) \<and>
    (\<exists>s'. SLIST_SWAP h g s = Inr s' \<and> list_at s' h ys \<and> list_at s' g xs)"
  using SLIST_CONCAT_list [OF assms] SLIST_SWAP_list [OF assms(1-3)] by blast

theorem slist_concat_swap_witness:
  "(\<exists>s'. SLIST_CONCAT 0 1 linked_store = Some (Inr s') \<and> list_at s' 0 [0, 1, 2]) \<and>
   (\<exists>s'. SLIST_SWAP 0 1 linked_store = Inr s' \<and> list_at s' 0 [2])"
  using slist_concat_swap [OF linked_store_lists] by auto

end
