(* ===== verification/Queue_DList.thy ===== *)
theory Queue_DList
  imports Queue_SList
begin

text \<open>
  The doubly-linked list of \<^verbatim>\<open>server/queue.h\<close> (the \<^verbatim>\<open>LIST\<close> macros). An element has a second link
  field, the address of the cell that points to it; that is what makes removal of an element
  possible without a search. The checks of \<^verbatim>\<open>QMD_LIST_CHECK\<close> are compiled out in user space.
\<close>

section \<open>The macros\<close>

record dl_store = link_store +
  le_prev :: "nat \<rightharpoonup> link"

definition get_prev :: "ptr \<Rightarrow> 'z dl_store_scheme \<Rightarrow> link res" where
  "get_prev p s = (case p of NULL \<Rightarrow> Inl Null_Deref
     | Ptr a \<Rightarrow> (case le_prev s a of None \<Rightarrow> Inl Wild_Pointer | Some l \<Rightarrow> Inr l))"

definition set_prev :: "ptr \<Rightarrow> link \<Rightarrow> 'z dl_store_scheme \<Rightarrow> 'z dl_store_scheme res" where
  "set_prev p l s = (case p of NULL \<Rightarrow> Inl Null_Deref
     | Ptr a \<Rightarrow> if le_prev s a = None then Inl Wild_Pointer
               else Inr (s\<lparr>le_prev := (le_prev s)(a \<mapsto> l)\<rparr>))"

definition LIST_FIRST :: "nat \<Rightarrow> 'z dl_store_scheme \<Rightarrow> ptr res" where
  "LIST_FIRST head s = load s (First head)"

definition LIST_NEXT :: "ptr \<Rightarrow> 'z dl_store_scheme \<Rightarrow> ptr res" where
  "LIST_NEXT elm s = rbind (next_cell elm) (load s)"

definition set_LIST_NEXT :: "ptr \<Rightarrow> ptr \<Rightarrow> 'z dl_store_scheme \<Rightarrow> 'z dl_store_scheme res" where
  "set_LIST_NEXT elm p s = rbind (next_cell elm) (\<lambda>l. store l p s)"

definition LIST_EMPTY :: "nat \<Rightarrow> 'z dl_store_scheme \<Rightarrow> bool res" where
  "LIST_EMPTY head s = rbind (LIST_FIRST head s) (\<lambda>p. Inr (p = NULL))"

definition LIST_INIT :: "nat \<Rightarrow> 'z dl_store_scheme \<Rightarrow> 'z dl_store_scheme res" where
  "LIST_INIT head s = store (First head) NULL s"

definition LIST_HEAD_INITIALIZER :: "nat \<Rightarrow> 'z dl_store_scheme \<Rightarrow> 'z dl_store_scheme" where
  "LIST_HEAD_INITIALIZER head s = s\<lparr>links := (links s)(First head \<mapsto> NULL)\<rparr>"

definition LIST_INSERT_AFTER :: "ptr \<Rightarrow> ptr \<Rightarrow> 'z dl_store_scheme \<Rightarrow> 'z dl_store_scheme res" where
  "LIST_INSERT_AFTER listelm elm s =
     rbind (LIST_NEXT listelm s) (\<lambda>n. rbind (set_LIST_NEXT elm n s) (\<lambda>s1.
       rbind (next_cell elm) (\<lambda>l. rbind (next_cell listelm) (\<lambda>m.
         rbind (if n \<noteq> NULL then rbind (LIST_NEXT listelm s1) (\<lambda>n1. set_prev n1 l s1) else Inr s1) (\<lambda>s2.
           rbind (set_LIST_NEXT listelm elm s2) (\<lambda>s3. set_prev elm m s3))))))"

definition LIST_INSERT_BEFORE :: "ptr \<Rightarrow> ptr \<Rightarrow> 'z dl_store_scheme \<Rightarrow> 'z dl_store_scheme res" where
  "LIST_INSERT_BEFORE listelm elm s =
     rbind (get_prev listelm s) (\<lambda>pr. rbind (set_prev elm pr s) (\<lambda>s1.
       rbind (set_LIST_NEXT elm listelm s1) (\<lambda>s2. rbind (get_prev listelm s2) (\<lambda>pr2.
         rbind (store pr2 elm s2) (\<lambda>s3. rbind (next_cell elm) (\<lambda>l. set_prev listelm l s3))))))"

definition LIST_INSERT_HEAD :: "nat \<Rightarrow> ptr \<Rightarrow> 'z dl_store_scheme \<Rightarrow> 'z dl_store_scheme res" where
  "LIST_INSERT_HEAD head elm s =
     rbind (LIST_FIRST head s) (\<lambda>f. rbind (set_LIST_NEXT elm f s) (\<lambda>s1.
       rbind (next_cell elm) (\<lambda>l.
         rbind (if f \<noteq> NULL then rbind (LIST_FIRST head s1) (\<lambda>f1. set_prev f1 l s1) else Inr s1) (\<lambda>s2.
           rbind (store (First head) elm s2) (\<lambda>s3. set_prev elm (First head) s3)))))"

definition LIST_PREV :: "ptr \<Rightarrow> nat \<Rightarrow> 'z dl_store_scheme \<Rightarrow> ptr res" where
  "LIST_PREV elm head s =
     rbind (get_prev elm s) (\<lambda>l. if l = First head then Inr NULL
       else case l of Next a \<Rightarrow> Inr (Ptr a) | First h \<Rightarrow> Inl Wild_Pointer)"

definition LIST_REMOVE :: "ptr \<Rightarrow> 'z dl_store_scheme \<Rightarrow> 'z dl_store_scheme res" where
  "LIST_REMOVE elm s =
     rbind (LIST_NEXT elm s) (\<lambda>n.
       rbind (if n \<noteq> NULL then rbind (get_prev elm s) (\<lambda>pr. set_prev n pr s) else Inr s) (\<lambda>s1.
         rbind (get_prev elm s1) (\<lambda>pr. rbind (LIST_NEXT elm s1) (\<lambda>n1. store pr n1 s1))))"

definition LIST_CONCAT :: "nat \<Rightarrow> nat \<Rightarrow> 'z dl_store_scheme \<Rightarrow> 'z dl_store_scheme res option" where
  "LIST_CONCAT head1 head2 s =
     (case LIST_FIRST head1 s of
        Inl e \<Rightarrow> Some (Inl e)
      | Inr curelm \<Rightarrow>
          (case LIST_FIRST head2 s of
             Inl e \<Rightarrow> Some (Inl e)
           | Inr f2 \<Rightarrow>
               if curelm = NULL
               then Some (rbind (store (First head1) f2 s) (\<lambda>s1.
                      if f2 \<noteq> NULL
                      then rbind (LIST_FIRST head2 s1) (\<lambda>g. rbind (set_prev g (First head1) s1) (LIST_INIT head2))
                      else Inr s1))
               else if f2 \<noteq> NULL
               then map_option (\<lambda>r. rbind r (\<lambda>last. rbind (set_LIST_NEXT last f2 s) (\<lambda>s1.
                      rbind (LIST_FIRST head2 s1) (\<lambda>g. rbind (next_cell last) (\<lambda>l.
                        rbind (set_prev g l s1) (LIST_INIT head2)))))) (concat_loop curelm s)
               else Some (Inr s)))"

definition LIST_SWAP :: "nat \<Rightarrow> nat \<Rightarrow> 'z dl_store_scheme \<Rightarrow> 'z dl_store_scheme res" where
  "LIST_SWAP head1 head2 s =
     rbind (LIST_FIRST head1 s) (\<lambda>swap_tmp. rbind (LIST_FIRST head2 s) (\<lambda>f2.
       rbind (store (First head1) f2 s) (\<lambda>s1. rbind (store (First head2) swap_tmp s1) (\<lambda>s2.
         rbind (LIST_FIRST head1 s2) (\<lambda>t1.
           rbind (if t1 \<noteq> NULL then set_prev t1 (First head1) s2 else Inr s2) (\<lambda>s3.
             rbind (LIST_FIRST head2 s3) (\<lambda>t2.
               if t2 \<noteq> NULL then set_prev t2 (First head2) s3 else Inr s3)))))))"

definition LIST_FOREACH where
  "LIST_FOREACH body head s =
     (case LIST_FIRST head s of Inl e \<Rightarrow> Some (Inl e) | Inr f \<Rightarrow> foreach_loop body f s)"

definition LIST_FOREACH_FROM where
  "LIST_FOREACH_FROM body var head s =
     (if var \<noteq> NULL then foreach_loop body var s else LIST_FOREACH body head s)"

definition LIST_FOREACH_SAFE where
  "LIST_FOREACH_SAFE body head s =
     (case LIST_FIRST head s of Inl e \<Rightarrow> Some (Inl e) | Inr f \<Rightarrow> foreach_safe_loop body f s)"

definition LIST_FOREACH_FROM_SAFE where
  "LIST_FOREACH_FROM_SAFE body var head s =
     (if var \<noteq> NULL then foreach_safe_loop body var s else LIST_FOREACH_SAFE body head s)"

section \<open>Back links\<close>

text \<open>Every element's back link is the cell that points to it; \<open>c\<close> is the cell before the first.\<close>

fun prevs_ok :: "(nat \<rightharpoonup> link) \<Rightarrow> link \<Rightarrow> nat list \<Rightarrow> bool" where
  "prevs_ok pm c [] \<longleftrightarrow> True"
| "prevs_ok pm c (a # xs) \<longleftrightarrow> pm a = Some c \<and> prevs_ok pm (Next a) xs"

definition dl_at :: "'z dl_store_scheme \<Rightarrow> nat \<Rightarrow> nat list \<Rightarrow> bool" where
  "dl_at s h xs \<longleftrightarrow> list_at s h xs \<and> prevs_ok (le_prev s) (First h) xs"

text \<open>An element that is live has both fields.\<close>

definition dl_live :: "'z dl_store_scheme \<Rightarrow> nat set" where
  "dl_live s = {a. links s (Next a) \<noteq> None \<and> le_prev s a \<noteq> None}"

lemma prevs_ok_append:
  "prevs_ok pm c (xs @ ys) \<longleftrightarrow> prevs_ok pm c xs \<and> prevs_ok pm (if xs = [] then c else Next (last xs)) ys"
  by (induction xs arbitrary: c) auto

lemma prevs_ok_cell:
  "prevs_ok pm (First h) (xs @ ys) \<longleftrightarrow> prevs_ok pm (First h) xs \<and> prevs_ok pm (cell_before h xs) ys"
  by (simp add: prevs_ok_append cell_before_def)

lemma prevs_ok_upd [simp]: "a \<notin> set xs \<Longrightarrow> prevs_ok (pm(a := v)) c xs = prevs_ok pm c xs"
  by (induction xs arbitrary: c) auto

lemma prevs_ok_live: "prevs_ok pm c xs \<Longrightarrow> a \<in> set xs \<Longrightarrow> pm a \<noteq> None"
  by (induction xs arbitrary: c) auto

text \<open>Redirecting the back link of the first element of a list, when there is one.\<close>

definition repoint :: "(nat \<rightharpoonup> link) \<Rightarrow> nat list \<Rightarrow> link \<Rightarrow> (nat \<rightharpoonup> link)" where
  "repoint pm ys l = (case ys of [] \<Rightarrow> pm | y # _ \<Rightarrow> pm(y \<mapsto> l))"

lemma prevs_ok_repoint:
  "prevs_ok pm c ys \<Longrightarrow> distinct ys \<Longrightarrow> prevs_ok (repoint pm ys l) l ys"
  by (cases ys) (auto simp: repoint_def)

lemma prevs_ok_repoint_other: "set xs \<inter> set ys = {} \<Longrightarrow> prevs_ok (repoint pm ys l) c xs = prevs_ok pm c xs"
  by (cases ys) (auto simp: repoint_def)

lemma repoint_at [simp]: "a \<notin> set ys \<Longrightarrow> repoint pm ys l a = pm a"
  by (cases ys) (auto simp: repoint_def)

lemma repoint_dom: "set ys \<subseteq> dom pm \<Longrightarrow> dom (repoint pm ys l) = dom pm"
  by (cases ys) (auto simp: repoint_def)

lemma dl_at_distinct: "dl_at s h xs \<Longrightarrow> distinct xs"
  unfolding dl_at_def using list_at_distinct by blast

lemma last_take_nth: "0 < i \<Longrightarrow> i < length xs \<Longrightarrow> last (take i xs) = xs ! (i - 1)"
  by (subst last_conv_nth) (auto simp: min_def)

text \<open>The two surgeries every operation is made of.\<close>

lemma dl_insert:
  assumes "dl_at s h (xs @ ys)" and "links s (cell_before h xs) = Some q" and "a \<notin> set (xs @ ys)"
    and "links s' = (links s)(Next a \<mapsto> q, cell_before h xs \<mapsto> Ptr a)"
    and "le_prev s' = (repoint (le_prev s) ys (Next a))(a \<mapsto> cell_before h xs)"
  shows "dl_at s' h (xs @ a # ys)"
proof -
  have d: "distinct (xs @ ys)" by (rule dl_at_distinct [OF assms(1)])
  have "list_at s' h (xs @ a # ys)"
    using list_at_insert [of s h xs ys q a] assms by (simp add: dl_at_def)
  moreover have "prevs_ok (le_prev s) (First h) xs" "prevs_ok (le_prev s) (cell_before h xs) ys"
    using assms(1) by (simp_all add: dl_at_def prevs_ok_cell)
  then have "prevs_ok (le_prev s') (First h) (xs @ a # ys)"
    using assms(3,5) d prevs_ok_repoint [of "le_prev s" _ ys "Next a"]
    by (auto simp: prevs_ok_cell prevs_ok_repoint_other)
  ultimately show ?thesis by (simp add: dl_at_def)
qed

lemma dl_drop:
  assumes "dl_at s h (xs @ a # ys)" and "links s (Next a) = Some q"
    and "links s' = (links s)(cell_before h xs \<mapsto> q)"
    and "le_prev s' = repoint (le_prev s) ys (cell_before h xs)"
  shows "dl_at s' h (xs @ ys)"
proof -
  have d: "distinct (xs @ a # ys)" by (rule dl_at_distinct [OF assms(1)])
  have "list_at s' h (xs @ ys)"
    using list_at_drop [of s h xs a ys q] assms by (simp add: dl_at_def)
  moreover have "prevs_ok (le_prev s) (First h) xs" "prevs_ok (le_prev s) (Next a) ys"
    using assms(1) by (simp_all add: dl_at_def prevs_ok_cell)
  then have "prevs_ok (le_prev s') (First h) (xs @ ys)"
    using assms(4) d prevs_ok_repoint [of "le_prev s" _ ys "cell_before h xs"]
    by (auto simp: prevs_ok_cell prevs_ok_repoint_other)
  ultimately show ?thesis by (simp add: dl_at_def)
qed

section \<open>Effects on lists of elements\<close>

lemmas dl_defs = LIST_FIRST_def LIST_NEXT_def set_LIST_NEXT_def LIST_EMPTY_def get_prev_def set_prev_def

lemma dl_cells:
  assumes "dl_at s h (xs @ a # ys)"
  shows "links s (cell_before h xs) = Some (Ptr a)" and "le_prev s a = Some (cell_before h xs)"
    and "\<exists>q. links s (Next a) = Some q \<and> (case ys of [] \<Rightarrow> q = NULL | y # _ \<Rightarrow> q = Ptr y \<and> le_prev s y = Some (Next a))"
proof -
  have l: "list_at s h (xs @ a # ys)" "list_at s h ((xs @ [a]) @ ys)" using assms by (simp_all add: dl_at_def)
  show "links s (cell_before h xs) = Some (Ptr a)" using list_at_cell [OF l(1)] by auto
  show "le_prev s a = Some (cell_before h xs)" using assms by (simp add: dl_at_def prevs_ok_cell)
  have "prevs_ok (le_prev s) (Next a) ys" using assms by (simp add: dl_at_def prevs_ok_cell)
  then show "\<exists>q. links s (Next a) = Some q \<and> (case ys of [] \<Rightarrow> q = NULL | y # _ \<Rightarrow> q = Ptr y \<and> le_prev s y = Some (Next a))"
    using list_at_cell [OF l(2)] by (cases ys) auto
qed

lemma dl_first:
  assumes "dl_at s h xs"
  shows "links s (First h) = Some (case xs of [] \<Rightarrow> NULL | a # _ \<Rightarrow> Ptr a)"
  using assms by (cases xs) (auto simp: dl_at_def list_at_iff)

lemma LIST_INIT_list: "links s (First h) \<noteq> None \<Longrightarrow> \<exists>s'. LIST_INIT h s = Inr s' \<and> dl_at s' h []"
  by (auto simp: LIST_INIT_def dl_at_def list_at_iff)

lemma LIST_HEAD_INITIALIZER_list: "dl_at (LIST_HEAD_INITIALIZER h s) h []"
  by (simp add: LIST_HEAD_INITIALIZER_def dl_at_def list_at_iff)

lemma LIST_INSERT_HEAD_list:
  assumes "dl_at s h xs" and "a \<in> dl_live s" and "a \<notin> set xs"
  shows "\<exists>s'. LIST_INSERT_HEAD h (Ptr a) s = Inr s' \<and> dl_at s' h (a # xs) \<and> dl_live s' = dl_live s"
proof -
  let ?q = "case xs of [] \<Rightarrow> NULL | a # _ \<Rightarrow> Ptr a"
  let ?s' = "s\<lparr>links := (links s)(Next a \<mapsto> ?q, First h \<mapsto> Ptr a),
      le_prev := (repoint (le_prev s) xs (Next a))(a \<mapsto> First h)\<rparr>"
  have a: "links s (Next a) \<noteq> None" "le_prev s a \<noteq> None" using assms(2) by (auto simp: dl_live_def)
  have f: "links s (First h) = Some ?q" by (rule dl_first [OF assms(1)])
  have p: "xs = b # bs \<Longrightarrow> le_prev s b = Some (First h)" for b bs
    using assms(1) by (simp add: dl_at_def)
  have "LIST_INSERT_HEAD h (Ptr a) s = Inr ?s'"
    using f a p assms(3) by (cases xs) (auto simp: LIST_INSERT_HEAD_def dl_defs repoint_def)
  moreover have "dl_at ?s' h ([] @ a # xs)"
    using assms f by (intro dl_insert [of s h "[]" xs ?q a]) auto
  moreover have "dl_live ?s' = dl_live s"
    using a p assms(1) by (cases xs) (auto simp: dl_live_def repoint_def)
  ultimately show ?thesis by auto
qed

lemma LIST_INSERT_AFTER_list:
  assumes "dl_at s h (ys @ b # zs)" and "a \<in> dl_live s" and "a \<notin> set (ys @ b # zs)"
  shows "\<exists>s'. LIST_INSERT_AFTER (Ptr b) (Ptr a) s = Inr s' \<and> dl_at s' h (ys @ b # a # zs)"
proof -
  obtain q where q: "links s (Next b) = Some q"
    "case zs of [] \<Rightarrow> q = NULL | z # _ \<Rightarrow> q = Ptr z \<and> le_prev s z = Some (Next b)"
    using dl_cells(3) [OF assms(1)] by blast
  let ?s' = "s\<lparr>links := (links s)(Next a \<mapsto> q, Next b \<mapsto> Ptr a),
      le_prev := (repoint (le_prev s) zs (Next a))(a \<mapsto> Next b)\<rparr>"
  have a: "links s (Next a) \<noteq> None" "le_prev s a \<noteq> None" using assms(2) by (auto simp: dl_live_def)
  have "LIST_INSERT_AFTER (Ptr b) (Ptr a) s = Inr ?s'"
    using q a assms(3) by (cases zs) (auto simp: LIST_INSERT_AFTER_def dl_defs repoint_def)
  moreover have "dl_at ?s' h ((ys @ [b]) @ a # zs)"
    using assms q(1) by (intro dl_insert [of s h "ys @ [b]" zs q a]) auto
  ultimately show ?thesis by auto
qed

lemma LIST_INSERT_BEFORE_list:
  assumes "dl_at s h (ys @ b # zs)" and "a \<in> dl_live s" and "a \<notin> set (ys @ b # zs)"
  shows "\<exists>s'. LIST_INSERT_BEFORE (Ptr b) (Ptr a) s = Inr s' \<and> dl_at s' h (ys @ a # b # zs)"
proof -
  let ?c = "cell_before h ys"
  let ?s' = "s\<lparr>links := (links s)(Next a \<mapsto> Ptr b, ?c \<mapsto> Ptr a),
      le_prev := (repoint (le_prev s) (b # zs) (Next a))(a \<mapsto> ?c)\<rparr>"
  have a: "links s (Next a) \<noteq> None" "le_prev s a \<noteq> None" using assms(2) by (auto simp: dl_live_def)
  have ne: "?c \<noteq> Next a" "a \<noteq> b" using assms(3) cell_before_inj [of h ys a] by auto
  have "LIST_INSERT_BEFORE (Ptr b) (Ptr a) s = Inr ?s'"
    using dl_cells(1,2) [OF assms(1)] a ne
    by (auto simp: LIST_INSERT_BEFORE_def dl_defs repoint_def fun_upd_twist)
  moreover have "dl_at ?s' h (ys @ a # b # zs)"
    using assms dl_cells(1) [OF assms(1)] by (intro dl_insert [of s h ys "b # zs" "Ptr b" a]) auto
  ultimately show ?thesis by auto
qed

lemma LIST_REMOVE_list:
  assumes "dl_at s h (ys @ a # zs)"
  shows "\<exists>s'. LIST_REMOVE (Ptr a) s = Inr s' \<and> dl_at s' h (ys @ zs) \<and> dl_live s' = dl_live s"
proof -
  let ?c = "cell_before h ys"
  obtain q where q: "links s (Next a) = Some q"
    "case zs of [] \<Rightarrow> q = NULL | z # _ \<Rightarrow> q = Ptr z \<and> le_prev s z = Some (Next a)"
    using dl_cells(3) [OF assms] by blast
  let ?s' = "s\<lparr>links := (links s)(?c \<mapsto> q), le_prev := repoint (le_prev s) zs ?c\<rparr>"
  have z: "zs = z # zs' \<Longrightarrow> z \<noteq> a" for z zs' using dl_at_distinct [OF assms] by auto
  have "LIST_REMOVE (Ptr a) s = Inr ?s'"
    using dl_cells(1,2) [OF assms] q z
    by (cases zs) (auto simp: LIST_REMOVE_def dl_defs repoint_def)
  moreover have "dl_at ?s' h (ys @ zs)"
    using assms q(1) by (intro dl_drop [of s h ys a zs q]) auto
  moreover have "dl_live ?s' = dl_live s"
    using q dl_cells(1) [OF assms] by (cases zs) (auto simp: dl_live_def repoint_def)
  ultimately show ?thesis by auto
qed

lemma LIST_PREV_list:
  assumes "dl_at s h (ys @ a # zs)"
  shows "LIST_PREV (Ptr a) h s = Inr (if ys = [] then NULL else Ptr (last ys))"
  using dl_cells(2) [OF assms] by (auto simp: LIST_PREV_def dl_defs)

lemma LIST_PREV_nth:
  assumes "dl_at s h xs" and "i < length xs"
  shows "LIST_PREV (Ptr (xs ! i)) h s = Inr (if i = 0 then NULL else Ptr (xs ! (i - 1)))"
proof -
  have "dl_at s h (take i xs @ xs ! i # drop (Suc i) xs)"
    using assms by (simp add: id_take_nth_drop [symmetric])
  then show ?thesis using LIST_PREV_list [of s h "take i xs" "xs ! i" "drop (Suc i) xs"] assms(2) by (auto simp: last_take_nth)
qed

lemma dl_join:
  assumes "dl_at s h xs" and "dl_at s g ys" and "links s (First g) = Some q" and "h \<noteq> g"
    and "set xs \<inter> set ys = {}"
    and "links s' = (links s)(cell_before h xs \<mapsto> q, First g \<mapsto> NULL)"
    and "le_prev s' = repoint (le_prev s) ys (cell_before h xs)"
  shows "dl_at s' h (xs @ ys)" and "dl_at s' g []"
proof -
  have "list_at s' h (xs @ ys)" "list_at s' g []"
    using list_at_join [of s h xs g ys q] assms by (simp_all add: dl_at_def)
  moreover have "prevs_ok (le_prev s') (First h) (xs @ ys)"
    using assms prevs_ok_repoint [of "le_prev s" "First g" ys "cell_before h xs"] dl_at_distinct [OF assms(2)]
    by (simp add: dl_at_def prevs_ok_cell prevs_ok_repoint_other)
  ultimately show "dl_at s' h (xs @ ys)" "dl_at s' g []" by (simp_all add: dl_at_def)
qed

lemma LIST_CONCAT_list:
  assumes "dl_at s h xs" and "dl_at s g ys" and "h \<noteq> g" and "set xs \<inter> set ys = {}"
  shows "\<exists>s'. LIST_CONCAT h g s = Some (Inr s') \<and> dl_at s' h (xs @ ys) \<and> dl_at s' g []"
proof (cases ys)
  case Nil
  have f: "links s (First h) = Some (case xs of [] \<Rightarrow> NULL | a # _ \<Rightarrow> Ptr a)" "links s (First g) = Some NULL"
    using dl_first [OF assms(1)] dl_first [OF assms(2)] Nil by simp_all
  have "LIST_CONCAT h g s = Some (Inr s)"
  proof (cases xs)
    case Nil
    then have "(links s)(First h \<mapsto> NULL) = links s" using f by (simp add: fun_upd_idem)
    with f Nil show ?thesis by (simp add: LIST_CONCAT_def dl_defs)
  qed (use f in \<open>simp add: LIST_CONCAT_def dl_defs\<close>)
  then show ?thesis using assms Nil by simp
next
  case (Cons y ys')
  let ?c = "cell_before h xs"
  let ?s' = "s\<lparr>links := (links s)(?c \<mapsto> Ptr y, First g \<mapsto> NULL), le_prev := repoint (le_prev s) ys ?c\<rparr>"
  have f: "links s (First h) = Some (case xs of [] \<Rightarrow> NULL | a # _ \<Rightarrow> Ptr a)" "links s (First g) = Some (Ptr y)"
    using dl_first [OF assms(1)] dl_first [OF assms(2)] Cons by simp_all
  have p: "le_prev s y = Some (First g)" using assms(2) Cons by (simp add: dl_at_def)
  have "LIST_CONCAT h g s = Some (Inr ?s')"
  proof (cases xs)
    case Nil
    with f p Cons assms(3) show ?thesis by (simp add: LIST_CONCAT_def LIST_INIT_def dl_defs repoint_def)
  next
    case xs: (Cons c cs)
    have "chain (links s) (Ptr c) (c # cs) NULL"
      using assms(1) f(1) xs by (auto simp: dl_at_def list_at_iff)
    then have "concat_loop (Ptr c) s = Some (Inr (Ptr (last xs)))"
      using concat_loop_last [of s c cs] xs by simp
    moreover have "links s (Next (last xs)) \<noteq> None"
      using assms(1) list_at_live [of s h xs "last xs"] xs by (simp add: dl_at_def)
    ultimately show ?thesis
      using f p Cons xs by (auto simp: LIST_CONCAT_def LIST_INIT_def dl_defs repoint_def)
  qed
  moreover have "dl_at ?s' h (xs @ ys)" "dl_at ?s' g []"
    using dl_join [OF assms(1,2) f(2) assms(3,4), of ?s'] by simp_all
  ultimately show ?thesis by auto
qed

lemma LIST_SWAP_list:
  assumes "dl_at s h xs" and "dl_at s g ys" and "h \<noteq> g" and "set xs \<inter> set ys = {}"
  shows "\<exists>s'. LIST_SWAP h g s = Inr s' \<and> dl_at s' h ys \<and> dl_at s' g xs"
proof -
  let ?p = "case xs of [] \<Rightarrow> NULL | a # _ \<Rightarrow> Ptr a" and ?q = "case ys of [] \<Rightarrow> NULL | a # _ \<Rightarrow> Ptr a"
  let ?s' = "s\<lparr>links := (links s)(First h \<mapsto> ?q, First g \<mapsto> ?p),
      le_prev := repoint (repoint (le_prev s) ys (First h)) xs (First g)\<rparr>"
  have f: "links s (First h) = Some ?p" "links s (First g) = Some ?q"
    by (rule dl_first [OF assms(1)], rule dl_first [OF assms(2)])
  have pr: "xs = a # as \<Longrightarrow> le_prev s a = Some (First h)" "ys = b # bs \<Longrightarrow> le_prev s b = Some (First g)" for a as b bs
    using assms(1,2) by (simp_all add: dl_at_def)
  have run: "LIST_SWAP h g s = Inr ?s'"
    using f pr assms(3) by (cases xs; cases ys) (auto simp: LIST_SWAP_def dl_defs repoint_def)
  have c: "chain (links s) ?p xs NULL" "chain (links s) ?q ys NULL"
    using assms(1,2) f by (auto simp: dl_at_def list_at_iff)
  have d: "distinct xs" "distinct ys" by (rule dl_at_distinct [OF assms(1)], rule dl_at_distinct [OF assms(2)])
  have k: "prevs_ok (le_prev s) (First h) xs" "prevs_ok (le_prev s) (First g) ys"
    using assms(1,2) by (simp_all add: dl_at_def)
  have "set ys \<inter> set xs = {}" using assms(4) by blast
  then have "prevs_ok (le_prev ?s') (First h) ys"
    using prevs_ok_repoint [OF k(2) d(2), of "First h"] by (simp add: prevs_ok_repoint_other)
  moreover have "prevs_ok (repoint (le_prev s) ys (First h)) (First h) xs"
    using k(1) assms(4) by (simp add: prevs_ok_repoint_other)
  then have "prevs_ok (le_prev ?s') (First g) xs"
    using prevs_ok_repoint [OF _ d(1)] by simp
  ultimately show ?thesis
    using run c assms(3) by (auto simp: dl_at_def list_at_iff)
qed

section \<open>The list implements the list interface\<close>

lemma dl_at_live: "dl_at s h xs \<Longrightarrow> set xs \<subseteq> dl_live s"
  using list_at_live [of s h xs] prevs_ok_live by (fastforce simp: dl_at_def dl_live_def)

interpretation dlist: list_ops "\<lambda>s. dl_at s h" dl_live "\<lambda>a. LIST_INSERT_HEAD h (Ptr a)"
  "\<lambda>a s. Some (LIST_REMOVE (Ptr a) s)" for h
proof unfold_locales
  fix s :: "'z dl_store_scheme" and xs a
  assume repr: "dl_at s h xs"
  show "distinct xs" by (rule dl_at_distinct [OF repr])
  show "set xs \<subseteq> dl_live s" by (rule dl_at_live [OF repr])
  show "\<exists>s'. LIST_INSERT_HEAD h (Ptr a) s = Inr s' \<and> dl_at s' h (a # xs) \<and> dl_live s' = dl_live s"
    if "a \<in> dl_live s" "a \<notin> set xs"
    using LIST_INSERT_HEAD_list [OF repr that] .
  show "\<exists>s'. Some (LIST_REMOVE (Ptr a) s) = Some (Inr s') \<and> dl_at s' h (remove1 a xs) \<and> dl_live s' = dl_live s"
    if "a \<in> set xs"
  proof -
    obtain ys zs where "xs = ys @ a # zs" "a \<notin> set ys"
      using \<open>a \<in> set xs\<close> by (auto dest: split_list_first)
    then show ?thesis
      using LIST_REMOVE_list [of s h ys a zs] repr by (simp add: remove1_append)
  qed
qed

section \<open>Properties\<close>

text \<open>An instance: an empty list and four elements.\<close>

definition dl_sample :: dl_store where
  "dl_sample = \<lparr>links = links sample_store, le_prev = (\<lambda>a. if a < 4 then Some (First 0) else None)\<rparr>"

lemma dl_sample_lists: "dl_at dl_sample 0 []" "dl_live dl_sample = {a. a < 4}"
  using sample_store_lists by (auto simp: dl_sample_def dl_at_def dl_live_def live_elems_def)

text \<open>
  C24: The doubly-linked list. Inserting distinct live elements at the head gives them in reverse
  order before the old ones, with every element's back link leading to its predecessor (null for
  the first); removing them again in any order, each without a search, restores the list.
\<close>

theorem dlist_insert_remove:
  assumes "dl_at s h xs" and "set as \<subseteq> dl_live s" and "distinct as" and "set as \<inter> set xs = {}"
    and "set bs = set as" and "distinct bs"
  shows "\<exists>s1 s2. insert_all (\<lambda>a. LIST_INSERT_HEAD h (Ptr a)) as s = Inr s1 \<and> dl_at s1 h (rev as @ xs) \<and>
    (\<forall>i < length (rev as @ xs). LIST_PREV (Ptr ((rev as @ xs) ! i)) h s1 =
       Inr (if i = 0 then NULL else Ptr ((rev as @ xs) ! (i - 1)))) \<and>
    remove_all (\<lambda>a s. Some (LIST_REMOVE (Ptr a) s)) bs s1 = Some (Inr s2) \<and> dl_at s2 h xs"
  using dlist.insert_remove_all [OF assms] LIST_PREV_nth by blast

theorem dlist_insert_remove_witness:
  "\<exists>s1 s2. insert_all (\<lambda>a. LIST_INSERT_HEAD 0 (Ptr a)) [0, 1, 2] dl_sample = Inr s1 \<and>
     dl_at s1 0 [2, 1, 0] \<and>
     remove_all (\<lambda>a s. Some (LIST_REMOVE (Ptr a) s)) [1, 2, 0] s1 = Some (Inr s2) \<and> dl_at s2 0 []"
  using dlist_insert_remove [OF dl_sample_lists(1), of "[0, 1, 2]" "[1, 2, 0]"]
  by (auto simp: dl_sample_lists(2) simp del: insert_all.simps remove_all.simps)

end
