(* ===== verification/Queue_STailq.thy ===== *)
theory Queue_STailq
  imports Queue_SList
begin

text \<open>
  The singly-linked tail queue of \<^verbatim>\<open>server/queue.h\<close> (the \<^verbatim>\<open>STAILQ\<close> macros). A head has a second
  field, the address of the cell that ends the list; the invariant of the structure is that
  it is the cell after the last element.
\<close>

section \<open>The macros\<close>

record stq_store = link_store +
  stqh_last :: "nat \<rightharpoonup> link"

definition stq_last :: "nat \<Rightarrow> 'z stq_store_scheme \<Rightarrow> link res" where
  "stq_last head s = (case stqh_last s head of None \<Rightarrow> Inl Wild_Pointer | Some l \<Rightarrow> Inr l)"

definition set_stq_last :: "nat \<Rightarrow> link \<Rightarrow> 'z stq_store_scheme \<Rightarrow> 'z stq_store_scheme" where
  "set_stq_last head l s = s\<lparr>stqh_last := (stqh_last s)(head \<mapsto> l)\<rparr>"

definition STAILQ_FIRST :: "nat \<Rightarrow> 'z stq_store_scheme \<Rightarrow> ptr res" where
  "STAILQ_FIRST head s = load s (First head)"

definition STAILQ_NEXT :: "ptr \<Rightarrow> 'z stq_store_scheme \<Rightarrow> ptr res" where
  "STAILQ_NEXT elm s = rbind (next_cell elm) (load s)"

definition set_STAILQ_NEXT :: "ptr \<Rightarrow> ptr \<Rightarrow> 'z stq_store_scheme \<Rightarrow> 'z stq_store_scheme res" where
  "set_STAILQ_NEXT elm p s = rbind (next_cell elm) (\<lambda>l. store l p s)"

definition STAILQ_EMPTY :: "nat \<Rightarrow> 'z stq_store_scheme \<Rightarrow> bool res" where
  "STAILQ_EMPTY head s = rbind (STAILQ_FIRST head s) (\<lambda>p. Inr (p = NULL))"

definition STAILQ_INIT :: "nat \<Rightarrow> 'z stq_store_scheme \<Rightarrow> 'z stq_store_scheme res" where
  "STAILQ_INIT head s = rbind (store (First head) NULL s) (\<lambda>s1. Inr (set_stq_last head (First head) s1))"

definition STAILQ_HEAD_INITIALIZER :: "nat \<Rightarrow> 'z stq_store_scheme \<Rightarrow> 'z stq_store_scheme" where
  "STAILQ_HEAD_INITIALIZER head s = set_stq_last head (First head) (s\<lparr>links := (links s)(First head \<mapsto> NULL)\<rparr>)"

definition STAILQ_INSERT_AFTER :: "nat \<Rightarrow> ptr \<Rightarrow> ptr \<Rightarrow> 'z stq_store_scheme \<Rightarrow> 'z stq_store_scheme res" where
  "STAILQ_INSERT_AFTER head tqelm elm s =
     rbind (STAILQ_NEXT tqelm s) (\<lambda>n. rbind (set_STAILQ_NEXT elm n s) (\<lambda>s1.
       rbind (next_cell elm) (\<lambda>l.
         set_STAILQ_NEXT tqelm elm (if n = NULL then set_stq_last head l s1 else s1))))"

definition STAILQ_INSERT_HEAD :: "nat \<Rightarrow> ptr \<Rightarrow> 'z stq_store_scheme \<Rightarrow> 'z stq_store_scheme res" where
  "STAILQ_INSERT_HEAD head elm s =
     rbind (STAILQ_FIRST head s) (\<lambda>f. rbind (set_STAILQ_NEXT elm f s) (\<lambda>s1.
       rbind (next_cell elm) (\<lambda>l.
         store (First head) elm (if f = NULL then set_stq_last head l s1 else s1))))"

definition STAILQ_INSERT_TAIL :: "nat \<Rightarrow> ptr \<Rightarrow> 'z stq_store_scheme \<Rightarrow> 'z stq_store_scheme res" where
  "STAILQ_INSERT_TAIL head elm s =
     rbind (set_STAILQ_NEXT elm NULL s) (\<lambda>s1. rbind (stq_last head s1) (\<lambda>last.
       rbind (store last elm s1) (\<lambda>s2. rbind (next_cell elm) (\<lambda>l. Inr (set_stq_last head l s2)))))"

text \<open>\<^verbatim>\<open>__containerof\<close> of the address of a next field is the element it belongs to.\<close>

definition STAILQ_LAST :: "nat \<Rightarrow> 'z stq_store_scheme \<Rightarrow> ptr res" where
  "STAILQ_LAST head s =
     rbind (STAILQ_EMPTY head s) (\<lambda>e. if e then Inr NULL
       else rbind (stq_last head s) (\<lambda>l. case l of Next a \<Rightarrow> Inr (Ptr a) | First h \<Rightarrow> Inl Wild_Pointer))"

definition STAILQ_REMOVE_AFTER :: "nat \<Rightarrow> ptr \<Rightarrow> 'z stq_store_scheme \<Rightarrow> 'z stq_store_scheme res" where
  "STAILQ_REMOVE_AFTER head elm s =
     rbind (STAILQ_NEXT elm s) (\<lambda>n. rbind (STAILQ_NEXT n s) (\<lambda>nn.
       rbind (set_STAILQ_NEXT elm nn s) (\<lambda>s1. rbind (next_cell elm) (\<lambda>l.
         Inr (if nn = NULL then set_stq_last head l s1 else s1)))))"

definition STAILQ_REMOVE_HEAD :: "nat \<Rightarrow> 'z stq_store_scheme \<Rightarrow> 'z stq_store_scheme res" where
  "STAILQ_REMOVE_HEAD head s =
     rbind (STAILQ_FIRST head s) (\<lambda>f. rbind (STAILQ_NEXT f s) (\<lambda>n.
       rbind (store (First head) n s) (\<lambda>s1.
         Inr (if n = NULL then set_stq_last head (First head) s1 else s1))))"

text \<open>The search for the predecessor is the loop of \<^verbatim>\<open>SLIST_REMOVE\<close>, on the same links.\<close>

definition STAILQ_REMOVE :: "nat \<Rightarrow> ptr \<Rightarrow> 'z stq_store_scheme \<Rightarrow> 'z stq_store_scheme res option" where
  "STAILQ_REMOVE head elm s =
     (case STAILQ_FIRST head s of
        Inl e \<Rightarrow> Some (Inl e)
      | Inr f \<Rightarrow>
          if f = elm then Some (STAILQ_REMOVE_HEAD head s)
          else map_option (\<lambda>r. rbind r (\<lambda>cur. STAILQ_REMOVE_AFTER head cur s)) (remove_loop elm f s))"

definition STAILQ_CONCAT :: "nat \<Rightarrow> nat \<Rightarrow> 'z stq_store_scheme \<Rightarrow> 'z stq_store_scheme res" where
  "STAILQ_CONCAT head1 head2 s =
     rbind (STAILQ_EMPTY head2 s) (\<lambda>e. if e then Inr s
       else rbind (stq_last head1 s) (\<lambda>last1. rbind (STAILQ_FIRST head2 s) (\<lambda>f2.
         rbind (store last1 f2 s) (\<lambda>s1. rbind (stq_last head2 s1) (\<lambda>last2.
           STAILQ_INIT head2 (set_stq_last head1 last2 s1))))))"

definition STAILQ_SWAP :: "nat \<Rightarrow> nat \<Rightarrow> 'z stq_store_scheme \<Rightarrow> 'z stq_store_scheme res" where
  "STAILQ_SWAP head1 head2 s =
     rbind (STAILQ_FIRST head1 s) (\<lambda>swap_first. rbind (stq_last head1 s) (\<lambda>swap_last.
       rbind (STAILQ_FIRST head2 s) (\<lambda>f2. rbind (store (First head1) f2 s) (\<lambda>s1.
         rbind (stq_last head2 s1) (\<lambda>last2.
           rbind (store (First head2) swap_first (set_stq_last head1 last2 s1)) (\<lambda>s2.
             let s3 = set_stq_last head2 swap_last s2 in
             rbind (STAILQ_EMPTY head1 s3) (\<lambda>e1.
               let s4 = (if e1 then set_stq_last head1 (First head1) s3 else s3) in
               rbind (STAILQ_EMPTY head2 s4) (\<lambda>e2.
                 Inr (if e2 then set_stq_last head2 (First head2) s4 else s4)))))))))"

text \<open>The iterations are those of the singly-linked list.\<close>

definition STAILQ_FOREACH where
  "STAILQ_FOREACH body head s =
     (case STAILQ_FIRST head s of Inl e \<Rightarrow> Some (Inl e) | Inr f \<Rightarrow> foreach_loop body f s)"

definition STAILQ_FOREACH_FROM where
  "STAILQ_FOREACH_FROM body var head s =
     (if var \<noteq> NULL then foreach_loop body var s else STAILQ_FOREACH body head s)"

definition STAILQ_FOREACH_SAFE where
  "STAILQ_FOREACH_SAFE body head s =
     (case STAILQ_FIRST head s of Inl e \<Rightarrow> Some (Inl e) | Inr f \<Rightarrow> foreach_safe_loop body f s)"

definition STAILQ_FOREACH_FROM_SAFE where
  "STAILQ_FOREACH_FROM_SAFE body var head s =
     (if var \<noteq> NULL then foreach_safe_loop body var s else STAILQ_FOREACH_SAFE body head s)"

section \<open>Effects on lists of elements\<close>

definition stq_at :: "'z stq_store_scheme \<Rightarrow> nat \<Rightarrow> nat list \<Rightarrow> bool" where
  "stq_at s h xs \<longleftrightarrow> list_at s h xs \<and> stqh_last s h = Some (cell_before h xs)"

lemmas stq_defs = STAILQ_FIRST_def STAILQ_NEXT_def set_STAILQ_NEXT_def STAILQ_EMPTY_def stq_last_def
  set_stq_last_def

lemma stq_links: "stq_at s h xs \<Longrightarrow> \<exists>q. links s (cell_before h xs) = Some NULL \<and> links s (First h) = Some q \<and>
    (q = NULL \<longleftrightarrow> xs = [])"
  using list_at_cell [of s h xs "[]"] by (auto simp: stq_at_def list_at_iff dest: chain_end_NULL)

lemma STAILQ_INIT_list:
  "links s (First h) \<noteq> None \<Longrightarrow> \<exists>s'. STAILQ_INIT h s = Inr s' \<and> stq_at s' h []"
  by (auto simp: STAILQ_INIT_def stq_defs stq_at_def list_at_iff)

lemma STAILQ_HEAD_INITIALIZER_list: "stq_at (STAILQ_HEAD_INITIALIZER h s) h []"
  by (simp add: STAILQ_HEAD_INITIALIZER_def stq_defs stq_at_def list_at_iff)

lemma STAILQ_INSERT_HEAD_list:
  assumes "stq_at s h xs" and "links s (Next a) \<noteq> None" and "a \<notin> set xs"
  shows "\<exists>s'. STAILQ_INSERT_HEAD h (Ptr a) s = Inr s' \<and> stq_at s' h (a # xs) \<and> dom (links s') = dom (links s)"
proof -
  obtain q where q: "links s (First h) = Some q" "q = NULL \<longleftrightarrow> xs = []" using stq_links [OF assms(1)] by auto
  have "list_at (s\<lparr>links := (links s)(Next a \<mapsto> q, First h \<mapsto> Ptr a)\<rparr>) h (a # xs)"
    using list_at_insert [of s h "[]" xs q a] assms q(1) by (simp add: stq_at_def)
  then show ?thesis
    using assms q by (auto simp: STAILQ_INSERT_HEAD_def stq_defs stq_at_def)
qed

lemma STAILQ_INSERT_TAIL_list:
  assumes "stq_at s h xs" and "links s (Next a) \<noteq> None" and "a \<notin> set xs"
  shows "\<exists>s'. STAILQ_INSERT_TAIL h (Ptr a) s = Inr s' \<and> stq_at s' h (xs @ [a]) \<and> dom (links s') = dom (links s)"
proof -
  have l: "links s (cell_before h xs) = Some NULL" using stq_links [OF assms(1)] by auto
  have ne: "cell_before h xs \<noteq> Next a" using assms(3) cell_before_inj by metis
  have "list_at (s\<lparr>links := (links s)(Next a \<mapsto> NULL, cell_before h xs \<mapsto> Ptr a)\<rparr>) h (xs @ [a])"
    using list_at_insert [of s h xs "[]" NULL a] assms l by (simp add: stq_at_def)
  then show ?thesis
    using assms l ne by (auto simp: STAILQ_INSERT_TAIL_def stq_defs stq_at_def)
qed

lemma STAILQ_INSERT_AFTER_list:
  assumes "stq_at s h (ys @ b # zs)" and "links s (Next a) \<noteq> None" and "a \<notin> set (ys @ b # zs)"
  shows "\<exists>s'. STAILQ_INSERT_AFTER h (Ptr b) (Ptr a) s = Inr s' \<and> stq_at s' h (ys @ b # a # zs) \<and>
    dom (links s') = dom (links s)"
proof -
  have l: "list_at s h ((ys @ [b]) @ zs)" using assms(1) by (simp add: stq_at_def)
  obtain q where q: "links s (Next b) = Some q" "q = NULL \<longleftrightarrow> zs = []"
    using list_at_cell [OF l] chain_end_NULL by fastforce
  have "list_at (s\<lparr>links := (links s)(Next a \<mapsto> q, Next b \<mapsto> Ptr a)\<rparr>) h (ys @ b # a # zs)"
    using list_at_insert [OF l, of q a] assms(3) q(1) by simp
  then show ?thesis
    using assms q by (auto simp: STAILQ_INSERT_AFTER_def stq_defs stq_at_def cell_before_append)
qed

lemma STAILQ_REMOVE_HEAD_list:
  assumes "stq_at s h (a # xs)"
  shows "\<exists>s'. STAILQ_REMOVE_HEAD h s = Inr s' \<and> stq_at s' h xs \<and> dom (links s') = dom (links s)"
proof -
  have l: "list_at s h ([] @ a # xs)" "list_at s h ([a] @ xs)" using assms by (simp_all add: stq_at_def)
  obtain q where q: "links s (Next a) = Some q" "q = NULL \<longleftrightarrow> xs = []"
    using list_at_cell [OF l(2)] chain_end_NULL by fastforce
  have f: "links s (First h) = Some (Ptr a)" using l(1) by (auto simp: list_at_iff)
  have "list_at (s\<lparr>links := (links s)(First h \<mapsto> q)\<rparr>) h xs"
    using list_at_drop [OF l(1) q(1)] by simp
  then show ?thesis
    using assms q f by (auto simp: STAILQ_REMOVE_HEAD_def stq_defs stq_at_def)
qed

lemma STAILQ_REMOVE_AFTER_list:
  assumes "stq_at s h (ys @ b # a # zs)"
  shows "\<exists>s'. STAILQ_REMOVE_AFTER h (Ptr b) s = Inr s' \<and> stq_at s' h (ys @ b # zs) \<and>
    dom (links s') = dom (links s)"
proof -
  have l: "list_at s h ((ys @ [b]) @ a # zs)" "list_at s h ((ys @ [b, a]) @ zs)"
    using assms by (simp_all add: stq_at_def)
  obtain q where q: "links s (Next a) = Some q" "q = NULL \<longleftrightarrow> zs = []"
    using list_at_cell [OF l(2)] chain_end_NULL by (fastforce simp: cell_before_append)
  have f: "links s (Next b) = Some (Ptr a)" using list_at_cell [OF l(1)] by auto
  have "list_at (s\<lparr>links := (links s)(Next b \<mapsto> q)\<rparr>) h (ys @ b # zs)"
    using list_at_drop [OF l(1) q(1)] by simp
  then show ?thesis
    using assms q f by (auto simp: STAILQ_REMOVE_AFTER_def stq_defs stq_at_def cell_before_append)
qed

lemma STAILQ_REMOVE_list:
  assumes "stq_at s h xs" and "a \<in> set xs"
  shows "\<exists>s'. STAILQ_REMOVE h (Ptr a) s = Some (Inr s') \<and> stq_at s' h (remove1 a xs) \<and>
    dom (links s') = dom (links s)"
proof -
  obtain ys zs where xs: "xs = ys @ a # zs" "a \<notin> set ys"
    using assms(2) by (auto dest: split_list_first)
  then have rem: "remove1 a xs = ys @ zs" by (simp add: remove1_append)
  show ?thesis
  proof (cases ys rule: rev_cases)
    case Nil
    with assms(1) xs have "STAILQ_REMOVE h (Ptr a) s = Some (STAILQ_REMOVE_HEAD h s)"
      by (auto simp: STAILQ_REMOVE_def STAILQ_FIRST_def stq_at_def list_at_iff split: option.splits)
    then show ?thesis
      using STAILQ_REMOVE_HEAD_list [of s h a zs] assms(1) xs rem Nil by auto
  next
    case (snoc us b)
    obtain c cs where ys: "ys = c # cs" using snoc by (meson append_is_Nil_conv list.exhaust not_Cons_self2)
    obtain p where p: "links s (First h) = Some p" "chain (links s) p ys (Ptr a)" "p = Ptr c"
      using assms(1) xs ys by (auto simp: stq_at_def list_at_iff chain_append split: option.splits)
    have "last (c # cs) = b" using snoc ys by (metis last_snoc)
    then have "remove_loop (Ptr a) (Ptr c) s = Some (Inr (Ptr b))"
      using remove_loop_finds [of s c cs a] p ys xs(2) by (auto simp del: chain.simps)
    moreover have "c \<noteq> a" using xs(2) ys by auto
    ultimately have "STAILQ_REMOVE h (Ptr a) s = Some (STAILQ_REMOVE_AFTER h (Ptr b) s)"
      using p by (simp add: STAILQ_REMOVE_def STAILQ_FIRST_def)
    then show ?thesis
      using STAILQ_REMOVE_AFTER_list [of s h us b a zs] assms(1) xs(1) rem snoc by simp
  qed
qed

lemma STAILQ_LAST_list:
  "stq_at s h xs \<Longrightarrow> STAILQ_LAST h s = Inr (if xs = [] then NULL else Ptr (last xs))"
  using stq_links [of s h xs] by (auto simp: STAILQ_LAST_def stq_defs stq_at_def)

lemma STAILQ_CONCAT_list:
  assumes "stq_at s h xs" and "stq_at s g ys" and "h \<noteq> g" and "set xs \<inter> set ys = {}"
  shows "\<exists>s'. STAILQ_CONCAT h g s = Inr s' \<and> stq_at s' h (xs @ ys) \<and> stq_at s' g []"
proof -
  obtain q where q: "links s (First g) = Some q" "q = NULL \<longleftrightarrow> ys = []" using stq_links [OF assms(2)] by auto
  have l: "links s (cell_before h xs) = Some NULL" using stq_links [OF assms(1)] by auto
  have ne: "cell_before h xs \<noteq> First g" using assms(3) cell_before_First by metis
  note join = list_at_join [of s h xs g ys q]
  show ?thesis
  proof (cases "ys = []")
    case True
    with assms q show ?thesis by (auto simp: STAILQ_CONCAT_def stq_defs)
  next
    case False
    then show ?thesis
      using assms q l ne join
      by (auto simp: STAILQ_CONCAT_def STAILQ_INIT_def stq_defs stq_at_def cell_before_append)
  qed
qed

lemma STAILQ_SWAP_list:
  assumes "stq_at s h xs" and "stq_at s g ys" and "h \<noteq> g"
  shows "\<exists>s'. STAILQ_SWAP h g s = Inr s' \<and> stq_at s' h ys \<and> stq_at s' g xs"
proof -
  obtain p q where p: "links s (First h) = Some p" "p = NULL \<longleftrightarrow> xs = []" "chain (links s) p xs NULL"
    and q: "links s (First g) = Some q" "q = NULL \<longleftrightarrow> ys = []" "chain (links s) q ys NULL"
    using assms stq_links by (fastforce simp: stq_at_def list_at_iff)
  then show ?thesis
    using assms by (auto simp: STAILQ_SWAP_def stq_defs stq_at_def list_at_iff Let_def)
qed

section \<open>The tail queue implements the list interface\<close>

interpretation stailq: list_ops "\<lambda>s. stq_at s h" live_elems "\<lambda>a. STAILQ_INSERT_HEAD h (Ptr a)"
  "\<lambda>a. STAILQ_REMOVE h (Ptr a)" for h
proof unfold_locales
  fix s :: "'z stq_store_scheme" and xs a
  assume repr: "stq_at s h xs"
  then show "distinct xs" using list_at_distinct by (auto simp: stq_at_def)
  show "set xs \<subseteq> live_elems s"
    using repr list_at_live by (auto simp: stq_at_def live_elems_def)
  show "\<exists>s'. STAILQ_INSERT_HEAD h (Ptr a) s = Inr s' \<and> stq_at s' h (a # xs) \<and> live_elems s' = live_elems s"
    if a: "a \<in> live_elems s" "a \<notin> set xs"
  proof -
    have "links s (Next a) \<noteq> None" using a(1) by (simp add: live_elems_def)
    then obtain s' where "STAILQ_INSERT_HEAD h (Ptr a) s = Inr s'" "stq_at s' h (a # xs)"
      "dom (links s') = dom (links s)"
      using STAILQ_INSERT_HEAD_list [OF repr _ a(2)] by blast
    then show ?thesis using live_elems_dom by blast
  qed
  show "\<exists>s'. STAILQ_REMOVE h (Ptr a) s = Some (Inr s') \<and> stq_at s' h (remove1 a xs) \<and> live_elems s' = live_elems s"
    if "a \<in> set xs"
    using STAILQ_REMOVE_list [OF repr that] live_elems_dom by blast
qed

section \<open>The interface of a queue\<close>

text \<open>A queue is a list with insertion at the tail and removal at the head. \<open>dequeue_all\<close> takes
  elements from the head, as many as told, and gives the pointers it took.\<close>

fun dequeue_all :: "('s \<Rightarrow> ptr res) \<Rightarrow> ('s \<Rightarrow> 's res) \<Rightarrow> nat \<Rightarrow> 's \<Rightarrow> (ptr list \<times> 's) res" where
  "dequeue_all first pop 0 s = Inr ([], s)"
| "dequeue_all first pop (Suc n) s =
     rbind (first s) (\<lambda>p. rbind (pop s) (\<lambda>s1. rbind (dequeue_all first pop n s1) (\<lambda>(ps, s2). Inr (p # ps, s2))))"

locale fifo_ops = list_ops +
  fixes put :: "nat \<Rightarrow> 'a \<Rightarrow> 'a res"
    and first :: "'a \<Rightarrow> ptr res"
    and pop :: "'a \<Rightarrow> 'a res"
  assumes put_law: "repr s xs \<Longrightarrow> a \<in> live s \<Longrightarrow> a \<notin> set xs \<Longrightarrow>
      \<exists>s'. put a s = Inr s' \<and> repr s' (xs @ [a]) \<and> live s' = live s"
    and first_law: "repr s (a # xs) \<Longrightarrow> first s = Inr (Ptr a)"
    and pop_law: "repr s (a # xs) \<Longrightarrow> \<exists>s'. pop s = Inr s' \<and> repr s' xs \<and> live s' = live s"
begin

lemma put_all:
  assumes "repr s xs" and "set as \<subseteq> live s" and "distinct as" and "set as \<inter> set xs = {}"
  shows "\<exists>s'. insert_all put as s = Inr s' \<and> repr s' (xs @ as) \<and> live s' = live s"
  using assms
proof (induction as arbitrary: s xs)
  case Nil
  then show ?case by simp
next
  case (Cons a as)
  then obtain s1 where "put a s = Inr s1" "repr s1 (xs @ [a])" "live s1 = live s"
    using put_law [of s xs a] by auto
  then show ?case
    using Cons.IH [of s1 "xs @ [a]"] Cons.prems by auto
qed

lemma drain_front:
  assumes "repr s (xs @ ys)"
  shows "\<exists>s'. dequeue_all first pop (length xs) s = Inr (map Ptr xs, s') \<and> repr s' ys"
  using assms
proof (induction xs arbitrary: s)
  case Nil
  then show ?case by simp
next
  case (Cons a xs)
  then obtain s1 where "pop s = Inr s1" "repr s1 (xs @ ys)" using pop_law [of s a "xs @ ys"] by auto
  then show ?case
    using Cons.IH [of s1] first_law [of s a "xs @ ys"] Cons.prems by auto
qed

text \<open>First in, first out: what is put comes out in that order, after what was there.\<close>

lemma fifo:
  assumes "repr s xs" and "set as \<subseteq> live s" and "distinct as" and "set as \<inter> set xs = {}"
  shows "\<exists>s1 s2. insert_all put as s = Inr s1 \<and> repr s1 (xs @ as) \<and>
    dequeue_all first pop (length xs + length as) s1 = Inr (map Ptr (xs @ as), s2) \<and> repr s2 []"
  using put_all [OF assms] drain_front [of _ "xs @ as" "[]"] by fastforce

end

interpretation stailq: fifo_ops "\<lambda>s. stq_at s h" live_elems "\<lambda>a. STAILQ_INSERT_HEAD h (Ptr a)"
  "\<lambda>a. STAILQ_REMOVE h (Ptr a)" "\<lambda>a. STAILQ_INSERT_TAIL h (Ptr a)" "STAILQ_FIRST h" "STAILQ_REMOVE_HEAD h" for h
proof unfold_locales
  fix s :: "'z stq_store_scheme" and xs a
  show "\<exists>s'. STAILQ_INSERT_TAIL h (Ptr a) s = Inr s' \<and> stq_at s' h (xs @ [a]) \<and> live_elems s' = live_elems s"
    if "stq_at s h xs" "a \<in> live_elems s" "a \<notin> set xs"
    using STAILQ_INSERT_TAIL_list [of s h xs a] live_elems_dom that by (fastforce simp: live_elems_def)
  show "STAILQ_FIRST h s = Inr (Ptr a)" if "stq_at s h (a # xs)"
    using that by (auto simp: stq_at_def list_at_iff stq_defs)
  show "\<exists>s'. STAILQ_REMOVE_HEAD h s = Inr s' \<and> stq_at s' h xs \<and> live_elems s' = live_elems s"
    if "stq_at s h (a # xs)"
    using STAILQ_REMOVE_HEAD_list [OF that] live_elems_dom by blast
qed

section \<open>Properties\<close>

text \<open>An instance: two empty queues, the first with four elements to put.\<close>

definition stq_sample :: stq_store where
  "stq_sample = \<lparr>links = links sample_store, stqh_last = [0 \<mapsto> First 0, 1 \<mapsto> First 1]\<rparr>"

lemma stq_sample_lists: "stq_at stq_sample 0 []" "stq_at stq_sample 1 []" "live_elems stq_sample = {a. a < 4}"
  using sample_store_lists by (simp_all add: stq_sample_def stq_at_def live_elems_def)

text \<open>
  C23: The singly-linked tail queue is a queue: elements put at the tail come out at the head
  first in, first out, after those that were there, and leave the queue empty; the address of
  the last link is right after every step, so no step faults.
\<close>

theorem stailq_fifo:
  assumes "stq_at s h xs" and "set as \<subseteq> live_elems s" and "distinct as" and "set as \<inter> set xs = {}"
  shows "\<exists>s1 s2. insert_all (\<lambda>a. STAILQ_INSERT_TAIL h (Ptr a)) as s = Inr s1 \<and> stq_at s1 h (xs @ as) \<and>
    dequeue_all (STAILQ_FIRST h) (STAILQ_REMOVE_HEAD h) (length xs + length as) s1 = Inr (map Ptr (xs @ as), s2) \<and>
    stq_at s2 h []"
  using assms by (rule stailq.fifo)

theorem stailq_fifo_witness:
  "\<exists>s1 s2. insert_all (\<lambda>a. STAILQ_INSERT_TAIL 0 (Ptr a)) [2, 0, 1] stq_sample = Inr s1 \<and>
     stq_at s1 0 [2, 0, 1] \<and>
     dequeue_all (STAILQ_FIRST 0) (STAILQ_REMOVE_HEAD 0) 3 s1 = Inr ([Ptr 2, Ptr 0, Ptr 1], s2) \<and> stq_at s2 0 []"
  using stailq_fifo [OF stq_sample_lists(1), of "[2, 0, 1]"]
  by (auto simp: stq_sample_lists(3) numeral_3_eq_3 simp del: insert_all.simps dequeue_all.simps)

end
