(* ===== verification/Queue_Tailq.thy ===== *)
theory Queue_Tailq
  imports Queue_DList Queue_STailq
begin

text \<open>
  The doubly-linked tail queue of \<^verbatim>\<open>server/queue.h\<close> (the \<^verbatim>\<open>TAILQ\<close> macros): back links as in the
  \<^verbatim>\<open>LIST\<close> macros (the field \<^const>\<open>le_prev\<close> stands for \<^verbatim>\<open>tqe_prev\<close>) and a head with the address of the
  last link. \<^verbatim>\<open>TAILQ_LAST\<close> and \<^verbatim>\<open>TAILQ_PREV\<close> read a link cell as if it were a head: the field after
  the next pointer of an element is its back link. Tracing and checks are compiled out.
\<close>

section \<open>The macros\<close>

record tq_store = dl_store +
  tqh_last :: "nat \<rightharpoonup> link"

definition tq_last :: "nat \<Rightarrow> 'z tq_store_scheme \<Rightarrow> link res" where
  "tq_last head s = (case tqh_last s head of None \<Rightarrow> Inl Wild_Pointer | Some l \<Rightarrow> Inr l)"

definition set_tq_last :: "nat \<Rightarrow> link \<Rightarrow> 'z tq_store_scheme \<Rightarrow> 'z tq_store_scheme" where
  "set_tq_last head l s = s\<lparr>tqh_last := (tqh_last s)(head \<mapsto> l)\<rparr>"

definition TAILQ_FIRST :: "nat \<Rightarrow> 'z tq_store_scheme \<Rightarrow> ptr res" where
  "TAILQ_FIRST head s = load s (First head)"

definition TAILQ_NEXT :: "ptr \<Rightarrow> 'z tq_store_scheme \<Rightarrow> ptr res" where
  "TAILQ_NEXT elm s = rbind (next_cell elm) (load s)"

definition set_TAILQ_NEXT :: "ptr \<Rightarrow> ptr \<Rightarrow> 'z tq_store_scheme \<Rightarrow> 'z tq_store_scheme res" where
  "set_TAILQ_NEXT elm p s = rbind (next_cell elm) (\<lambda>l. store l p s)"

definition TAILQ_EMPTY :: "nat \<Rightarrow> 'z tq_store_scheme \<Rightarrow> bool res" where
  "TAILQ_EMPTY head s = rbind (TAILQ_FIRST head s) (\<lambda>p. Inr (p = NULL))"

definition TAILQ_INIT :: "nat \<Rightarrow> 'z tq_store_scheme \<Rightarrow> 'z tq_store_scheme res" where
  "TAILQ_INIT head s = rbind (store (First head) NULL s) (\<lambda>s1. Inr (set_tq_last head (First head) s1))"

definition TAILQ_INSERT_AFTER :: "nat \<Rightarrow> ptr \<Rightarrow> ptr \<Rightarrow> 'z tq_store_scheme \<Rightarrow> 'z tq_store_scheme res" where
  "TAILQ_INSERT_AFTER head listelm elm s =
     rbind (TAILQ_NEXT listelm s) (\<lambda>n. rbind (set_TAILQ_NEXT elm n s) (\<lambda>s1.
       rbind (next_cell elm) (\<lambda>l. rbind (next_cell listelm) (\<lambda>m.
         rbind (if n \<noteq> NULL then rbind (TAILQ_NEXT elm s1) (\<lambda>n1. set_prev n1 l s1)
                else Inr (set_tq_last head l s1)) (\<lambda>s2.
           rbind (set_TAILQ_NEXT listelm elm s2) (\<lambda>s3. set_prev elm m s3))))))"

definition TAILQ_INSERT_BEFORE :: "ptr \<Rightarrow> ptr \<Rightarrow> 'z tq_store_scheme \<Rightarrow> 'z tq_store_scheme res" where
  "TAILQ_INSERT_BEFORE listelm elm s =
     rbind (get_prev listelm s) (\<lambda>pr. rbind (set_prev elm pr s) (\<lambda>s1.
       rbind (set_TAILQ_NEXT elm listelm s1) (\<lambda>s2. rbind (get_prev listelm s2) (\<lambda>pr2.
         rbind (store pr2 elm s2) (\<lambda>s3. rbind (next_cell elm) (\<lambda>l. set_prev listelm l s3))))))"

definition TAILQ_INSERT_HEAD :: "nat \<Rightarrow> ptr \<Rightarrow> 'z tq_store_scheme \<Rightarrow> 'z tq_store_scheme res" where
  "TAILQ_INSERT_HEAD head elm s =
     rbind (TAILQ_FIRST head s) (\<lambda>f. rbind (set_TAILQ_NEXT elm f s) (\<lambda>s1.
       rbind (next_cell elm) (\<lambda>l.
         rbind (if f \<noteq> NULL then rbind (TAILQ_FIRST head s1) (\<lambda>f1. set_prev f1 l s1)
                else Inr (set_tq_last head l s1)) (\<lambda>s2.
           rbind (store (First head) elm s2) (\<lambda>s3. set_prev elm (First head) s3)))))"

definition TAILQ_INSERT_TAIL :: "nat \<Rightarrow> ptr \<Rightarrow> 'z tq_store_scheme \<Rightarrow> 'z tq_store_scheme res" where
  "TAILQ_INSERT_TAIL head elm s =
     rbind (set_TAILQ_NEXT elm NULL s) (\<lambda>s1. rbind (tq_last head s1) (\<lambda>last.
       rbind (set_prev elm last s1) (\<lambda>s2. rbind (tq_last head s2) (\<lambda>last2.
         rbind (store last2 elm s2) (\<lambda>s3. rbind (next_cell elm) (\<lambda>l. Inr (set_tq_last head l s3)))))))"

text \<open>The second field of the object that starts at a link cell.\<close>

definition second_field :: "link \<Rightarrow> 'z tq_store_scheme \<Rightarrow> link res" where
  "second_field l s = (case l of First h \<Rightarrow> tq_last h s | Next a \<Rightarrow> get_prev (Ptr a) s)"

definition TAILQ_LAST :: "nat \<Rightarrow> 'z tq_store_scheme \<Rightarrow> ptr res" where
  "TAILQ_LAST head s = rbind (tq_last head s) (\<lambda>l. rbind (second_field l s) (load s))"

definition TAILQ_PREV :: "ptr \<Rightarrow> 'z tq_store_scheme \<Rightarrow> ptr res" where
  "TAILQ_PREV elm s = rbind (get_prev elm s) (\<lambda>l. rbind (second_field l s) (load s))"

definition TAILQ_REMOVE :: "nat \<Rightarrow> ptr \<Rightarrow> 'z tq_store_scheme \<Rightarrow> 'z tq_store_scheme res" where
  "TAILQ_REMOVE head elm s =
     rbind (TAILQ_NEXT elm s) (\<lambda>n. rbind (get_prev elm s) (\<lambda>pr.
       rbind (if n \<noteq> NULL then set_prev n pr s else Inr (set_tq_last head pr s)) (\<lambda>s1.
         rbind (get_prev elm s1) (\<lambda>pr1. rbind (TAILQ_NEXT elm s1) (\<lambda>n1. store pr1 n1 s1)))))"

definition TAILQ_CONCAT :: "nat \<Rightarrow> nat \<Rightarrow> 'z tq_store_scheme \<Rightarrow> 'z tq_store_scheme res" where
  "TAILQ_CONCAT head1 head2 s =
     rbind (TAILQ_EMPTY head2 s) (\<lambda>e. if e then Inr s
       else rbind (tq_last head1 s) (\<lambda>last1. rbind (TAILQ_FIRST head2 s) (\<lambda>f2.
         rbind (store last1 f2 s) (\<lambda>s1. rbind (TAILQ_FIRST head2 s1) (\<lambda>g.
           rbind (tq_last head1 s1) (\<lambda>l1. rbind (set_prev g l1 s1) (\<lambda>s2.
             rbind (tq_last head2 s2) (\<lambda>last2. TAILQ_INIT head2 (set_tq_last head1 last2 s2)))))))))"

definition TAILQ_SWAP :: "nat \<Rightarrow> nat \<Rightarrow> 'z tq_store_scheme \<Rightarrow> 'z tq_store_scheme res" where
  "TAILQ_SWAP head1 head2 s =
     rbind (TAILQ_FIRST head1 s) (\<lambda>swap_first. rbind (tq_last head1 s) (\<lambda>swap_last.
       rbind (TAILQ_FIRST head2 s) (\<lambda>f2. rbind (store (First head1) f2 s) (\<lambda>s1.
         rbind (tq_last head2 s1) (\<lambda>last2.
           rbind (store (First head2) swap_first (set_tq_last head1 last2 s1)) (\<lambda>s2.
             let s3 = set_tq_last head2 swap_last s2 in
             rbind (TAILQ_FIRST head1 s3) (\<lambda>t1.
               rbind (if t1 \<noteq> NULL then set_prev t1 (First head1) s3
                      else Inr (set_tq_last head1 (First head1) s3)) (\<lambda>s4.
                 rbind (TAILQ_FIRST head2 s4) (\<lambda>t2.
                   if t2 \<noteq> NULL then set_prev t2 (First head2) s4
                   else Inr (set_tq_last head2 (First head2) s4))))))))))"

definition TAILQ_FOREACH where
  "TAILQ_FOREACH body head s =
     (case TAILQ_FIRST head s of Inl e \<Rightarrow> Some (Inl e) | Inr f \<Rightarrow> foreach_loop body f s)"

definition TAILQ_FOREACH_FROM where
  "TAILQ_FOREACH_FROM body var head s =
     (if var \<noteq> NULL then foreach_loop body var s else TAILQ_FOREACH body head s)"

definition TAILQ_FOREACH_SAFE where
  "TAILQ_FOREACH_SAFE body head s =
     (case TAILQ_FIRST head s of Inl e \<Rightarrow> Some (Inl e) | Inr f \<Rightarrow> foreach_safe_loop body f s)"

definition TAILQ_FOREACH_FROM_SAFE where
  "TAILQ_FOREACH_FROM_SAFE body var head s =
     (if var \<noteq> NULL then foreach_safe_loop body var s else TAILQ_FOREACH_SAFE body head s)"

text \<open>The reverse iterations step with \<^verbatim>\<open>TAILQ_PREV\<close>.\<close>

partial_function (option) foreach_reverse_loop ::
  "(ptr \<Rightarrow> 'z tq_store_scheme \<Rightarrow> (bool \<times> 'z tq_store_scheme) res) \<Rightarrow> ptr \<Rightarrow> 'z tq_store_scheme \<Rightarrow>
   (ptr \<times> 'z tq_store_scheme) res option" where
  "foreach_reverse_loop body var s =
     (if var = NULL then Some (Inr (var, s))
      else case body var s of
        Inl e \<Rightarrow> Some (Inl e)
      | Inr (brk, s1) \<Rightarrow>
          if brk then Some (Inr (var, s1))
          else (case TAILQ_PREV var s1 of
                  Inl e \<Rightarrow> Some (Inl e)
                | Inr n \<Rightarrow> foreach_reverse_loop body n s1))"

definition TAILQ_FOREACH_REVERSE where
  "TAILQ_FOREACH_REVERSE body head s =
     (case TAILQ_LAST head s of Inl e \<Rightarrow> Some (Inl e) | Inr f \<Rightarrow> foreach_reverse_loop body f s)"

definition TAILQ_FOREACH_REVERSE_FROM where
  "TAILQ_FOREACH_REVERSE_FROM body var head s =
     (if var \<noteq> NULL then foreach_reverse_loop body var s else TAILQ_FOREACH_REVERSE body head s)"

partial_function (option) foreach_reverse_safe_loop ::
  "(ptr \<Rightarrow> 'z tq_store_scheme \<Rightarrow> (bool \<times> 'z tq_store_scheme) res) \<Rightarrow> ptr \<Rightarrow> 'z tq_store_scheme \<Rightarrow>
   (ptr \<times> 'z tq_store_scheme) res option" where
  "foreach_reverse_safe_loop body var s =
     (if var = NULL then Some (Inr (var, s))
      else case TAILQ_PREV var s of
        Inl e \<Rightarrow> Some (Inl e)
      | Inr tvar \<Rightarrow>
          (case body var s of
             Inl e \<Rightarrow> Some (Inl e)
           | Inr (brk, s1) \<Rightarrow> if brk then Some (Inr (var, s1)) else foreach_reverse_safe_loop body tvar s1))"

definition TAILQ_FOREACH_REVERSE_SAFE where
  "TAILQ_FOREACH_REVERSE_SAFE body head s =
     (case TAILQ_LAST head s of Inl e \<Rightarrow> Some (Inl e) | Inr f \<Rightarrow> foreach_reverse_safe_loop body f s)"

definition TAILQ_FOREACH_REVERSE_FROM_SAFE where
  "TAILQ_FOREACH_REVERSE_FROM_SAFE body var head s =
     (if var \<noteq> NULL then foreach_reverse_safe_loop body var s else TAILQ_FOREACH_REVERSE_SAFE body head s)"

section \<open>Effects on lists of elements\<close>

definition tq_at :: "'z tq_store_scheme \<Rightarrow> nat \<Rightarrow> nat list \<Rightarrow> bool" where
  "tq_at s h xs \<longleftrightarrow> dl_at s h xs \<and> tqh_last s h = Some (cell_before h xs)"

lemmas tq_defs = TAILQ_FIRST_def TAILQ_NEXT_def set_TAILQ_NEXT_def TAILQ_EMPTY_def tq_last_def set_tq_last_def
  get_prev_def set_prev_def

lemma dl_at_tqh_last [simp]: "dl_at (s\<lparr>tqh_last := l\<rparr>) h xs = dl_at s h xs"
  by (simp add: dl_at_def)

lemma TAILQ_INIT_list: "links s (First h) \<noteq> None \<Longrightarrow> \<exists>s'. TAILQ_INIT h s = Inr s' \<and> tq_at s' h []"
  by (auto simp: TAILQ_INIT_def tq_defs tq_at_def dl_at_def list_at_iff)

lemma TAILQ_INSERT_HEAD_list:
  assumes "tq_at s h xs" and "a \<in> dl_live s" and "a \<notin> set xs"
  shows "\<exists>s'. TAILQ_INSERT_HEAD h (Ptr a) s = Inr s' \<and> tq_at s' h (a # xs) \<and> dl_live s' = dl_live s"
proof -
  have dl: "dl_at s h xs" and last: "tqh_last s h = Some (cell_before h xs)" using assms(1) by (simp_all add: tq_at_def)
  let ?q = "case xs of [] \<Rightarrow> NULL | a # _ \<Rightarrow> Ptr a"
  let ?s' = "s\<lparr>links := (links s)(Next a \<mapsto> ?q, First h \<mapsto> Ptr a),
      le_prev := (repoint (le_prev s) xs (Next a))(a \<mapsto> First h),
      tqh_last := (if xs = [] then (tqh_last s)(h \<mapsto> Next a) else tqh_last s)\<rparr>"
  have a: "links s (Next a) \<noteq> None" "le_prev s a \<noteq> None" using assms(2) by (auto simp: dl_live_def)
  have f: "links s (First h) = Some ?q" by (rule dl_first [OF dl])
  have p: "xs = b # bs \<Longrightarrow> le_prev s b = Some (First h)" for b bs
    using dl by (simp add: dl_at_def)
  have "TAILQ_INSERT_HEAD h (Ptr a) s = Inr ?s'"
    using f a p assms(3) by (cases xs) (auto simp: TAILQ_INSERT_HEAD_def tq_defs repoint_def)
  moreover have "dl_at ?s' h ([] @ a # xs)"
    using dl assms(3) f by (intro dl_insert [of s h "[]" xs ?q a]) auto
  moreover have "dl_live ?s' = dl_live s"
    using a p by (cases xs) (auto simp: dl_live_def repoint_def)
  ultimately show ?thesis using last by (auto simp: tq_at_def)
qed

lemma tq_last_NULL: "tq_at s h xs \<Longrightarrow> links s (cell_before h xs) = Some NULL"
  using list_at_cell [of s h xs "[]"] by (auto simp: tq_at_def dl_at_def)

lemma TAILQ_INSERT_TAIL_list:
  assumes "tq_at s h xs" and "a \<in> dl_live s" and "a \<notin> set xs"
  shows "\<exists>s'. TAILQ_INSERT_TAIL h (Ptr a) s = Inr s' \<and> tq_at s' h (xs @ [a]) \<and> dl_live s' = dl_live s"
proof -
  have dl: "dl_at s h (xs @ [])" and last: "tqh_last s h = Some (cell_before h xs)"
    using assms(1) by (simp_all add: tq_at_def)
  let ?c = "cell_before h xs"
  let ?s' = "s\<lparr>links := (links s)(Next a \<mapsto> NULL, ?c \<mapsto> Ptr a), le_prev := (le_prev s)(a \<mapsto> ?c),
      tqh_last := (tqh_last s)(h \<mapsto> Next a)\<rparr>"
  have a: "links s (Next a) \<noteq> None" "le_prev s a \<noteq> None" using assms(2) by (auto simp: dl_live_def)
  have l: "links s ?c = Some NULL" by (rule tq_last_NULL [OF assms(1)])
  have ne: "?c \<noteq> Next a" using assms(3) cell_before_inj by metis
  have "TAILQ_INSERT_TAIL h (Ptr a) s = Inr ?s'"
    using last a l ne by (auto simp: TAILQ_INSERT_TAIL_def tq_defs)
  moreover have "dl_at ?s' h (xs @ [a])"
    using dl assms(3) l by (intro dl_insert [OF dl]) (auto simp: repoint_def)
  moreover have "dl_live ?s' = dl_live s"
    using a l by (auto simp: dl_live_def)
  ultimately show ?thesis by (auto simp: tq_at_def)
qed

lemma TAILQ_INSERT_AFTER_list:
  assumes "tq_at s h (ys @ b # zs)" and "a \<in> dl_live s" and "a \<notin> set (ys @ b # zs)"
  shows "\<exists>s'. TAILQ_INSERT_AFTER h (Ptr b) (Ptr a) s = Inr s' \<and> tq_at s' h (ys @ b # a # zs) \<and> dl_live s' = dl_live s"
proof -
  have dl: "dl_at s h (ys @ b # zs)" and last: "tqh_last s h = Some (cell_before h (ys @ b # zs))"
    using assms(1) by (simp_all add: tq_at_def)
  obtain q where q: "links s (Next b) = Some q"
    "case zs of [] \<Rightarrow> q = NULL | z # _ \<Rightarrow> q = Ptr z \<and> le_prev s z = Some (Next b)"
    using dl_cells(3) [OF dl] by blast
  let ?s' = "s\<lparr>links := (links s)(Next a \<mapsto> q, Next b \<mapsto> Ptr a),
      le_prev := (repoint (le_prev s) zs (Next a))(a \<mapsto> Next b),
      tqh_last := (if zs = [] then (tqh_last s)(h \<mapsto> Next a) else tqh_last s)\<rparr>"
  have a: "links s (Next a) \<noteq> None" "le_prev s a \<noteq> None" using assms(2) by (auto simp: dl_live_def)
  have "TAILQ_INSERT_AFTER h (Ptr b) (Ptr a) s = Inr ?s'"
    using q a assms(3) by (cases zs) (auto simp: TAILQ_INSERT_AFTER_def tq_defs repoint_def)
  moreover have "dl_at ?s' h ((ys @ [b]) @ a # zs)"
    using assms dl q(1) by (intro dl_insert [of s h "ys @ [b]" zs q a]) auto
  moreover have "dl_live ?s' = dl_live s"
    using a q by (cases zs) (auto simp: dl_live_def repoint_def)
  ultimately show ?thesis using last by (auto simp: tq_at_def cell_before_append)
qed

lemma TAILQ_INSERT_BEFORE_list:
  assumes "tq_at s h (ys @ b # zs)" and "a \<in> dl_live s" and "a \<notin> set (ys @ b # zs)"
  shows "\<exists>s'. TAILQ_INSERT_BEFORE (Ptr b) (Ptr a) s = Inr s' \<and> tq_at s' h (ys @ a # b # zs) \<and> dl_live s' = dl_live s"
proof -
  have dl: "dl_at s h (ys @ b # zs)" and last: "tqh_last s h = Some (cell_before h (ys @ b # zs))"
    using assms(1) by (simp_all add: tq_at_def)
  let ?c = "cell_before h ys"
  let ?s' = "s\<lparr>links := (links s)(Next a \<mapsto> Ptr b, ?c \<mapsto> Ptr a),
      le_prev := (repoint (le_prev s) (b # zs) (Next a))(a \<mapsto> ?c)\<rparr>"
  have a: "links s (Next a) \<noteq> None" "le_prev s a \<noteq> None" using assms(2) by (auto simp: dl_live_def)
  have ne: "?c \<noteq> Next a" "a \<noteq> b" using assms(3) cell_before_inj [of h ys a] by auto
  have "TAILQ_INSERT_BEFORE (Ptr b) (Ptr a) s = Inr ?s'"
    using dl_cells(1,2) [OF dl] a ne
    by (auto simp: TAILQ_INSERT_BEFORE_def tq_defs repoint_def fun_upd_twist)
  moreover have "dl_at ?s' h (ys @ a # b # zs)"
    by (rule dl_insert [OF dl dl_cells(1) [OF dl] assms(3)]) simp_all
  moreover have "links ?s' l = None \<longleftrightarrow> links s l = None" "le_prev ?s' x = None \<longleftrightarrow> le_prev s x = None" for l x
    using a dl_cells(1,2) [OF dl] by (simp_all add: repoint_def)
  then have "dl_live ?s' = dl_live s" by (simp only: dl_live_def)
  ultimately show ?thesis using last by (auto simp: tq_at_def cell_before_append)
qed

lemma TAILQ_REMOVE_list:
  assumes "tq_at s h (ys @ a # zs)"
  shows "\<exists>s'. TAILQ_REMOVE h (Ptr a) s = Inr s' \<and> tq_at s' h (ys @ zs) \<and> dl_live s' = dl_live s"
proof -
  have dl: "dl_at s h (ys @ a # zs)" and last: "tqh_last s h = Some (cell_before h (ys @ a # zs))"
    using assms by (simp_all add: tq_at_def)
  let ?c = "cell_before h ys"
  obtain q where q: "links s (Next a) = Some q"
    "case zs of [] \<Rightarrow> q = NULL | z # _ \<Rightarrow> q = Ptr z \<and> le_prev s z = Some (Next a)"
    using dl_cells(3) [OF dl] by blast
  let ?s' = "s\<lparr>links := (links s)(?c \<mapsto> q), le_prev := repoint (le_prev s) zs ?c,
      tqh_last := (if zs = [] then (tqh_last s)(h \<mapsto> ?c) else tqh_last s)\<rparr>"
  have z: "zs = z # zs' \<Longrightarrow> z \<noteq> a" for z zs' using dl_at_distinct [OF dl] by auto
  have "TAILQ_REMOVE h (Ptr a) s = Inr ?s'"
    using dl_cells(1,2) [OF dl] q z
    by (cases zs) (auto simp: TAILQ_REMOVE_def tq_defs repoint_def)
  moreover have "dl_at ?s' h (ys @ zs)"
    using dl q(1) by (intro dl_drop [of s h ys a zs q]) auto
  moreover have "dl_live ?s' = dl_live s"
    using q dl_cells(1) [OF dl] by (cases zs) (auto simp: dl_live_def repoint_def)
  ultimately show ?thesis using last by (auto simp: tq_at_def cell_before_append)
qed

text \<open>The cell before an element is the start of a head or of an entry, whose second field leads
  one step further back; the entry before the first element is the head itself, whose second field
  is the address of the last link, which is null.\<close>

lemma second_field_step:
  assumes "tq_at s h (ys @ zs)"
  shows "rbind (second_field (cell_before h ys) s) (load s) =
         Inr (if ys = [] then NULL else Ptr (last ys))"
proof (cases ys rule: rev_cases)
  case Nil
  then show ?thesis
    using assms tq_last_NULL [OF assms] by (simp add: second_field_def tq_at_def tq_defs)
next
  case (snoc us b)
  then have "dl_at s h (us @ b # zs)" using assms by (simp add: tq_at_def)
  from dl_cells(1,2) [OF this] snoc show ?thesis by (simp add: second_field_def tq_defs)
qed

lemma TAILQ_LAST_list:
  assumes "tq_at s h xs"
  shows "TAILQ_LAST h s = Inr (if xs = [] then NULL else Ptr (last xs))"
  using second_field_step [of s h xs "[]"] assms
  by (simp add: TAILQ_LAST_def tq_at_def tq_last_def)

lemma TAILQ_PREV_list:
  assumes "tq_at s h (ys @ a # zs)"
  shows "TAILQ_PREV (Ptr a) s = Inr (if ys = [] then NULL else Ptr (last ys))"
proof -
  have "get_prev (Ptr a) s = Inr (cell_before h ys)"
    using dl_cells(2) [of s h ys a zs] assms by (simp add: get_prev_def tq_at_def)
  then show ?thesis using second_field_step [OF assms] by (simp add: TAILQ_PREV_def)
qed

lemma TAILQ_CONCAT_list:
  assumes "tq_at s h xs" and "tq_at s g ys" and "h \<noteq> g" and "set xs \<inter> set ys = {}"
  shows "\<exists>s'. TAILQ_CONCAT h g s = Inr s' \<and> tq_at s' h (xs @ ys) \<and> tq_at s' g []"
proof (cases ys)
  case Nil
  have "links s (First g) = Some NULL" using dl_first [of s g ys] assms(2) Nil by (simp add: tq_at_def)
  then show ?thesis using assms Nil by (simp add: TAILQ_CONCAT_def tq_defs)
next
  case (Cons y ys')
  let ?c = "cell_before h xs"
  let ?s' = "s\<lparr>links := (links s)(?c \<mapsto> Ptr y, First g \<mapsto> NULL), le_prev := repoint (le_prev s) ys ?c,
      tqh_last := (tqh_last s)(h \<mapsto> cell_before g ys, g \<mapsto> First g)\<rparr>"
  have dl: "dl_at s h xs" "dl_at s g ys"
    and last: "tqh_last s h = Some ?c" "tqh_last s g = Some (cell_before g ys)"
    using assms(1,2) by (simp_all add: tq_at_def)
  have f: "links s (First g) = Some (Ptr y)" using dl_first [OF dl(2)] Cons by simp
  have p: "le_prev s y = Some (First g)" using dl(2) Cons by (simp add: dl_at_def)
  have c: "links s ?c = Some NULL" "?c \<noteq> First g"
    using tq_last_NULL [OF assms(1)] cell_before_First [of h xs g] assms(3) by auto
  have "TAILQ_CONCAT h g s = Inr ?s'"
    using f p c last assms(3) Cons by (auto simp: TAILQ_CONCAT_def TAILQ_INIT_def tq_defs repoint_def)
  moreover have "dl_at ?s' h (xs @ ys)" "dl_at ?s' g []"
    using dl_join [OF dl f assms(3,4), of ?s'] by simp_all
  ultimately show ?thesis using Cons assms(3) by (auto simp: tq_at_def cell_before_append)
qed

lemma TAILQ_SWAP_list:
  assumes "tq_at s h xs" and "tq_at s g ys" and "h \<noteq> g" and "set xs \<inter> set ys = {}"
  shows "\<exists>s'. TAILQ_SWAP h g s = Inr s' \<and> tq_at s' h ys \<and> tq_at s' g xs"
proof -
  have dl: "dl_at s h xs" "dl_at s g ys"
    and last: "tqh_last s h = Some (cell_before h xs)" "tqh_last s g = Some (cell_before g ys)"
    using assms(1,2) by (simp_all add: tq_at_def)
  obtain s0 where s0: "LIST_SWAP h g s = Inr s0" "dl_at s0 h ys" "dl_at s0 g xs"
    using LIST_SWAP_list [OF dl assms(3,4)] by blast
  let ?s' = "s0\<lparr>tqh_last := (tqh_last s)(h \<mapsto> cell_before h ys, g \<mapsto> cell_before g xs)\<rparr>"
  have f: "links s (First h) = Some (case xs of [] \<Rightarrow> NULL | a # _ \<Rightarrow> Ptr a)"
    "links s (First g) = Some (case ys of [] \<Rightarrow> NULL | a # _ \<Rightarrow> Ptr a)"
    by (rule dl_first [OF dl(1)], rule dl_first [OF dl(2)])
  have pr: "xs = a # as \<Longrightarrow> le_prev s a = Some (First h)" "ys = b # bs \<Longrightarrow> le_prev s b = Some (First g)" for a as b bs
    using dl by (simp_all add: dl_at_def)
  have "TAILQ_SWAP h g s = Inr ?s'"
    using f pr last assms(3) s0(1)
    by (cases xs; cases ys) (auto simp: TAILQ_SWAP_def LIST_SWAP_def Let_def tq_defs dl_defs fun_upd_twist [OF assms(3)])
  then show ?thesis using s0(2,3) assms(3) by (auto simp: tq_at_def)
qed

section \<open>Reverse iteration\<close>

text \<open>
  A body run on an element keeps the elements before it in place; for the plain loop it also
  keeps its own element, for the safe one it may remove it.
\<close>

definition keeps_upto ::
  "(ptr \<Rightarrow> 'z tq_store_scheme \<Rightarrow> (bool \<times> 'z tq_store_scheme) res) \<Rightarrow> nat \<Rightarrow> bool" where
  "keeps_upto body h \<longleftrightarrow> (\<forall>s s1 ys a zs. tq_at s h (ys @ a # zs) \<longrightarrow> body (Ptr a) s = Inr (False, s1) \<longrightarrow>
     (\<exists>us. tq_at s1 h (ys @ a # us)))"

definition keeps_before ::
  "(ptr \<Rightarrow> 'z tq_store_scheme \<Rightarrow> (bool \<times> 'z tq_store_scheme) res) \<Rightarrow> nat \<Rightarrow> bool" where
  "keeps_before body h \<longleftrightarrow> (\<forall>s s1 ys a zs. tq_at s h (ys @ a # zs) \<longrightarrow> body (Ptr a) s = Inr (False, s1) \<longrightarrow>
     (\<exists>us. tq_at s1 h (ys @ us)))"

abbreviation last_ptr :: "nat list \<Rightarrow> ptr" where
  "last_ptr xs \<equiv> (if xs = [] then NULL else Ptr (last xs))"

lemma foreach_reverse_loop_list:
  assumes "tq_at s h (xs @ zs)" and "keeps_upto body h"
  shows "foreach_reverse_loop body (last_ptr xs) s = Some (foreach_list body (rev xs) s)"
  using assms(1)
proof (induction xs arbitrary: s zs rule: rev_induct)
  case Nil
  then show ?case by (simp add: foreach_reverse_loop.simps)
next
  case (snoc a xs)
  have at: "tq_at s h (xs @ a # zs)" using snoc.prems by simp
  show ?case
  proof (cases "body (Ptr a) s")
    case (Inl e)
    then show ?thesis by (simp add: foreach_reverse_loop.simps)
  next
    case (Inr r)
    obtain brk s1 where r: "r = (brk, s1)" by (cases r)
    show ?thesis
    proof (cases brk)
      case True
      then show ?thesis using Inr r by (simp add: foreach_reverse_loop.simps)
    next
      case False
      then have "body (Ptr a) s = Inr (False, s1)" using Inr r by simp
      then obtain us where us: "tq_at s1 h (xs @ a # us)"
        using assms(2) at unfolding keeps_upto_def by blast
      show ?thesis
        using Inr r False TAILQ_PREV_list [OF us] snoc.IH [OF us]
        by (subst foreach_reverse_loop.simps) simp
    qed
  qed
qed

lemma foreach_reverse_safe_loop_list:
  assumes "tq_at s h (xs @ zs)" and "keeps_before body h"
  shows "foreach_reverse_safe_loop body (last_ptr xs) s = Some (foreach_list body (rev xs) s)"
  using assms(1)
proof (induction xs arbitrary: s zs rule: rev_induct)
  case Nil
  then show ?case by (simp add: foreach_reverse_safe_loop.simps)
next
  case (snoc a xs)
  have at: "tq_at s h (xs @ a # zs)" using snoc.prems by simp
  show ?case
  proof (cases "body (Ptr a) s")
    case (Inl e)
    then show ?thesis using TAILQ_PREV_list [OF at] by (subst foreach_reverse_safe_loop.simps) simp
  next
    case (Inr r)
    obtain brk s1 where r: "r = (brk, s1)" by (cases r)
    show ?thesis
    proof (cases brk)
      case True
      then show ?thesis
        using Inr r TAILQ_PREV_list [OF at] by (subst foreach_reverse_safe_loop.simps) simp
    next
      case False
      then have "body (Ptr a) s = Inr (False, s1)" using Inr r by simp
      then obtain us where us: "tq_at s1 h (xs @ us)"
        using assms(2) at unfolding keeps_before_def by blast
      show ?thesis
        using Inr r False TAILQ_PREV_list [OF at] snoc.IH [OF us]
        by (subst foreach_reverse_safe_loop.simps) simp
    qed
  qed
qed

lemma TAILQ_FOREACH_REVERSE_list:
  assumes "tq_at s h xs" and "keeps_upto body h"
  shows "TAILQ_FOREACH_REVERSE body h s = Some (foreach_list body (rev xs) s)"
  using foreach_reverse_loop_list [of s h xs "[]"] assms
  by (simp add: TAILQ_FOREACH_REVERSE_def TAILQ_LAST_list)

lemma TAILQ_FOREACH_REVERSE_SAFE_list:
  assumes "tq_at s h xs" and "keeps_before body h"
  shows "TAILQ_FOREACH_REVERSE_SAFE body h s = Some (foreach_list body (rev xs) s)"
  using foreach_reverse_safe_loop_list [of s h xs "[]"] assms
  by (simp add: TAILQ_FOREACH_REVERSE_SAFE_def TAILQ_LAST_list)

text \<open>A body that removes its own element is allowed in the safe loop, and empties the queue.\<close>

definition remove_body :: "nat \<Rightarrow> ptr \<Rightarrow> 'z tq_store_scheme \<Rightarrow> (bool \<times> 'z tq_store_scheme) res" where
  "remove_body h p s = rbind (TAILQ_REMOVE h p s) (\<lambda>s1. Inr (False, s1))"

lemma remove_body_keeps_before: "keeps_before (remove_body h) h"
  unfolding keeps_before_def remove_body_def using TAILQ_REMOVE_list by fastforce

lemma foreach_remove_body:
  assumes "tq_at s h xs"
  shows "\<exists>s'. foreach_list (remove_body h) (rev xs) s = Inr (NULL, s') \<and> tq_at s' h []"
  using assms
proof (induction xs arbitrary: s rule: rev_induct)
  case (snoc a xs)
  then obtain s1 where "TAILQ_REMOVE h (Ptr a) s = Inr s1" "tq_at s1 h xs"
    using TAILQ_REMOVE_list [of s h xs a "[]"] by auto
  then show ?case using snoc.IH [of s1] by (simp add: remove_body_def)
qed simp

section \<open>The tail queue implements the list and the queue interface\<close>

lemma tq_at_live: "tq_at s h xs \<Longrightarrow> set xs \<subseteq> dl_live s"
  unfolding tq_at_def using dl_at_live by blast

interpretation tailq: fifo_ops "\<lambda>s. tq_at s h" dl_live "\<lambda>a. TAILQ_INSERT_HEAD h (Ptr a)"
  "\<lambda>a s. Some (TAILQ_REMOVE h (Ptr a) s)" "\<lambda>a. TAILQ_INSERT_TAIL h (Ptr a)" "TAILQ_FIRST h"
  "\<lambda>s. rbind (TAILQ_FIRST h s) (\<lambda>p. TAILQ_REMOVE h p s)" for h
proof unfold_locales
  fix s :: "'z tq_store_scheme" and xs a
  show "distinct xs" if "tq_at s h xs" using that dl_at_distinct by (auto simp: tq_at_def)
  show "set xs \<subseteq> dl_live s" if "tq_at s h xs" by (rule tq_at_live [OF that])
  show "\<exists>s'. TAILQ_INSERT_HEAD h (Ptr a) s = Inr s' \<and> tq_at s' h (a # xs) \<and> dl_live s' = dl_live s"
    if "tq_at s h xs" "a \<in> dl_live s" "a \<notin> set xs"
    by (rule TAILQ_INSERT_HEAD_list [OF that])
  show "\<exists>s'. Some (TAILQ_REMOVE h (Ptr a) s) = Some (Inr s') \<and> tq_at s' h (remove1 a xs) \<and> dl_live s' = dl_live s"
    if "tq_at s h xs" "a \<in> set xs"
  proof -
    obtain ys zs where "xs = ys @ a # zs" "a \<notin> set ys"
      using \<open>a \<in> set xs\<close> by (auto dest: split_list_first)
    then show ?thesis
      using TAILQ_REMOVE_list [of s h ys a zs] \<open>tq_at s h xs\<close> by (simp add: remove1_append)
  qed
  show "\<exists>s'. TAILQ_INSERT_TAIL h (Ptr a) s = Inr s' \<and> tq_at s' h (xs @ [a]) \<and> dl_live s' = dl_live s"
    if "tq_at s h xs" "a \<in> dl_live s" "a \<notin> set xs"
    by (rule TAILQ_INSERT_TAIL_list [OF that])
  show first: "TAILQ_FIRST h s = Inr (Ptr a)" if "tq_at s h (a # xs)"
    using dl_first [of s h "a # xs"] that by (simp add: tq_at_def tq_defs)
  show "\<exists>s'. rbind (TAILQ_FIRST h s) (\<lambda>p. TAILQ_REMOVE h p s) = Inr s' \<and> tq_at s' h xs \<and> dl_live s' = dl_live s"
    if "tq_at s h (a # xs)"
    using TAILQ_REMOVE_list [of s h "[]" a xs] first that by simp
qed

section \<open>Properties\<close>

text \<open>An instance: two empty queues and four elements.\<close>

definition tq_sample :: tq_store where
  "tq_sample = \<lparr>links = links sample_store, le_prev = (\<lambda>a. if a < 4 then Some (First 0) else None),
     tqh_last = [0 \<mapsto> First 0, 1 \<mapsto> First 1]\<rparr>"

lemma tq_sample_lists: "tq_at tq_sample 0 []" "tq_at tq_sample 1 []" "dl_live tq_sample = {a. a < 4}"
  using sample_store_lists by (auto simp: tq_sample_def tq_at_def dl_at_def dl_live_def live_elems_def)

definition tq_linked :: tq_store where
  "tq_linked = \<lparr>links = links linked_store, le_prev = [0 \<mapsto> First 0, 1 \<mapsto> Next 0, 2 \<mapsto> First 1, 3 \<mapsto> First 0],
     tqh_last = [0 \<mapsto> Next 1, 1 \<mapsto> Next 2]\<rparr>"

lemma tq_linked_lists: "tq_at tq_linked 0 [0, 1]" "tq_at tq_linked 1 [2]"
  using linked_store_lists by (auto simp: tq_linked_def tq_at_def dl_at_def)

text \<open>
  C25: The tail queue is a queue and supports removal without a search: elements put at the tail
  come out at the head first in, first out; and a queue can be emptied from its end, by the
  reverse iteration whose body removes its own element, which ends.
\<close>

theorem tailq_fifo_and_unwind:
  assumes "tq_at s h xs" and "set as \<subseteq> dl_live s" and "distinct as" and "set as \<inter> set xs = {}"
  shows "\<exists>s1. insert_all (\<lambda>a. TAILQ_INSERT_TAIL h (Ptr a)) as s = Inr s1 \<and> tq_at s1 h (xs @ as) \<and>
    (\<exists>s2. dequeue_all (TAILQ_FIRST h) (\<lambda>s. rbind (TAILQ_FIRST h s) (\<lambda>p. TAILQ_REMOVE h p s))
       (length xs + length as) s1 = Inr (map Ptr (xs @ as), s2) \<and> tq_at s2 h []) \<and>
    (\<exists>s2. TAILQ_FOREACH_REVERSE_SAFE (remove_body h) h s1 = Some (Inr (NULL, s2)) \<and> tq_at s2 h [])"
proof -
  obtain s1 s2 where s1: "insert_all (\<lambda>a. TAILQ_INSERT_TAIL h (Ptr a)) as s = Inr s1" "tq_at s1 h (xs @ as)"
    "dequeue_all (TAILQ_FIRST h) (\<lambda>s. rbind (TAILQ_FIRST h s) (\<lambda>p. TAILQ_REMOVE h p s)) (length xs + length as) s1 =
       Inr (map Ptr (xs @ as), s2)" "tq_at s2 h []"
    using tailq.fifo [OF assms] by blast
  then show ?thesis
    using TAILQ_FOREACH_REVERSE_SAFE_list [OF s1(2) remove_body_keeps_before] foreach_remove_body [OF s1(2)]
    by auto
qed

theorem tailq_fifo_and_unwind_witness:
  "\<exists>s1 s2. insert_all (\<lambda>a. TAILQ_INSERT_TAIL 0 (Ptr a)) [2, 0, 1] tq_sample = Inr s1 \<and>
     TAILQ_FOREACH_REVERSE_SAFE (remove_body 0) 0 s1 = Some (Inr (NULL, s2)) \<and> tq_at s2 0 []"
  using tailq_fifo_and_unwind [OF tq_sample_lists(1), of "[2, 0, 1]"]
  by (auto simp: tq_sample_lists(3) simp del: insert_all.simps dequeue_all.simps)

text \<open>
  Going backwards in a tail queue. Reading a link cell as a head is right: the last element
  and the element before another are the ones of the list (null at the front, where the head
  itself stands in), and the reverse iteration runs the body on the elements in reverse order
  as long as a body that goes on keeps its element and those before it.
\<close>

theorem tailq_backwards:
  assumes "tq_at s h xs"
  shows "TAILQ_LAST h s = Inr (if xs = [] then NULL else Ptr (last xs)) \<and>
    (\<forall>i < length xs. TAILQ_PREV (Ptr (xs ! i)) s = Inr (if i = 0 then NULL else Ptr (xs ! (i - 1)))) \<and>
    (keeps_upto body h \<longrightarrow> TAILQ_FOREACH_REVERSE body h s = Some (foreach_list body (rev xs) s))"
proof (intro conjI allI impI)
  fix i
  assume i: "i < length xs"
  have "tq_at s h (take i xs @ xs ! i # drop (Suc i) xs)"
    using assms i by (simp add: id_take_nth_drop [symmetric])
  then show "TAILQ_PREV (Ptr (xs ! i)) s = Inr (if i = 0 then NULL else Ptr (xs ! (i - 1)))"
    using TAILQ_PREV_list [of s h "take i xs" "xs ! i" "drop (Suc i) xs"] i by (auto simp: last_take_nth)
qed (use assms in \<open>simp_all add: TAILQ_LAST_list TAILQ_FOREACH_REVERSE_list\<close>)

theorem tailq_backwards_witness:
  "TAILQ_LAST 0 tq_linked = Inr (Ptr 1) \<and> TAILQ_PREV (Ptr 1) tq_linked = Inr (Ptr 0) \<and>
   TAILQ_FOREACH_REVERSE (\<lambda>p s. Inr (p = Ptr 0, s)) 0 tq_linked = Some (Inr (Ptr 0, tq_linked))"
proof -
  have "keeps_upto (\<lambda>p s :: tq_store. Inr (p = Ptr 0, s)) 0" by (auto simp: keeps_upto_def)
  then show ?thesis
    using tailq_backwards [OF tq_linked_lists(1), of "\<lambda>p s. Inr (p = Ptr 0, s)"]
    by (simp add: All_less_Suc numeral_2_eq_2)
qed

end
