(* ===== verification/Queue_Checks.thy ===== *)
theory Queue_Checks
  imports Queue_Tailq
begin

text \<open>
  The consistency checks of \<^verbatim>\<open>server/queue.h\<close>. In a kernel built with \<^verbatim>\<open>INVARIANTS\<close> the macros of
  the doubly-linked list and of the tail queue begin with checks that stop the kernel on a
  corrupted link; elsewhere the checks are empty. Here are the checks, the macros with them, and
  what they are worth: they never stop a sound structure, they accept a list only if all its
  back links are right, and they catch an element that is removed twice.
\<close>

section \<open>The checks\<close>

definition panic :: "string \<Rightarrow> 'a res" where
  "panic msg = Inl (Panic msg)"

definition QMD_LIST_CHECK_HEAD :: "nat \<Rightarrow> 'z dl_store_scheme \<Rightarrow> unit res" where
  "QMD_LIST_CHECK_HEAD head s =
     rbind (LIST_FIRST head s) (\<lambda>f. if f = NULL then Inr ()
       else rbind (get_prev f s) (\<lambda>l. if l \<noteq> First head
         then panic ''Bad list head %p first->prev != head'' else Inr ()))"

definition QMD_LIST_CHECK_NEXT :: "ptr \<Rightarrow> 'z dl_store_scheme \<Rightarrow> unit res" where
  "QMD_LIST_CHECK_NEXT elm s =
     rbind (LIST_NEXT elm s) (\<lambda>n. if n = NULL then Inr ()
       else rbind (get_prev n s) (\<lambda>l. rbind (next_cell elm) (\<lambda>c. if l \<noteq> c
         then panic ''Bad link elm %p next->prev != elm'' else Inr ())))"

definition QMD_LIST_CHECK_PREV :: "ptr \<Rightarrow> 'z dl_store_scheme \<Rightarrow> unit res" where
  "QMD_LIST_CHECK_PREV elm s =
     rbind (get_prev elm s) (\<lambda>l. rbind (load s l) (\<lambda>p. if p \<noteq> elm
       then panic ''Bad link elm %p prev->next != elm'' else Inr ()))"

definition QMD_TAILQ_CHECK_HEAD :: "nat \<Rightarrow> 'z tq_store_scheme \<Rightarrow> unit res" where
  "QMD_TAILQ_CHECK_HEAD head s =
     rbind (TAILQ_EMPTY head s) (\<lambda>e. if e then Inr ()
       else rbind (TAILQ_FIRST head s) (\<lambda>f. rbind (get_prev f s) (\<lambda>l. if l \<noteq> First head
         then panic ''Bad tailq head %p first->prev != head'' else Inr ())))"

definition QMD_TAILQ_CHECK_TAIL :: "nat \<Rightarrow> 'z tq_store_scheme \<Rightarrow> unit res" where
  "QMD_TAILQ_CHECK_TAIL head s =
     rbind (tq_last head s) (\<lambda>l. rbind (load s l) (\<lambda>p. if p \<noteq> NULL
       then panic ''Bad tailq NEXT(%p->tqh_last) != NULL'' else Inr ()))"

definition QMD_TAILQ_CHECK_NEXT :: "ptr \<Rightarrow> 'z tq_store_scheme \<Rightarrow> unit res" where
  "QMD_TAILQ_CHECK_NEXT elm s =
     rbind (TAILQ_NEXT elm s) (\<lambda>n. if n = NULL then Inr ()
       else rbind (get_prev n s) (\<lambda>l. rbind (next_cell elm) (\<lambda>c. if l \<noteq> c
         then panic ''Bad link elm %p next->prev != elm'' else Inr ())))"

definition QMD_TAILQ_CHECK_PREV :: "ptr \<Rightarrow> 'z tq_store_scheme \<Rightarrow> unit res" where
  "QMD_TAILQ_CHECK_PREV elm s =
     rbind (get_prev elm s) (\<lambda>l. rbind (load s l) (\<lambda>p. if p \<noteq> elm
       then panic ''Bad link elm %p prev->next != elm'' else Inr ()))"

section \<open>The macros with their checks\<close>

definition LIST_INSERT_AFTER_checked :: "ptr \<Rightarrow> ptr \<Rightarrow> 'z dl_store_scheme \<Rightarrow> 'z dl_store_scheme res" where
  "LIST_INSERT_AFTER_checked listelm elm s =
     rbind (QMD_LIST_CHECK_NEXT listelm s) (\<lambda>_. LIST_INSERT_AFTER listelm elm s)"

definition LIST_INSERT_BEFORE_checked :: "ptr \<Rightarrow> ptr \<Rightarrow> 'z dl_store_scheme \<Rightarrow> 'z dl_store_scheme res" where
  "LIST_INSERT_BEFORE_checked listelm elm s =
     rbind (QMD_LIST_CHECK_PREV listelm s) (\<lambda>_. LIST_INSERT_BEFORE listelm elm s)"

definition LIST_INSERT_HEAD_checked :: "nat \<Rightarrow> ptr \<Rightarrow> 'z dl_store_scheme \<Rightarrow> 'z dl_store_scheme res" where
  "LIST_INSERT_HEAD_checked head elm s =
     rbind (QMD_LIST_CHECK_HEAD head s) (\<lambda>_. LIST_INSERT_HEAD head elm s)"

definition LIST_REMOVE_checked :: "ptr \<Rightarrow> 'z dl_store_scheme \<Rightarrow> 'z dl_store_scheme res" where
  "LIST_REMOVE_checked elm s =
     rbind (QMD_LIST_CHECK_NEXT elm s) (\<lambda>_. rbind (QMD_LIST_CHECK_PREV elm s) (\<lambda>_. LIST_REMOVE elm s))"

definition TAILQ_INSERT_AFTER_checked ::
  "nat \<Rightarrow> ptr \<Rightarrow> ptr \<Rightarrow> 'z tq_store_scheme \<Rightarrow> 'z tq_store_scheme res" where
  "TAILQ_INSERT_AFTER_checked head listelm elm s =
     rbind (QMD_TAILQ_CHECK_NEXT listelm s) (\<lambda>_. TAILQ_INSERT_AFTER head listelm elm s)"

definition TAILQ_INSERT_BEFORE_checked :: "ptr \<Rightarrow> ptr \<Rightarrow> 'z tq_store_scheme \<Rightarrow> 'z tq_store_scheme res" where
  "TAILQ_INSERT_BEFORE_checked listelm elm s =
     rbind (QMD_TAILQ_CHECK_PREV listelm s) (\<lambda>_. TAILQ_INSERT_BEFORE listelm elm s)"

definition TAILQ_INSERT_HEAD_checked :: "nat \<Rightarrow> ptr \<Rightarrow> 'z tq_store_scheme \<Rightarrow> 'z tq_store_scheme res" where
  "TAILQ_INSERT_HEAD_checked head elm s =
     rbind (QMD_TAILQ_CHECK_HEAD head s) (\<lambda>_. TAILQ_INSERT_HEAD head elm s)"

definition TAILQ_INSERT_TAIL_checked :: "nat \<Rightarrow> ptr \<Rightarrow> 'z tq_store_scheme \<Rightarrow> 'z tq_store_scheme res" where
  "TAILQ_INSERT_TAIL_checked head elm s =
     rbind (QMD_TAILQ_CHECK_TAIL head s) (\<lambda>_. TAILQ_INSERT_TAIL head elm s)"

definition TAILQ_REMOVE_checked :: "nat \<Rightarrow> ptr \<Rightarrow> 'z tq_store_scheme \<Rightarrow> 'z tq_store_scheme res" where
  "TAILQ_REMOVE_checked head elm s =
     rbind (QMD_TAILQ_CHECK_NEXT elm s) (\<lambda>_. rbind (QMD_TAILQ_CHECK_PREV elm s) (\<lambda>_. TAILQ_REMOVE head elm s))"

text \<open>On elements the two families of checks are the same, up to the messages of the head check.\<close>

lemma QMD_TAILQ_CHECK_elem [simp]:
  "QMD_TAILQ_CHECK_NEXT elm s = QMD_LIST_CHECK_NEXT elm s"
  "QMD_TAILQ_CHECK_PREV elm s = QMD_LIST_CHECK_PREV elm s"
  by (simp_all add: QMD_TAILQ_CHECK_NEXT_def QMD_LIST_CHECK_NEXT_def QMD_TAILQ_CHECK_PREV_def
      QMD_LIST_CHECK_PREV_def TAILQ_NEXT_def LIST_NEXT_def)

section \<open>The checks accept sound structures\<close>

lemma check_head_ok: "dl_at s h xs \<Longrightarrow> QMD_LIST_CHECK_HEAD h s = Inr ()"
  using dl_first [of s h xs]
  by (cases xs) (auto simp: QMD_LIST_CHECK_HEAD_def dl_defs dl_at_def)

lemma check_elem_ok:
  assumes "dl_at s h xs" and "a \<in> set xs"
  shows "QMD_LIST_CHECK_NEXT (Ptr a) s = Inr ()" and "QMD_LIST_CHECK_PREV (Ptr a) s = Inr ()"
proof -
  obtain ys zs where xs: "xs = ys @ a # zs" using assms(2) by (auto dest: split_list)
  note cells = dl_cells [OF assms(1) [unfolded xs]]
  show "QMD_LIST_CHECK_NEXT (Ptr a) s = Inr ()"
    using cells(3) by (cases zs) (auto simp: QMD_LIST_CHECK_NEXT_def dl_defs)
  show "QMD_LIST_CHECK_PREV (Ptr a) s = Inr ()"
    using cells(1,2) by (simp add: QMD_LIST_CHECK_PREV_def dl_defs)
qed

lemma tq_check_head_ok: "tq_at s h xs \<Longrightarrow> QMD_TAILQ_CHECK_HEAD h s = Inr ()"
  using dl_first [of s h xs]
  by (cases xs) (auto simp: QMD_TAILQ_CHECK_HEAD_def tq_defs tq_at_def dl_at_def)

lemma tq_check_tail_ok: "tq_at s h xs \<Longrightarrow> QMD_TAILQ_CHECK_TAIL h s = Inr ()"
  using tq_last_NULL [of s h xs] by (auto simp: QMD_TAILQ_CHECK_TAIL_def tq_defs tq_at_def)

lemmas checked_defs = LIST_INSERT_AFTER_checked_def LIST_INSERT_BEFORE_checked_def LIST_INSERT_HEAD_checked_def
  LIST_REMOVE_checked_def TAILQ_INSERT_AFTER_checked_def TAILQ_INSERT_BEFORE_checked_def
  TAILQ_INSERT_HEAD_checked_def TAILQ_INSERT_TAIL_checked_def TAILQ_REMOVE_checked_def

lemma dl_checked:
  assumes "dl_at s h xs"
  shows "LIST_INSERT_HEAD_checked h e s = LIST_INSERT_HEAD h e s"
    and "a \<in> set xs \<Longrightarrow> LIST_INSERT_AFTER_checked (Ptr a) e s = LIST_INSERT_AFTER (Ptr a) e s"
    and "a \<in> set xs \<Longrightarrow> LIST_INSERT_BEFORE_checked (Ptr a) e s = LIST_INSERT_BEFORE (Ptr a) e s"
    and "a \<in> set xs \<Longrightarrow> LIST_REMOVE_checked (Ptr a) s = LIST_REMOVE (Ptr a) s"
  using check_head_ok [OF assms] check_elem_ok [OF assms] by (simp_all add: checked_defs)

lemma tq_checked:
  assumes "tq_at s h xs"
  shows "TAILQ_INSERT_HEAD_checked h e s = TAILQ_INSERT_HEAD h e s"
    and "TAILQ_INSERT_TAIL_checked h e s = TAILQ_INSERT_TAIL h e s"
    and "a \<in> set xs \<Longrightarrow> TAILQ_INSERT_AFTER_checked h (Ptr a) e s = TAILQ_INSERT_AFTER h (Ptr a) e s"
    and "a \<in> set xs \<Longrightarrow> TAILQ_INSERT_BEFORE_checked (Ptr a) e s = TAILQ_INSERT_BEFORE (Ptr a) e s"
    and "a \<in> set xs \<Longrightarrow> TAILQ_REMOVE_checked h (Ptr a) s = TAILQ_REMOVE h (Ptr a) s"
proof -
  have dl: "dl_at s h xs" using assms by (simp add: tq_at_def)
  show "TAILQ_INSERT_HEAD_checked h e s = TAILQ_INSERT_HEAD h e s"
    and "TAILQ_INSERT_TAIL_checked h e s = TAILQ_INSERT_TAIL h e s"
    using tq_check_head_ok [OF assms] tq_check_tail_ok [OF assms] by (simp_all add: checked_defs)
  show "a \<in> set xs \<Longrightarrow> TAILQ_INSERT_AFTER_checked h (Ptr a) e s = TAILQ_INSERT_AFTER h (Ptr a) e s"
    and "a \<in> set xs \<Longrightarrow> TAILQ_INSERT_BEFORE_checked (Ptr a) e s = TAILQ_INSERT_BEFORE (Ptr a) e s"
    and "a \<in> set xs \<Longrightarrow> TAILQ_REMOVE_checked h (Ptr a) s = TAILQ_REMOVE h (Ptr a) s"
    using check_elem_ok [OF dl] by (simp_all add: checked_defs)
qed

text \<open>The macros with checks keep the contracts of the ones without.\<close>

interpretation dlist_checked: list_ops "\<lambda>s. dl_at s h" dl_live "\<lambda>a. LIST_INSERT_HEAD_checked h (Ptr a)"
  "\<lambda>a s. Some (LIST_REMOVE_checked (Ptr a) s)" for h
  by unfold_locales
    (use dlist.repr_distinct dlist.repr_live dlist.ins_law dlist.del_law in \<open>simp_all add: dl_checked\<close>)

interpretation tailq_checked: fifo_ops "\<lambda>s. tq_at s h" dl_live "\<lambda>a. TAILQ_INSERT_HEAD_checked h (Ptr a)"
  "\<lambda>a s. Some (TAILQ_REMOVE_checked h (Ptr a) s)" "\<lambda>a. TAILQ_INSERT_TAIL_checked h (Ptr a)" "TAILQ_FIRST h"
  "\<lambda>s. rbind (TAILQ_FIRST h s) (\<lambda>p. TAILQ_REMOVE_checked h p s)" for h
proof unfold_locales
  fix s :: "'z tq_store_scheme" and xs a
  show "\<exists>s'. rbind (TAILQ_FIRST h s) (\<lambda>p. TAILQ_REMOVE_checked h p s) = Inr s' \<and> tq_at s' h xs \<and> dl_live s' = dl_live s"
    if "tq_at s h (a # xs)"
    using tailq.pop_law [OF that] tailq.first_law [OF that] tq_checked(5) [OF that, of a] by simp
qed (use tailq.repr_distinct tailq.repr_live tailq.ins_law tailq.del_law tailq.put_law tailq.first_law
    in \<open>simp_all add: tq_checked\<close>)

section \<open>The checks reject unsound structures\<close>

lemma check_head_prev:
  assumes "QMD_LIST_CHECK_HEAD h s = Inr ()" and "links s (First h) = Some (Ptr a)"
  shows "le_prev s a = Some (First h)"
  using assms by (auto simp: QMD_LIST_CHECK_HEAD_def dl_defs panic_def rbind_def split: option.splits if_splits)

lemma check_next_prev:
  assumes "QMD_LIST_CHECK_NEXT (Ptr a) s = Inr ()" and "links s (Next a) = Some (Ptr b)"
  shows "le_prev s b = Some (Next a)"
  using assms by (auto simp: QMD_LIST_CHECK_NEXT_def dl_defs panic_def rbind_def split: option.splits if_splits)

lemma checks_prevs_ok:
  assumes "chain (links s) p xs NULL" and "\<And>a. p = Ptr a \<Longrightarrow> le_prev s a = Some c"
    and "\<And>a. a \<in> set xs \<Longrightarrow> QMD_LIST_CHECK_NEXT (Ptr a) s = Inr ()"
  shows "prevs_ok (le_prev s) c xs"
  using assms
proof (induction xs arbitrary: p c)
  case (Cons a xs)
  obtain q where q: "p = Ptr a" "links s (Next a) = Some q" "chain (links s) q xs NULL"
    using Cons.prems(1) unfolding chain_Cons_iff by blast
  moreover have "prevs_ok (le_prev s) (Next a) xs"
    using Cons.IH [OF q(3), of "Next a"] Cons.prems(3) check_next_prev q(2) by auto
  ultimately show ?case using Cons.prems(2) by simp
qed simp

lemma checks_dl_at:
  assumes "list_at s h xs" and "QMD_LIST_CHECK_HEAD h s = Inr ()"
    and "\<And>a. a \<in> set xs \<Longrightarrow> QMD_LIST_CHECK_NEXT (Ptr a) s = Inr ()"
  shows "dl_at s h xs"
proof -
  obtain p where p: "links s (First h) = Some p" "chain (links s) p xs NULL"
    using assms(1) by (auto simp: list_at_iff)
  then have "prevs_ok (le_prev s) (First h) xs"
    by (intro checks_prevs_ok [OF p(2)]) (use check_head_prev [OF assms(2)] assms(3) in auto)
  then show ?thesis using assms(1) by (simp add: dl_at_def)
qed

text \<open>After a removal the element's own fields still lead into the list, where they fail the checks.\<close>

lemma removed_fails_checks:
  assumes "dl_at s h (ys @ a # zs)" and "links t = (links s)(cell_before h ys := links s (Next a))"
    and "le_prev t = repoint (le_prev s) zs (cell_before h ys)"
  shows "\<exists>msg. rbind (QMD_LIST_CHECK_NEXT (Ptr a) t) (\<lambda>_. QMD_LIST_CHECK_PREV (Ptr a) t) = Inl (Panic msg)"
proof -
  have d: "distinct (ys @ a # zs)" by (rule dl_at_distinct [OF assms(1)])
  then have c: "cell_before h ys \<noteq> Next a" using cell_before_inj by fastforce
  note cells = dl_cells [OF assms(1)]
  have p: "le_prev t a = Some (cell_before h ys)" using cells(2) assms(3) d by simp
  show ?thesis
  proof (cases zs)
    case Nil
    then have "links t (Next a) = Some NULL" "links t (cell_before h ys) = Some NULL"
      using cells(3) assms(2) c by auto
    with p show ?thesis by (simp add: QMD_LIST_CHECK_NEXT_def QMD_LIST_CHECK_PREV_def dl_defs panic_def)
  next
    case (Cons z zs')
    then have "links t (Next a) = Some (Ptr z)" "le_prev t z = Some (cell_before h ys)"
      using cells(3) assms(2,3) c by (auto simp: repoint_def)
    with c show ?thesis by (simp add: QMD_LIST_CHECK_NEXT_def dl_defs panic_def)
  qed
qed

lemma LIST_REMOVE_cells:
  assumes "dl_at s h (ys @ a # zs)" and "LIST_REMOVE (Ptr a) s = Inr t"
  shows "links t = (links s)(cell_before h ys := links s (Next a))"
    and "le_prev t = repoint (le_prev s) zs (cell_before h ys)"
proof -
  have "zs = z # zs' \<Longrightarrow> z \<noteq> a" for z zs' using dl_at_distinct [OF assms(1)] by auto
  then have "links t = (links s)(cell_before h ys := links s (Next a)) \<and>
      le_prev t = repoint (le_prev s) zs (cell_before h ys)"
    using dl_cells [OF assms(1)] assms(2) by (cases zs) (auto simp: LIST_REMOVE_def dl_defs repoint_def)
  then show "links t = (links s)(cell_before h ys := links s (Next a))"
    and "le_prev t = repoint (le_prev s) zs (cell_before h ys)" by auto
qed

lemma TAILQ_REMOVE_cells:
  assumes "tq_at s h (ys @ a # zs)" and "TAILQ_REMOVE h (Ptr a) s = Inr t"
  shows "links t = (links s)(cell_before h ys := links s (Next a))"
    and "le_prev t = repoint (le_prev s) zs (cell_before h ys)"
proof -
  have dl: "dl_at s h (ys @ a # zs)" using assms(1) by (simp add: tq_at_def)
  have "zs = z # zs' \<Longrightarrow> z \<noteq> a" for z zs' using dl_at_distinct [OF dl] by auto
  then have "links t = (links s)(cell_before h ys := links s (Next a)) \<and>
      le_prev t = repoint (le_prev s) zs (cell_before h ys)"
    using dl_cells [OF dl] assms(2) by (cases zs) (auto simp: TAILQ_REMOVE_def tq_defs repoint_def)
  then show "links t = (links s)(cell_before h ys := links s (Next a))"
    and "le_prev t = repoint (le_prev s) zs (cell_before h ys)" by auto
qed

lemma rbind_stops: "rbind m (\<lambda>_. n) = Inl e \<Longrightarrow> rbind m (\<lambda>_. rbind n f) = Inl e"
  by (cases m; cases n) simp_all

lemma TAILQ_REMOVE_checked_twice:
  assumes "tq_at s h xs" and "a \<in> set xs"
  shows "\<exists>t msg. TAILQ_REMOVE_checked h (Ptr a) s = Inr t \<and> TAILQ_REMOVE_checked h (Ptr a) t = Inl (Panic msg)"
proof -
  obtain ys zs where xs: "xs = ys @ a # zs" using assms(2) by (auto dest: split_list)
  note at = assms(1) [unfolded xs]
  obtain t where t: "TAILQ_REMOVE h (Ptr a) s = Inr t" using TAILQ_REMOVE_list [OF at] by blast
  have "dl_at s h (ys @ a # zs)" using at by (simp add: tq_at_def)
  then obtain msg where
    "rbind (QMD_LIST_CHECK_NEXT (Ptr a) t) (\<lambda>_. QMD_LIST_CHECK_PREV (Ptr a) t) = Inl (Panic msg)"
    using removed_fails_checks [OF _ TAILQ_REMOVE_cells [OF at t]] by blast
  then have "TAILQ_REMOVE_checked h (Ptr a) t = Inl (Panic msg)"
    by (simp add: TAILQ_REMOVE_checked_def rbind_stops)
  then show ?thesis using t tq_checked(5) [OF assms] by auto
qed

lemma LIST_REMOVE_checked_twice:
  assumes "dl_at s h xs" and "a \<in> set xs"
  shows "\<exists>t msg. LIST_REMOVE_checked (Ptr a) s = Inr t \<and> LIST_REMOVE_checked (Ptr a) t = Inl (Panic msg)"
proof -
  obtain ys zs where xs: "xs = ys @ a # zs" using assms(2) by (auto dest: split_list)
  note at = assms(1) [unfolded xs]
  obtain t where t: "LIST_REMOVE (Ptr a) s = Inr t" using LIST_REMOVE_list [OF at] by blast
  obtain msg where
    "rbind (QMD_LIST_CHECK_NEXT (Ptr a) t) (\<lambda>_. QMD_LIST_CHECK_PREV (Ptr a) t) = Inl (Panic msg)"
    using removed_fails_checks [OF at LIST_REMOVE_cells [OF at t]] by blast
  then have "LIST_REMOVE_checked (Ptr a) t = Inl (Panic msg)"
    by (simp add: LIST_REMOVE_checked_def rbind_stops)
  then show ?thesis using t dl_checked(4) [OF assms] by auto
qed

lemma insert_all_checked:
  assumes "tq_at s h xs" and "set as \<subseteq> dl_live s" and "distinct as" and "set as \<inter> set xs = {}"
  shows "insert_all (\<lambda>a. TAILQ_INSERT_TAIL_checked h (Ptr a)) as s = insert_all (\<lambda>a. TAILQ_INSERT_TAIL h (Ptr a)) as s"
  using assms
proof (induction as arbitrary: s xs)
  case (Cons a as)
  then obtain s1 where "TAILQ_INSERT_TAIL h (Ptr a) s = Inr s1" "tq_at s1 h (xs @ [a])" "dl_live s1 = dl_live s"
    using TAILQ_INSERT_TAIL_list [of s h xs a] by auto
  then show ?case using Cons.IH [of s1 "xs @ [a]"] Cons.prems by (simp add: tq_checked(2) [OF Cons.prems(1)])
qed simp

section \<open>Properties\<close>

text \<open>
  C26: What the checks mean. Of the elements reached from the head of a doubly-linked list, the
  checks of the head and of every element pass if and only if every back link is right. Then the
  checks of the back links pass too, and an element that is removed twice is caught.
\<close>

theorem checks_characterise_list:
  assumes "list_at s h xs"
  shows "((QMD_LIST_CHECK_HEAD h s = Inr () \<and> (\<forall>a \<in> set xs. QMD_LIST_CHECK_NEXT (Ptr a) s = Inr ())) \<longleftrightarrow>
      dl_at s h xs) \<and>
    (dl_at s h xs \<longrightarrow> (\<forall>a \<in> set xs. QMD_LIST_CHECK_PREV (Ptr a) s = Inr () \<and>
      (\<exists>t msg. LIST_REMOVE_checked (Ptr a) s = Inr t \<and> LIST_REMOVE_checked (Ptr a) t = Inl (Panic msg))))"
  using checks_dl_at [OF assms] check_head_ok check_elem_ok LIST_REMOVE_checked_twice by blast

theorem checks_characterise_list_witness:
  "QMD_LIST_CHECK_HEAD 0 tq_linked = Inr () \<and>
   (\<exists>t msg. LIST_REMOVE_checked (Ptr 1) tq_linked = Inr t \<and> LIST_REMOVE_checked (Ptr 1) t = Inl (Panic msg))"
proof -
  have "dl_at tq_linked 0 [0, 1]" "list_at tq_linked 0 [0, 1]"
    using tq_linked_lists(1) by (simp_all add: tq_at_def dl_at_def)
  then show ?thesis using checks_characterise_list [of tq_linked 0 "[0, 1]"] by auto
qed

text \<open>
  Debugging kernels. On a sound tail queue the insertions with checks do what the ones without
  do, elements come out first in, first out, and an element that is removed a second time is
  caught by the checks, whatever its place in the queue was.
\<close>

theorem checked_tail_queue:
  assumes "tq_at s h xs" and "set as \<subseteq> dl_live s" and "distinct as" and "set as \<inter> set xs = {}"
  shows "\<exists>s1 s2. insert_all (\<lambda>a. TAILQ_INSERT_TAIL_checked h (Ptr a)) as s = Inr s1 \<and>
    insert_all (\<lambda>a. TAILQ_INSERT_TAIL h (Ptr a)) as s = Inr s1 \<and> tq_at s1 h (xs @ as) \<and>
    dequeue_all (TAILQ_FIRST h) (\<lambda>s. rbind (TAILQ_FIRST h s) (\<lambda>p. TAILQ_REMOVE_checked h p s))
      (length xs + length as) s1 = Inr (map Ptr (xs @ as), s2) \<and> tq_at s2 h [] \<and>
    (\<forall>a \<in> set (xs @ as). \<exists>t msg. TAILQ_REMOVE_checked h (Ptr a) s1 = Inr t \<and>
      TAILQ_REMOVE_checked h (Ptr a) t = Inl (Panic msg))"
proof -
  obtain s1 s2 where "insert_all (\<lambda>a. TAILQ_INSERT_TAIL_checked h (Ptr a)) as s = Inr s1" "tq_at s1 h (xs @ as)"
    "dequeue_all (TAILQ_FIRST h) (\<lambda>s. rbind (TAILQ_FIRST h s) (\<lambda>p. TAILQ_REMOVE_checked h p s))
      (length xs + length as) s1 = Inr (map Ptr (xs @ as), s2)" "tq_at s2 h []"
    using tailq_checked.fifo [OF assms] by blast
  then show ?thesis
    using insert_all_checked [OF assms] TAILQ_REMOVE_checked_twice [of s1 h "xs @ as"]
    by (intro exI [of _ s1] exI [of _ s2]) simp
qed

theorem checked_tail_queue_witness:
  "\<exists>s1 t msg. insert_all (\<lambda>a. TAILQ_INSERT_TAIL_checked 0 (Ptr a)) [2, 0, 1] tq_sample = Inr s1 \<and>
     TAILQ_REMOVE_checked 0 (Ptr 0) s1 = Inr t \<and> TAILQ_REMOVE_checked 0 (Ptr 0) t = Inl (Panic msg)"
proof -
  have "set [2, 0, 1] \<subseteq> dl_live tq_sample" by (simp add: tq_sample_lists(3))
  then obtain s1 where "insert_all (\<lambda>a. TAILQ_INSERT_TAIL_checked 0 (Ptr a)) [2, 0, 1] tq_sample = Inr s1"
    "\<forall>a \<in> set ([] @ [2, 0, 1]). \<exists>t msg. TAILQ_REMOVE_checked 0 (Ptr a) s1 = Inr t \<and>
      TAILQ_REMOVE_checked 0 (Ptr a) t = Inl (Panic msg)"
    using checked_tail_queue [OF tq_sample_lists(1), of "[2, 0, 1]"] by (simp del: insert_all.simps dequeue_all.simps) blast
  then show ?thesis by auto
qed

end
