(* ===== verification/Queue_Trace.thy ===== *)
theory Queue_Trace
  imports Queue_Checks
begin

text \<open>
  The macros of \<^verbatim>\<open>server/queue.h\<close> when \<^verbatim>\<open>QUEUE_MACRO_DEBUG\<close> is defined: heads and entries of tail
  queues carry a record of the last two places that altered them, and a removal overwrites the
  links of the removed element with the pointer \<^verbatim>\<open>-1\<close>. Here are the macros with the tracing, that
  they keep the contracts of the ones without, what the records hold, and that a removed element
  cannot be used.
\<close>

section \<open>Traces and trash\<close>

text \<open>A place is a line of a file. The macros expand on one line: all they record is that place.\<close>

type_synonym place = "nat \<times> string"

record qm_trace =
  lastline :: nat
  prevline :: nat
  lastfile :: "string option"
  prevfile :: "string option"

definition TRACEBUF_INITIALIZER :: "place \<Rightarrow> qm_trace" where
  "TRACEBUF_INITIALIZER p = \<lparr>lastline = fst p, prevline = 0, lastfile = Some (snd p), prevfile = None\<rparr>"

definition record_place :: "place \<Rightarrow> qm_trace \<Rightarrow> qm_trace" where
  "record_place p t = (let t1 = t\<lparr>prevline := lastline t\<rparr>; t2 = t1\<lparr>prevfile := lastfile t1\<rparr>; t3 = t2\<lparr>lastline := fst p\<rparr>
     in t3\<lparr>lastfile := Some (snd p)\<rparr>)"

record tq_traced = tq_store +
  head_trace :: "nat \<rightharpoonup> qm_trace"
  elem_trace :: "nat \<rightharpoonup> qm_trace"

definition QMD_TRACE_HEAD :: "place \<Rightarrow> nat \<Rightarrow> 'z tq_traced_scheme \<Rightarrow> 'z tq_traced_scheme res" where
  "QMD_TRACE_HEAD p head s =
     (case head_trace s head of None \<Rightarrow> Inl Wild_Pointer
      | Some t \<Rightarrow> Inr (s\<lparr>head_trace := (head_trace s)(head \<mapsto> record_place p t)\<rparr>))"

definition QMD_TRACE_ELEM :: "place \<Rightarrow> ptr \<Rightarrow> 'z tq_traced_scheme \<Rightarrow> 'z tq_traced_scheme res" where
  "QMD_TRACE_ELEM p elem s =
     (case elem of NULL \<Rightarrow> Inl Null_Deref
      | Ptr a \<Rightarrow> (case elem_trace s a of None \<Rightarrow> Inl Wild_Pointer
          | Some t \<Rightarrow> Inr (s\<lparr>elem_trace := (elem_trace s)(a \<mapsto> record_place p t)\<rparr>)))"

text \<open>
  The pointer \<^verbatim>\<open>(void *)-1\<close>, as a pointer to an element and as the address of a link. No object is
  there: a loaded program has none at the last address.
\<close>

definition trash :: nat where
  "trash = 2 ^ 64 - 1"

definition QMD_SAVELINK :: "ptr \<Rightarrow> link res" where
  "QMD_SAVELINK elm = next_cell elm"

definition TRASHIT :: "link \<Rightarrow> 'z link_store_scheme \<Rightarrow> 'z link_store_scheme res" where
  "TRASHIT l s = store l (Ptr trash) s"

definition TRASHIT_prev :: "ptr \<Rightarrow> 'z dl_store_scheme \<Rightarrow> 'z dl_store_scheme res" where
  "TRASHIT_prev elm s = set_prev elm (Next trash) s"

text \<open>A head defined with its initializer.\<close>

definition TAILQ_HEAD_INITIALIZER :: "place \<Rightarrow> nat \<Rightarrow> 'z tq_traced_scheme \<Rightarrow> 'z tq_traced_scheme" where
  "TAILQ_HEAD_INITIALIZER p head s =
     s\<lparr>links := (links s)(First head \<mapsto> NULL), tqh_last := (tqh_last s)(head \<mapsto> First head),
       head_trace := (head_trace s)(head \<mapsto> TRACEBUF_INITIALIZER p)\<rparr>"

section \<open>The macros that trace and trash\<close>

definition SLIST_REMOVE_debug :: "nat \<Rightarrow> ptr \<Rightarrow> 'z link_store_scheme \<Rightarrow> 'z link_store_scheme res option" where
  "SLIST_REMOVE_debug head elm s =
     (case QMD_SAVELINK elm of Inl e \<Rightarrow> Some (Inl e)
      | Inr oldnext \<Rightarrow> map_option (\<lambda>r. rbind r (TRASHIT oldnext)) (SLIST_REMOVE head elm s))"

definition STAILQ_REMOVE_debug :: "nat \<Rightarrow> ptr \<Rightarrow> 'z stq_store_scheme \<Rightarrow> 'z stq_store_scheme res option" where
  "STAILQ_REMOVE_debug head elm s =
     (case QMD_SAVELINK elm of Inl e \<Rightarrow> Some (Inl e)
      | Inr oldnext \<Rightarrow> map_option (\<lambda>r. rbind r (TRASHIT oldnext)) (STAILQ_REMOVE head elm s))"

definition LIST_REMOVE_debug :: "ptr \<Rightarrow> 'z dl_store_scheme \<Rightarrow> 'z dl_store_scheme res" where
  "LIST_REMOVE_debug elm s =
     rbind (QMD_SAVELINK elm) (\<lambda>oldnext. rbind (LIST_REMOVE elm s) (\<lambda>s1.
       rbind (TRASHIT oldnext s1) (TRASHIT_prev elm)))"

definition TAILQ_INIT_debug :: "place \<Rightarrow> nat \<Rightarrow> 'z tq_traced_scheme \<Rightarrow> 'z tq_traced_scheme res" where
  "TAILQ_INIT_debug p head s = rbind (TAILQ_INIT head s) (QMD_TRACE_HEAD p head)"

definition TAILQ_INSERT_AFTER_debug ::
  "place \<Rightarrow> nat \<Rightarrow> ptr \<Rightarrow> ptr \<Rightarrow> 'z tq_traced_scheme \<Rightarrow> 'z tq_traced_scheme res" where
  "TAILQ_INSERT_AFTER_debug p head listelm elm s =
     rbind (TAILQ_NEXT listelm s) (\<lambda>n. rbind (set_TAILQ_NEXT elm n s) (\<lambda>s1.
       rbind (next_cell elm) (\<lambda>l. rbind (next_cell listelm) (\<lambda>m.
         rbind (if n \<noteq> NULL then rbind (TAILQ_NEXT elm s1) (\<lambda>n1. set_prev n1 l s1)
                else QMD_TRACE_HEAD p head (set_tq_last head l s1)) (\<lambda>s2.
           rbind (set_TAILQ_NEXT listelm elm s2) (\<lambda>s3. rbind (set_prev elm m s3) (\<lambda>s4.
             rbind (QMD_TRACE_ELEM p elm s4) (QMD_TRACE_ELEM p listelm))))))))"

definition TAILQ_INSERT_BEFORE_debug ::
  "place \<Rightarrow> ptr \<Rightarrow> ptr \<Rightarrow> 'z tq_traced_scheme \<Rightarrow> 'z tq_traced_scheme res" where
  "TAILQ_INSERT_BEFORE_debug p listelm elm s =
     rbind (TAILQ_INSERT_BEFORE listelm elm s) (\<lambda>s1.
       rbind (QMD_TRACE_ELEM p elm s1) (QMD_TRACE_ELEM p listelm))"

definition TAILQ_INSERT_HEAD_debug ::
  "place \<Rightarrow> nat \<Rightarrow> ptr \<Rightarrow> 'z tq_traced_scheme \<Rightarrow> 'z tq_traced_scheme res" where
  "TAILQ_INSERT_HEAD_debug p head elm s =
     rbind (TAILQ_INSERT_HEAD head elm s) (\<lambda>s1. rbind (QMD_TRACE_HEAD p head s1) (QMD_TRACE_ELEM p elm))"

definition TAILQ_INSERT_TAIL_debug ::
  "place \<Rightarrow> nat \<Rightarrow> ptr \<Rightarrow> 'z tq_traced_scheme \<Rightarrow> 'z tq_traced_scheme res" where
  "TAILQ_INSERT_TAIL_debug p head elm s =
     rbind (TAILQ_INSERT_TAIL head elm s) (\<lambda>s1. rbind (QMD_TRACE_HEAD p head s1) (QMD_TRACE_ELEM p elm))"

definition TAILQ_REMOVE_debug :: "place \<Rightarrow> nat \<Rightarrow> ptr \<Rightarrow> 'z tq_traced_scheme \<Rightarrow> 'z tq_traced_scheme res" where
  "TAILQ_REMOVE_debug p head elm s =
     rbind (QMD_SAVELINK elm) (\<lambda>oldnext. rbind (TAILQ_NEXT elm s) (\<lambda>n. rbind (get_prev elm s) (\<lambda>pr.
       rbind (if n \<noteq> NULL then set_prev n pr s
              else QMD_TRACE_HEAD p head (set_tq_last head pr s)) (\<lambda>s1.
         rbind (get_prev elm s1) (\<lambda>pr1. rbind (TAILQ_NEXT elm s1) (\<lambda>n1. rbind (store pr1 n1 s1) (\<lambda>s2.
           rbind (TRASHIT oldnext s2) (\<lambda>s3. rbind (TRASHIT_prev elm s3) (QMD_TRACE_ELEM p elm)))))))))"

text \<open>\<^verbatim>\<open>TAILQ_INIT\<close> of the second head traces it, and the macro then traces it again.\<close>

definition TAILQ_CONCAT_debug ::
  "place \<Rightarrow> nat \<Rightarrow> nat \<Rightarrow> 'z tq_traced_scheme \<Rightarrow> 'z tq_traced_scheme res" where
  "TAILQ_CONCAT_debug p head1 head2 s =
     rbind (TAILQ_EMPTY head2 s) (\<lambda>e. if e then Inr s
       else rbind (TAILQ_CONCAT head1 head2 s) (\<lambda>s1. rbind (QMD_TRACE_HEAD p head2 s1) (\<lambda>s2.
         rbind (QMD_TRACE_HEAD p head1 s2) (QMD_TRACE_HEAD p head2))))"

section \<open>Trashed links\<close>

text \<open>Removing an element and trashing its link keeps the list, and leaves the element unusable.\<close>

lemma TRASHIT_list:
  assumes "list_at s h xs" and "a \<notin> set xs" and "links s (Next a) \<noteq> None"
  shows "\<exists>t. TRASHIT (Next a) s = Inr t \<and> t = s\<lparr>links := (links s)(Next a \<mapsto> Ptr trash)\<rparr> \<and> list_at t h xs \<and>
    dom (links t) = dom (links s)"
  using assms list_at_upd_Next [of a xs s "Some (Ptr trash)" h] by (auto simp: TRASHIT_def store_def)

lemma SLIST_REMOVE_debug_list:
  assumes "list_at s h xs" and "a \<in> set xs"
  shows "\<exists>t. SLIST_REMOVE_debug h (Ptr a) s = Some (Inr t) \<and> list_at t h (remove1 a xs) \<and>
    dom (links t) = dom (links s) \<and> links t (Next a) = Some (Ptr trash)"
proof -
  obtain s1 where s1: "SLIST_REMOVE h (Ptr a) s = Some (Inr s1)" "list_at s1 h (remove1 a xs)" "dom (links s1) = dom (links s)"
    using SLIST_REMOVE_list [OF assms] by blast
  have "a \<notin> set (remove1 a xs)" using list_at_distinct [OF assms(1)] by simp
  moreover have "links s1 (Next a) \<noteq> None" using list_at_live [OF assms] s1(3) by (auto simp: set_eq_iff domIff)
  ultimately obtain t where "TRASHIT (Next a) s1 = Inr t" "t = s1\<lparr>links := (links s1)(Next a \<mapsto> Ptr trash)\<rparr>"
    "list_at t h (remove1 a xs)" "dom (links t) = dom (links s1)"
    using TRASHIT_list [OF s1(2)] by blast
  then show ?thesis using s1 by (auto simp: SLIST_REMOVE_debug_def QMD_SAVELINK_def)
qed

lemma STAILQ_REMOVE_debug_list:
  assumes "stq_at s h xs" and "a \<in> set xs"
  shows "\<exists>t. STAILQ_REMOVE_debug h (Ptr a) s = Some (Inr t) \<and> stq_at t h (remove1 a xs) \<and>
    dom (links t) = dom (links s) \<and> links t (Next a) = Some (Ptr trash)"
proof -
  obtain s1 where s1: "STAILQ_REMOVE h (Ptr a) s = Some (Inr s1)" "stq_at s1 h (remove1 a xs)" "dom (links s1) = dom (links s)"
    using STAILQ_REMOVE_list [OF assms] by blast
  have l: "list_at s h xs" "list_at s1 h (remove1 a xs)" using assms(1) s1(2) by (simp_all add: stq_at_def)
  have "a \<notin> set (remove1 a xs)" using list_at_distinct [OF l(1)] by simp
  moreover have "links s1 (Next a) \<noteq> None" using list_at_live [OF l(1) assms(2)] s1(3) by (auto simp: set_eq_iff domIff)
  ultimately obtain t where "TRASHIT (Next a) s1 = Inr t" "t = s1\<lparr>links := (links s1)(Next a \<mapsto> Ptr trash)\<rparr>"
    "list_at t h (remove1 a xs)" "dom (links t) = dom (links s1)"
    using TRASHIT_list [OF l(2)] by blast
  then show ?thesis using s1 by (auto simp: STAILQ_REMOVE_debug_def QMD_SAVELINK_def stq_at_def)
qed

lemma dl_at_trash:
  assumes "dl_at s h xs" and "a \<notin> set xs" and "a \<in> dl_live s"
  shows "\<exists>t. rbind (TRASHIT (Next a) s) (TRASHIT_prev (Ptr a)) = Inr t \<and>
    t = s\<lparr>links := (links s)(Next a \<mapsto> Ptr trash), le_prev := (le_prev s)(a \<mapsto> Next trash)\<rparr> \<and>
    dl_at t h xs \<and> dl_live t = dl_live s"
proof -
  let ?t = "s\<lparr>links := (links s)(Next a \<mapsto> Ptr trash), le_prev := (le_prev s)(a \<mapsto> Next trash)\<rparr>"
  have "rbind (TRASHIT (Next a) s) (TRASHIT_prev (Ptr a)) = Inr ?t"
    using assms(3) by (auto simp: TRASHIT_def TRASHIT_prev_def set_prev_def dl_live_def)
  moreover have "dl_at ?t h xs" using assms(1,2) by (simp add: dl_at_def list_at_iff)
  moreover have "dl_live ?t = dl_live s" using assms(3) by (auto simp: dl_live_def)
  ultimately show ?thesis by blast
qed

lemma LIST_REMOVE_dom:
  assumes "dl_at s h xs" and "a \<in> set xs" and "LIST_REMOVE (Ptr a) s = Inr t"
  shows "dom (links t) = dom (links s)"
proof -
  obtain ys zs where "xs = ys @ a # zs" using assms(2) by (auto dest: split_list)
  then have at: "dl_at s h (ys @ a # zs)" using assms(1) by simp
  show ?thesis
    using LIST_REMOVE_cells(1) [OF at assms(3)] dl_cells(1,3) [OF at] by auto
qed

lemma LIST_REMOVE_debug_list:
  assumes "dl_at s h xs" and "a \<in> set xs"
  shows "\<exists>t. LIST_REMOVE_debug (Ptr a) s = Inr t \<and> dl_at t h (remove1 a xs) \<and> dl_live t = dl_live s \<and>
    links t (Next a) = Some (Ptr trash) \<and> le_prev t a = Some (Next trash) \<and> dom (links t) = dom (links s)"
proof -
  obtain s1 where s1: "LIST_REMOVE (Ptr a) s = Inr s1" "dl_at s1 h (remove1 a xs)" "dl_live s1 = dl_live s"
    using dlist.del_law [OF assms] by auto
  have "a \<notin> set (remove1 a xs)" using dl_at_distinct [OF assms(1)] by simp
  moreover have "a \<in> dl_live s1" using dl_at_live [OF assms(1)] assms(2) s1(3) by blast
  ultimately obtain t where "rbind (TRASHIT (Next a) s1) (TRASHIT_prev (Ptr a)) = Inr t"
    "t = s1\<lparr>links := (links s1)(Next a \<mapsto> Ptr trash), le_prev := (le_prev s1)(a \<mapsto> Next trash)\<rparr>"
    "dl_at t h (remove1 a xs)" "dl_live t = dl_live s1"
    using dl_at_trash [OF s1(2)] by blast
  moreover have "dom (links s1) = dom (links s)" "links s1 (Next a) \<noteq> None"
    using LIST_REMOVE_dom [OF assms s1(1)] dl_at_live [OF assms(1)] assms(2) s1(3) by (auto simp: dl_live_def)
  ultimately show ?thesis using s1 by (auto simp: LIST_REMOVE_debug_def QMD_SAVELINK_def)
qed

text \<open>Removing the element again would write through the trashed back link.\<close>

lemma LIST_REMOVE_debug_twice:
  assumes "dl_at s h xs" and "a \<in> set xs" and "links s (Next trash) = None"
  shows "\<exists>t. LIST_REMOVE_debug (Ptr a) s = Inr t \<and> dl_at t h (remove1 a xs) \<and> LIST_REMOVE_debug (Ptr a) t = Inl Wild_Pointer"
proof -
  obtain t where t: "LIST_REMOVE_debug (Ptr a) s = Inr t" "dl_at t h (remove1 a xs)" "links t (Next a) = Some (Ptr trash)"
    "le_prev t a = Some (Next trash)" "dom (links t) = dom (links s)"
    using LIST_REMOVE_debug_list [OF assms(1,2)] by blast
  have "links t (Next trash) = None" using t(5) assms(3) by blast
  then have "LIST_REMOVE_debug (Ptr a) t = Inl Wild_Pointer"
    using t(3,4) by (auto simp: LIST_REMOVE_debug_def QMD_SAVELINK_def LIST_REMOVE_def dl_defs store_def trash_def)
  then show ?thesis using t by blast
qed

text \<open>The debugging lists keep the contract of a list.\<close>

interpretation slist_debug: list_ops "\<lambda>s. list_at s h" live_elems "\<lambda>a. SLIST_INSERT_HEAD h (Ptr a)"
  "\<lambda>a. SLIST_REMOVE_debug h (Ptr a)" for h
proof unfold_locales
  fix s :: "'z link_store_scheme" and xs a
  show "\<exists>s'. SLIST_REMOVE_debug h (Ptr a) s = Some (Inr s') \<and> list_at s' h (remove1 a xs) \<and> live_elems s' = live_elems s"
    if "list_at s h xs" "a \<in> set xs"
    using SLIST_REMOVE_debug_list [OF that] live_elems_dom by blast
qed (rule slist.repr_distinct slist.repr_live slist.ins_law; assumption)+

interpretation stailq_debug: fifo_ops "\<lambda>s. stq_at s h" live_elems "\<lambda>a. STAILQ_INSERT_HEAD h (Ptr a)"
  "\<lambda>a. STAILQ_REMOVE_debug h (Ptr a)" "\<lambda>a. STAILQ_INSERT_TAIL h (Ptr a)" "STAILQ_FIRST h" "STAILQ_REMOVE_HEAD h" for h
proof unfold_locales
  fix s :: "'z stq_store_scheme" and xs a
  show "\<exists>s'. STAILQ_REMOVE_debug h (Ptr a) s = Some (Inr s') \<and> stq_at s' h (remove1 a xs) \<and> live_elems s' = live_elems s"
    if "stq_at s h xs" "a \<in> set xs"
    using STAILQ_REMOVE_debug_list [OF that] live_elems_dom by blast
qed (rule stailq.repr_distinct stailq.repr_live stailq.ins_law stailq.put_law stailq.first_law stailq.pop_law; assumption)+

interpretation dlist_debug: list_ops "\<lambda>s. dl_at s h" dl_live "\<lambda>a. LIST_INSERT_HEAD h (Ptr a)"
  "\<lambda>a s. Some (LIST_REMOVE_debug (Ptr a) s)" for h
proof unfold_locales
  fix s :: "'z dl_store_scheme" and xs a
  show "\<exists>s'. Some (LIST_REMOVE_debug (Ptr a) s) = Some (Inr s') \<and> dl_at s' h (remove1 a xs) \<and> dl_live s' = dl_live s"
    if "dl_at s h xs" "a \<in> set xs"
    using LIST_REMOVE_debug_list [OF that] by auto
qed (rule dlist.repr_distinct dlist.repr_live dlist.ins_law; assumption)+

section \<open>Traced tail queues\<close>

subsection \<open>Traces and links do not meet\<close>

definition put_head :: "place \<Rightarrow> nat \<Rightarrow> 'z tq_traced_scheme \<Rightarrow> 'z tq_traced_scheme" where
  "put_head p h s = s\<lparr>head_trace := (head_trace s)(h := map_option (record_place p) (head_trace s h))\<rparr>"

definition put_elem :: "place \<Rightarrow> nat \<Rightarrow> 'z tq_traced_scheme \<Rightarrow> 'z tq_traced_scheme" where
  "put_elem p a s = s\<lparr>elem_trace := (elem_trace s)(a := map_option (record_place p) (elem_trace s a))\<rparr>"

lemma QMD_TRACE_HEAD_put: "head_trace s h \<noteq> None \<Longrightarrow> QMD_TRACE_HEAD p h s = Inr (put_head p h s)"
  by (auto simp: QMD_TRACE_HEAD_def put_head_def)

lemma QMD_TRACE_ELEM_put: "elem_trace s a \<noteq> None \<Longrightarrow> QMD_TRACE_ELEM p (Ptr a) s = Inr (put_elem p a s)"
  by (auto simp: QMD_TRACE_ELEM_def put_elem_def)

lemma put_fields [simp]:
  "links (put_head p h s) = links s" "le_prev (put_head p h s) = le_prev s" "tqh_last (put_head p h s) = tqh_last s"
  "links (put_elem p a s) = links s" "le_prev (put_elem p a s) = le_prev s" "tqh_last (put_elem p a s) = tqh_last s"
  "elem_trace (put_head p h s) = elem_trace s" "head_trace (put_elem p a s) = head_trace s"
  "head_trace (put_head p h s) = (head_trace s)(h := map_option (record_place p) (head_trace s h))"
  "elem_trace (put_elem p a s) = (elem_trace s)(a := map_option (record_place p) (elem_trace s a))"
  by (simp_all add: put_head_def put_elem_def)

lemma tq_at_fields:
  "links s = links t \<Longrightarrow> le_prev s = le_prev t \<Longrightarrow> tqh_last s = tqh_last t \<Longrightarrow> tq_at s h xs = tq_at t h xs"
  by (simp add: tq_at_def dl_at_def)

lemma put_lists [simp]:
  "tq_at (put_head p g s) h xs = tq_at s h xs" "tq_at (put_elem p a s) h xs = tq_at s h xs"
  "dl_live (put_head p g s) = dl_live s" "dl_live (put_elem p a s) = dl_live s"
  by (rule tq_at_fields, simp_all) (rule tq_at_fields, simp_all, simp_all add: dl_live_def)

text \<open>The plain macros leave the traces alone, and the set of entries.\<close>

definition same_traces :: "'z tq_traced_scheme \<Rightarrow> 'z tq_traced_scheme \<Rightarrow> bool" where
  "same_traces s t \<longleftrightarrow> head_trace t = head_trace s \<and> elem_trace t = elem_trace s \<and>
     dom (le_prev t) = dom (le_prev s)"

lemma store_traces: "store l v s = Inr t \<Longrightarrow> same_traces s t"
  by (auto simp: store_def same_traces_def split: if_splits)

lemma set_next_traces: "set_TAILQ_NEXT e v s = Inr t \<Longrightarrow> same_traces s t"
  by (auto simp: set_TAILQ_NEXT_def rbind_eq_Inr_iff intro: store_traces)

lemma set_prev_traces: "set_prev e v s = Inr t \<Longrightarrow> same_traces s t"
  by (auto simp: set_prev_def same_traces_def split: ptr.splits if_splits)

lemma set_last_traces [simp]: "same_traces s (set_tq_last h l t) = same_traces s t"
  by (simp add: set_tq_last_def same_traces_def)

lemma same_traces_refl [simp]: "same_traces s s"
  by (simp add: same_traces_def)

lemma same_traces_trans: "same_traces r s \<Longrightarrow> same_traces s t \<Longrightarrow> same_traces r t"
  by (simp add: same_traces_def)

lemmas cell_traces = store_traces set_next_traces set_prev_traces

lemma TAILQ_INIT_traces: "TAILQ_INIT h s = Inr t \<Longrightarrow> same_traces s t"
  by (auto simp: TAILQ_INIT_def rbind_eq_Inr_iff dest: cell_traces)

lemma TAILQ_INSERT_HEAD_traces: "TAILQ_INSERT_HEAD h e s = Inr t \<Longrightarrow> same_traces s t"
  by (auto simp: TAILQ_INSERT_HEAD_def rbind_eq_Inr_iff split: if_splits dest!: cell_traces)
    (simp_all add: same_traces_def set_tq_last_def)

lemma TAILQ_INSERT_TAIL_traces: "TAILQ_INSERT_TAIL h e s = Inr t \<Longrightarrow> same_traces s t"
  by (auto simp: TAILQ_INSERT_TAIL_def rbind_eq_Inr_iff dest!: cell_traces)
    (simp_all add: same_traces_def set_tq_last_def)

lemma TAILQ_INSERT_BEFORE_traces: "TAILQ_INSERT_BEFORE l e s = Inr t \<Longrightarrow> same_traces s t"
  by (auto simp: TAILQ_INSERT_BEFORE_def rbind_eq_Inr_iff dest!: cell_traces) (simp_all add: same_traces_def)

lemma TAILQ_CONCAT_traces: "TAILQ_CONCAT h g s = Inr t \<Longrightarrow> same_traces s t"
  by (auto simp: TAILQ_CONCAT_def rbind_eq_Inr_iff split: if_splits dest!: cell_traces TAILQ_INIT_traces)
    (simp_all add: same_traces_def set_tq_last_def)

text \<open>A head traced in the middle of a macro might as well be traced at its end.\<close>

lemma load_put [simp]: "load (put_head p h s) l = load s l" "get_prev e (put_head p h s) = get_prev e s"
  "TAILQ_NEXT e (put_head p h s) = TAILQ_NEXT e s"
  by (simp_all add: load_def get_prev_def TAILQ_NEXT_def rbind_def split: sum.splits ptr.splits)

lemma store_put: "store l v (put_head p h s) = rbind (store l v s) (\<lambda>t. Inr (put_head p h t))"
  by (simp add: store_def put_head_def)

lemma set_next_put: "set_TAILQ_NEXT e v (put_head p h s) = rbind (set_TAILQ_NEXT e v s) (\<lambda>t. Inr (put_head p h t))"
  by (cases e) (simp_all add: set_TAILQ_NEXT_def store_put)

lemma set_prev_put: "set_prev e v (put_head p h s) = rbind (set_prev e v s) (\<lambda>t. Inr (put_head p h t))"
  by (cases e) (simp_all add: set_prev_def put_head_def)

lemma trace_last [simp]:
  "head_trace (set_tq_last h l s) = head_trace s" "elem_trace (set_tq_last h l s) = elem_trace s"
  by (simp_all add: set_tq_last_def)

lemma rbind_assoc: "rbind (rbind m f) g = rbind m (\<lambda>x. rbind (f x) g)"
  by (cases m) simp_all

lemma TAILQ_INSERT_AFTER_debug_split:
  assumes "head_trace s head \<noteq> None"
  shows "TAILQ_INSERT_AFTER_debug p head listelm elm s =
    rbind (TAILQ_NEXT listelm s) (\<lambda>n. rbind (TAILQ_INSERT_AFTER head listelm elm s) (\<lambda>s1.
      rbind (QMD_TRACE_ELEM p elm (if n = NULL then put_head p head s1 else s1)) (QMD_TRACE_ELEM p listelm)))"
proof (cases "TAILQ_NEXT listelm s")
  case (Inr n)
  show ?thesis
  proof (cases "set_TAILQ_NEXT elm n s")
    case (Inr s1)
    have "head_trace (set_tq_last head l s1) head \<noteq> None" for l
      using assms set_next_traces [OF Inr] by (simp add: same_traces_def)
    then show ?thesis
      using \<open>TAILQ_NEXT listelm s = Inr n\<close> Inr
      by (cases elm; cases listelm; cases "n = NULL")
        (simp_all add: TAILQ_INSERT_AFTER_debug_def TAILQ_INSERT_AFTER_def rbind_assoc QMD_TRACE_HEAD_put set_next_put
          set_prev_put)
  qed (simp add: TAILQ_INSERT_AFTER_debug_def TAILQ_INSERT_AFTER_def Inr)
qed (simp add: TAILQ_INSERT_AFTER_debug_def)

lemma TAILQ_REMOVE_debug_split:
  assumes "head_trace s head \<noteq> None"
  shows "TAILQ_REMOVE_debug p head elm s =
    rbind (QMD_SAVELINK elm) (\<lambda>oldnext. rbind (TAILQ_NEXT elm s) (\<lambda>n. rbind (TAILQ_REMOVE head elm s) (\<lambda>s1.
      rbind (rbind (TRASHIT oldnext (if n = NULL then put_head p head s1 else s1)) (TRASHIT_prev elm))
        (QMD_TRACE_ELEM p elm))))"
proof -
  have "head_trace (set_tq_last head l s) head \<noteq> None" for l using assms by simp
  then show ?thesis
    by (simp add: TAILQ_REMOVE_debug_def TAILQ_REMOVE_def rbind_assoc QMD_TRACE_HEAD_put store_put
        rbind_def [of "QMD_SAVELINK elm"] rbind_def [of "TAILQ_NEXT elm s"] rbind_def [of "get_prev elm s"] split: sum.splits)
qed

lemma TAILQ_INSERT_AFTER_traces: "TAILQ_INSERT_AFTER h l e s = Inr t \<Longrightarrow> same_traces s t"
  by (auto simp: TAILQ_INSERT_AFTER_def rbind_eq_Inr_iff split: if_splits dest!: cell_traces)
    (simp_all add: same_traces_def set_tq_last_def)

lemma TAILQ_REMOVE_traces: "TAILQ_REMOVE h e s = Inr t \<Longrightarrow> same_traces s t"
  by (auto simp: TAILQ_REMOVE_def rbind_eq_Inr_iff split: if_splits dest!: cell_traces)
    (simp_all add: same_traces_def set_tq_last_def)

subsection \<open>The contract of a queue\<close>

text \<open>A tail queue whose head and elements have traces.\<close>

definition traced_at :: "'z tq_traced_scheme \<Rightarrow> nat \<Rightarrow> nat list \<Rightarrow> bool" where
  "traced_at s h xs \<longleftrightarrow> tq_at s h xs \<and> head_trace s h \<noteq> None \<and> set xs \<subseteq> dom (elem_trace s)"

definition traced_live :: "'z tq_traced_scheme \<Rightarrow> nat set" where
  "traced_live s = dl_live s \<inter> dom (elem_trace s)"

text \<open>A head with its initializer is an empty traced queue.\<close>

lemma TAILQ_HEAD_INITIALIZER_list: "traced_at (TAILQ_HEAD_INITIALIZER p h s) h []"
  by (simp add: TAILQ_HEAD_INITIALIZER_def traced_at_def tq_at_def dl_at_def list_at_iff)

lemma TAILQ_INIT_debug_list:
  assumes "links s (First h) \<noteq> None" and "head_trace s h \<noteq> None"
  shows "\<exists>t. TAILQ_INIT_debug p h s = Inr t \<and> traced_at t h []"
proof -
  obtain s1 where s1: "TAILQ_INIT h s = Inr s1" "tq_at s1 h []" using TAILQ_INIT_list [OF assms(1)] by blast
  have "head_trace s1 h \<noteq> None" using assms(2) TAILQ_INIT_traces [OF s1(1)] by (simp add: same_traces_def)
  then show ?thesis using s1 by (auto simp: TAILQ_INIT_debug_def QMD_TRACE_HEAD_put traced_at_def)
qed

text \<open>What the traces of an insertion at an end are.\<close>

definition both_traced :: "place \<Rightarrow> nat \<Rightarrow> nat \<Rightarrow> 'z tq_traced_scheme \<Rightarrow> 'z tq_traced_scheme \<Rightarrow> bool" where
  "both_traced p h a s t \<longleftrightarrow>
     head_trace t = (head_trace s)(h := map_option (record_place p) (head_trace s h)) \<and>
     elem_trace t = (elem_trace s)(a := map_option (record_place p) (elem_trace s a)) \<and>
     dom (le_prev t) = dom (le_prev s)"

lemma trace_both:
  assumes "same_traces s s1" and "head_trace s h \<noteq> None" and "elem_trace s a \<noteq> None"
  shows "\<exists>t. rbind (QMD_TRACE_HEAD p h s1) (QMD_TRACE_ELEM p (Ptr a)) = Inr t \<and> t = put_elem p a (put_head p h s1) \<and>
    both_traced p h a s t"
  using assms by (auto simp: QMD_TRACE_HEAD_put QMD_TRACE_ELEM_put both_traced_def same_traces_def)

lemma both_traced_keeps:
  assumes "both_traced p h a s t" and "dl_live t = dl_live s" and "tq_at t h ys" and "set ys \<subseteq> dom (elem_trace s)"
    and "head_trace s h \<noteq> None" and "a \<in> traced_live s"
  shows "traced_at t h ys" and "traced_live t = traced_live s"
proof -
  have "dom (elem_trace t) = dom (elem_trace s)" using assms(1,6) by (auto simp: both_traced_def traced_live_def)
  then show "traced_at t h ys" and "traced_live t = traced_live s"
    using assms(1-5) by (auto simp: traced_at_def traced_live_def both_traced_def)
qed

lemma TAILQ_INSERT_TAIL_debug_list:
  assumes "traced_at s h xs" and "a \<in> traced_live s" and "a \<notin> set xs"
  shows "\<exists>t. TAILQ_INSERT_TAIL_debug p h (Ptr a) s = Inr t \<and> traced_at t h (xs @ [a]) \<and> traced_live t = traced_live s \<and>
    both_traced p h a s t"
proof -
  have s: "tq_at s h xs" "head_trace s h \<noteq> None" "set xs \<subseteq> dom (elem_trace s)" "a \<in> dl_live s" "elem_trace s a \<noteq> None"
    using assms by (auto simp: traced_at_def traced_live_def)
  obtain s1 where s1: "TAILQ_INSERT_TAIL h (Ptr a) s = Inr s1" "tq_at s1 h (xs @ [a])" "dl_live s1 = dl_live s"
    using TAILQ_INSERT_TAIL_list [OF s(1,4) assms(3)] by blast
  obtain t where t: "rbind (QMD_TRACE_HEAD p h s1) (QMD_TRACE_ELEM p (Ptr a)) = Inr t" "t = put_elem p a (put_head p h s1)"
    "both_traced p h a s t"
    using trace_both [OF TAILQ_INSERT_TAIL_traces [OF s1(1)] s(2,5)] by blast
  then show ?thesis
    using both_traced_keeps [OF t(3), of "xs @ [a]"] s s1 assms(2) by (auto simp: TAILQ_INSERT_TAIL_debug_def)
qed

lemma TAILQ_INSERT_HEAD_debug_list:
  assumes "traced_at s h xs" and "a \<in> traced_live s" and "a \<notin> set xs"
  shows "\<exists>t. TAILQ_INSERT_HEAD_debug p h (Ptr a) s = Inr t \<and> traced_at t h (a # xs) \<and> traced_live t = traced_live s \<and>
    both_traced p h a s t"
proof -
  have s: "tq_at s h xs" "head_trace s h \<noteq> None" "set xs \<subseteq> dom (elem_trace s)" "a \<in> dl_live s" "elem_trace s a \<noteq> None"
    using assms by (auto simp: traced_at_def traced_live_def)
  obtain s1 where s1: "TAILQ_INSERT_HEAD h (Ptr a) s = Inr s1" "tq_at s1 h (a # xs)" "dl_live s1 = dl_live s"
    using TAILQ_INSERT_HEAD_list [OF s(1,4) assms(3)] by blast
  obtain t where t: "rbind (QMD_TRACE_HEAD p h s1) (QMD_TRACE_ELEM p (Ptr a)) = Inr t" "t = put_elem p a (put_head p h s1)"
    "both_traced p h a s t"
    using trace_both [OF TAILQ_INSERT_HEAD_traces [OF s1(1)] s(2,5)] by blast
  then show ?thesis
    using both_traced_keeps [OF t(3), of "a # xs"] s s1 assms(2) by (auto simp: TAILQ_INSERT_HEAD_debug_def)
qed

text \<open>Insertion next to an element.\<close>

lemma trace_two:
  assumes "elem_trace s a \<noteq> None" and "elem_trace s b \<noteq> None"
  shows "rbind (QMD_TRACE_ELEM p (Ptr a) s) (QMD_TRACE_ELEM p (Ptr b)) = Inr (put_elem p b (put_elem p a s))"
  using assms by (auto simp: QMD_TRACE_ELEM_put)

lemma dom_put_elem [simp]: "dom (elem_trace (put_elem p a s)) = dom (elem_trace s)"
  by (auto simp: put_elem_def)

lemma TAILQ_INSERT_BEFORE_debug_list:
  assumes "traced_at s h (ys @ b # zs)" and "a \<in> traced_live s" and "a \<notin> set (ys @ b # zs)"
  shows "\<exists>t. TAILQ_INSERT_BEFORE_debug p (Ptr b) (Ptr a) s = Inr t \<and> traced_at t h (ys @ a # b # zs) \<and>
    traced_live t = traced_live s \<and> head_trace t = head_trace s"
proof -
  have s: "tq_at s h (ys @ b # zs)" "a \<in> dl_live s" "elem_trace s a \<noteq> None" "elem_trace s b \<noteq> None"
    using assms by (auto simp: traced_at_def traced_live_def)
  obtain s1 where s1: "TAILQ_INSERT_BEFORE (Ptr b) (Ptr a) s = Inr s1" "tq_at s1 h (ys @ a # b # zs)" "dl_live s1 = dl_live s"
    using TAILQ_INSERT_BEFORE_list [OF s(1,2) assms(3)] by blast
  have "same_traces s s1" by (rule TAILQ_INSERT_BEFORE_traces [OF s1(1)])
  then show ?thesis
    using s s1 assms trace_two [of s1 a b p]
    by (auto simp: TAILQ_INSERT_BEFORE_debug_def traced_at_def traced_live_def same_traces_def)
qed

lemma TAILQ_INSERT_AFTER_debug_list:
  assumes "traced_at s h (ys @ b # zs)" and "a \<in> traced_live s" and "a \<notin> set (ys @ b # zs)"
  shows "\<exists>t. TAILQ_INSERT_AFTER_debug p h (Ptr b) (Ptr a) s = Inr t \<and> traced_at t h (ys @ b # a # zs) \<and>
    traced_live t = traced_live s"
proof -
  have s: "tq_at s h (ys @ b # zs)" "a \<in> dl_live s" "elem_trace s a \<noteq> None" "elem_trace s b \<noteq> None" "head_trace s h \<noteq> None"
    using assms by (auto simp: traced_at_def traced_live_def)
  obtain s1 where s1: "TAILQ_INSERT_AFTER h (Ptr b) (Ptr a) s = Inr s1" "tq_at s1 h (ys @ b # a # zs)" "dl_live s1 = dl_live s"
    using TAILQ_INSERT_AFTER_list [OF s(1,2) assms(3)] by blast
  obtain n where n: "TAILQ_NEXT (Ptr b) s = Inr n"
    using dl_cells(3) [of s h ys b zs] s(1) by (auto simp: tq_at_def TAILQ_NEXT_def)
  have "same_traces s s1" by (rule TAILQ_INSERT_AFTER_traces [OF s1(1)])
  moreover define s2 where "s2 = (if n = NULL then put_head p h s1 else s1)"
  ultimately have s2: "tq_at s2 h (ys @ b # a # zs)" "dl_live s2 = dl_live s" "elem_trace s2 = elem_trace s" "head_trace s2 h \<noteq> None"
    using s1 s(5) by (auto simp: same_traces_def)
  have "TAILQ_INSERT_AFTER_debug p h (Ptr b) (Ptr a) s = rbind (QMD_TRACE_ELEM p (Ptr a) s2) (QMD_TRACE_ELEM p (Ptr b))"
    using TAILQ_INSERT_AFTER_debug_split [OF s(5), of p "Ptr b" "Ptr a"] n s1(1) by (simp add: s2_def)
  then show ?thesis
    using s s2 assms trace_two [of s2 a b p]
    by (auto simp: traced_at_def traced_live_def)
qed

text \<open>Removal: the head is traced only when the element was the last.\<close>

lemma TAILQ_REMOVE_debug_list:
  assumes "traced_at s h (ys @ a # zs)"
  shows "\<exists>t. TAILQ_REMOVE_debug p h (Ptr a) s = Inr t \<and> traced_at t h (ys @ zs) \<and> traced_live t = traced_live s \<and>
    links t (Next a) = Some (Ptr trash) \<and> le_prev t a = Some (Next trash) \<and> dom (le_prev t) = dom (le_prev s) \<and>
    head_trace t = (if zs = [] then (head_trace s)(h := map_option (record_place p) (head_trace s h)) else head_trace s)"
proof -
  have s: "tq_at s h (ys @ a # zs)" "dl_at s h (ys @ a # zs)" "head_trace s h \<noteq> None" "elem_trace s a \<noteq> None"
    using assms by (auto simp: traced_at_def tq_at_def)
  obtain s1 where s1: "TAILQ_REMOVE h (Ptr a) s = Inr s1" "tq_at s1 h (ys @ zs)" "dl_live s1 = dl_live s"
    using TAILQ_REMOVE_list [OF s(1)] by blast
  obtain n where n: "TAILQ_NEXT (Ptr a) s = Inr n" "n = NULL \<longleftrightarrow> zs = []"
    using dl_cells(3) [OF s(2)] by (cases zs) (auto simp: TAILQ_NEXT_def)
  define s2 where "s2 = (if n = NULL then put_head p h s1 else s1)"
  have tr: "same_traces s s1" by (rule TAILQ_REMOVE_traces [OF s1(1)])
  have s2: "tq_at s2 h (ys @ zs)" "dl_live s2 = dl_live s" "elem_trace s2 = elem_trace s" "dom (le_prev s2) = dom (le_prev s)"
    "head_trace s2 = (if zs = [] then (head_trace s)(h := map_option (record_place p) (head_trace s h)) else head_trace s)"
    using s1 tr n(2) by (auto simp: s2_def same_traces_def)
  have a: "a \<notin> set (ys @ zs)" "a \<in> dl_live s2"
    using dl_at_distinct [OF s(2)] dl_at_live [OF s(2)] s2(2) by auto
  obtain t where t: "rbind (TRASHIT (Next a) s2) (TRASHIT_prev (Ptr a)) = Inr t"
    "t = s2\<lparr>links := (links s2)(Next a \<mapsto> Ptr trash), le_prev := (le_prev s2)(a \<mapsto> Next trash)\<rparr>"
    "dl_at t h (ys @ zs)" "dl_live t = dl_live s2"
    using dl_at_trash [OF _ a] s2(1) by (auto simp: tq_at_def)
  have d: "dom (le_prev t) = dom (le_prev s)" using t(2) s2(4) a(2) by (auto simp: dl_live_def)
  have at: "tq_at t h (ys @ zs)" using t(2,3) s2(1) by (simp add: tq_at_def)
  have "elem_trace t a \<noteq> None" using t(2) s2(3) s(4) by simp
  then have "TAILQ_REMOVE_debug p h (Ptr a) s = Inr (put_elem p a t)"
    using TAILQ_REMOVE_debug_split [OF s(3), of p "Ptr a"] n s1(1) t(1)
    by (simp add: QMD_SAVELINK_def s2_def QMD_TRACE_ELEM_put)
  moreover have "traced_at (put_elem p a t) h (ys @ zs)"
    using at t(2) s2(3,5) assms by (auto simp: traced_at_def)
  moreover have "traced_live (put_elem p a t) = traced_live s"
    using t(2,4) s2(2,3) by (simp add: traced_live_def del: put_fields)
  ultimately show ?thesis using t(2) s2(5) d by auto
qed

lemma traced_split:
  assumes "traced_at s h xs" and "a \<in> set xs"
  obtains ys zs where "xs = ys @ a # zs" and "remove1 a xs = ys @ zs" and "traced_at s h (ys @ a # zs)"
proof -
  obtain ys zs where xs: "xs = ys @ a # zs" "a \<notin> set ys" using assms(2) by (auto dest: split_list_first)
  then show thesis using that assms(1) by (simp add: remove1_append)
qed

interpretation tailq_debug: fifo_ops "\<lambda>s. traced_at s h" traced_live "\<lambda>a. TAILQ_INSERT_HEAD_debug p h (Ptr a)"
  "\<lambda>a s. Some (TAILQ_REMOVE_debug p h (Ptr a) s)" "\<lambda>a. TAILQ_INSERT_TAIL_debug p h (Ptr a)" "TAILQ_FIRST h"
  "\<lambda>s. rbind (TAILQ_FIRST h s) (\<lambda>e. TAILQ_REMOVE_debug p h e s)" for p h
proof unfold_locales
  fix s :: "'z tq_traced_scheme" and xs a
  show "distinct xs" if "traced_at s h xs" using that tailq.repr_distinct by (auto simp: traced_at_def)
  show "set xs \<subseteq> traced_live s" if "traced_at s h xs"
    using that tailq.repr_live by (auto simp: traced_at_def traced_live_def)
  show "\<exists>s'. TAILQ_INSERT_HEAD_debug p h (Ptr a) s = Inr s' \<and> traced_at s' h (a # xs) \<and> traced_live s' = traced_live s"
    if "traced_at s h xs" "a \<in> traced_live s" "a \<notin> set xs"
    using TAILQ_INSERT_HEAD_debug_list [OF that] by blast
  show "\<exists>s'. TAILQ_INSERT_TAIL_debug p h (Ptr a) s = Inr s' \<and> traced_at s' h (xs @ [a]) \<and> traced_live s' = traced_live s"
    if "traced_at s h xs" "a \<in> traced_live s" "a \<notin> set xs"
    using TAILQ_INSERT_TAIL_debug_list [OF that] by blast
  show "\<exists>s'. Some (TAILQ_REMOVE_debug p h (Ptr a) s) = Some (Inr s') \<and> traced_at s' h (remove1 a xs) \<and>
      traced_live s' = traced_live s"
    if "traced_at s h xs" "a \<in> set xs"
    using traced_split [OF that] TAILQ_REMOVE_debug_list by metis
  show first: "TAILQ_FIRST h s = Inr (Ptr a)" if "traced_at s h (a # xs)"
    using that tailq.first_law by (auto simp: traced_at_def)
  show "\<exists>s'. rbind (TAILQ_FIRST h s) (\<lambda>e. TAILQ_REMOVE_debug p h e s) = Inr s' \<and> traced_at s' h xs \<and>
      traced_live s' = traced_live s"
    if "traced_at s h (a # xs)"
    using TAILQ_REMOVE_debug_list [of s h "[]" a xs p] first [OF that] that by auto
qed

text \<open>A removed element cannot be removed again.\<close>

lemma TAILQ_REMOVE_debug_twice:
  assumes "traced_at s h xs" and "a \<in> set xs" and "le_prev s trash = None"
  shows "\<exists>t. TAILQ_REMOVE_debug p h (Ptr a) s = Inr t \<and> TAILQ_NEXT (Ptr a) t = Inr (Ptr trash) \<and>
    TAILQ_REMOVE_debug q h (Ptr a) t = Inl Wild_Pointer"
proof -
  obtain ys zs where at: "traced_at s h (ys @ a # zs)" using traced_split [OF assms(1,2)] by blast
  obtain t where t: "TAILQ_REMOVE_debug p h (Ptr a) s = Inr t" "links t (Next a) = Some (Ptr trash)"
    "le_prev t a = Some (Next trash)" "dom (le_prev t) = dom (le_prev s)"
    using TAILQ_REMOVE_debug_list [OF at] by blast
  have "le_prev t trash = None" using t(4) assms(3) by blast
  then have "TAILQ_REMOVE_debug q h (Ptr a) t = Inl Wild_Pointer"
    using t(2,3) by (simp add: TAILQ_REMOVE_debug_def QMD_SAVELINK_def TAILQ_NEXT_def get_prev_def set_prev_def)
  then show ?thesis using t by (auto simp: TAILQ_NEXT_def)
qed

lemma traced_puts_keep:
  assumes "traced_at s h xs" and "set as \<subseteq> traced_live s" and "distinct as" and "set as \<inter> set xs = {}"
    and "insert_all (\<lambda>a. TAILQ_INSERT_TAIL_debug p h (Ptr a)) as s = Inr t"
  shows "dom (le_prev t) = dom (le_prev s)"
  using assms
proof (induction as arbitrary: s xs)
  case (Cons a as)
  obtain s1 where s1: "TAILQ_INSERT_TAIL_debug p h (Ptr a) s = Inr s1" "traced_at s1 h (xs @ [a])"
    "traced_live s1 = traced_live s" "both_traced p h a s s1"
    using TAILQ_INSERT_TAIL_debug_list [of s h xs a p] Cons.prems by auto
  then have "dom (le_prev t) = dom (le_prev s1)" using Cons.IH [OF s1(2)] Cons.prems by auto
  then show ?case using s1(4) by (simp add: both_traced_def)
qed simp

lemma TAILQ_CONCAT_debug_list:
  assumes "traced_at s h xs" and "traced_at s g ys" and "h \<noteq> g" and "set xs \<inter> set ys = {}" and "ys \<noteq> []"
  shows "\<exists>t. TAILQ_CONCAT_debug p h g s = Inr t \<and> traced_at t h (xs @ ys) \<and> traced_at t g [] \<and>
    head_trace t g = map_option (\<lambda>tr. record_place p (record_place p tr)) (head_trace s g)"
proof -
  have s: "tq_at s h xs" "tq_at s g ys" "head_trace s h \<noteq> None" "head_trace s g \<noteq> None" "set (xs @ ys) \<subseteq> dom (elem_trace s)"
    using assms(1,2) by (auto simp: traced_at_def)
  obtain s1 where s1: "TAILQ_CONCAT h g s = Inr s1" "tq_at s1 h (xs @ ys)" "tq_at s1 g []"
    using TAILQ_CONCAT_list [OF s(1,2) assms(3,4)] by blast
  have tr: "same_traces s s1" by (rule TAILQ_CONCAT_traces [OF s1(1)])
  have "TAILQ_EMPTY g s = Inr False"
    using dl_first [of s g ys] s(2) assms(5) by (cases ys) (auto simp: tq_at_def TAILQ_EMPTY_def TAILQ_FIRST_def)
  then have "TAILQ_CONCAT_debug p h g s = Inr (put_head p g (put_head p h (put_head p g s1)))"
    using s1(1) s(3,4) tr assms(3) by (auto simp: TAILQ_CONCAT_debug_def QMD_TRACE_HEAD_put same_traces_def)
  then show ?thesis
    using s s1 tr assms(3) by (auto simp: traced_at_def same_traces_def option.map_comp comp_def)
qed

section \<open>Properties\<close>

text \<open>An instance: an empty traced queue and four elements.\<close>

definition trace_sample :: tq_traced where
  "trace_sample = \<lparr>links = links tq_sample, le_prev = le_prev tq_sample, tqh_last = tqh_last tq_sample,
     head_trace = [0 \<mapsto> TRACEBUF_INITIALIZER (1, ''a.c''), 1 \<mapsto> TRACEBUF_INITIALIZER (2, ''a.c'')],
     elem_trace = (\<lambda>a. if a < 4 then Some (TRACEBUF_INITIALIZER (0, [])) else None)\<rparr>"

lemma trace_sample_lists:
  "traced_at trace_sample 0 []" "traced_at trace_sample 1 []" "traced_live trace_sample = {a. a < 4}"
  "le_prev trace_sample trash = None"
  using tq_sample_lists
  by (auto simp: traced_at_def traced_live_def trace_sample_def tq_at_def dl_at_def dl_live_def trash_def tq_sample_def
      split: if_splits)



definition trace_linked :: tq_traced where
  "trace_linked = trace_sample\<lparr>
     links := (links tq_sample)(First 0 \<mapsto> Ptr 0, Next 0 \<mapsto> Ptr 1, Next 1 \<mapsto> NULL),
     le_prev := (le_prev tq_sample)(0 \<mapsto> First 0, 1 \<mapsto> Next 0), tqh_last := [0 \<mapsto> Next 1, 1 \<mapsto> First 1]\<rparr>"

lemma trace_linked_lists:
  "traced_at trace_linked 0 [0, 1]" "traced_at trace_linked 1 []" "traced_live trace_linked = {a. a < 4}"
  by (auto simp: trace_linked_def traced_at_def traced_live_def trace_sample_def tq_at_def dl_at_def dl_live_def
      tq_sample_def sample_store_def list_at_iff split: if_splits)



text \<open>An instance for the lists with a single link.\<close>

definition trash_stq :: stq_store where
  "trash_stq = \<lparr>links = links trace_linked, stqh_last = [0 \<mapsto> Next 1]\<rparr>"

lemma trash_stq_lists:
  "list_at trash_stq 0 [0, 1]" "stq_at trash_stq 0 [0, 1]" "dl_at trace_linked 0 [0, 1]"
  "links trash_stq (Next trash) = None" "links trace_linked (Next trash) = None"
  using trace_linked_lists(1)
  by (auto simp: trash_stq_def stq_at_def traced_at_def tq_at_def dl_at_def trace_linked_def tq_sample_def sample_store_def
      trash_def)

text \<open>
  A removed element is trashed. With \<^verbatim>\<open>QUEUE_MACRO_DEBUG\<close> the removals from the three other kinds of
  list keep the remaining elements in order, and the links of the removed element lead nowhere: a
  walk that goes on from it faults, and so does a second removal.
\<close>

theorem removed_links_trashed:
  assumes "list_at s h xs" and "stq_at t h xs" and "dl_at u h xs" and "a \<in> set xs"
    and "links s (Next trash) = None" and "links t (Next trash) = None" and "links u (Next trash) = None"
  shows "(\<exists>s'. SLIST_REMOVE_debug h (Ptr a) s = Some (Inr s') \<and> list_at s' h (remove1 a xs) \<and>
      rbind (SLIST_NEXT (Ptr a) s') (\<lambda>n. SLIST_NEXT n s') = Inl Wild_Pointer) \<and>
    (\<exists>t'. STAILQ_REMOVE_debug h (Ptr a) t = Some (Inr t') \<and> stq_at t' h (remove1 a xs) \<and>
      rbind (STAILQ_NEXT (Ptr a) t') (\<lambda>n. STAILQ_NEXT n t') = Inl Wild_Pointer) \<and>
    (\<exists>u'. LIST_REMOVE_debug (Ptr a) u = Inr u' \<and> dl_at u' h (remove1 a xs) \<and>
      LIST_REMOVE_debug (Ptr a) u' = Inl Wild_Pointer)"
proof (intro conjI)
  obtain s' where s': "SLIST_REMOVE_debug h (Ptr a) s = Some (Inr s')" "list_at s' h (remove1 a xs)"
    "dom (links s') = dom (links s)" "links s' (Next a) = Some (Ptr trash)"
    using SLIST_REMOVE_debug_list [OF assms(1,4)] by blast
  then have "links s' (Next trash) = None" using assms(5) by blast
  then show "\<exists>s'. SLIST_REMOVE_debug h (Ptr a) s = Some (Inr s') \<and> list_at s' h (remove1 a xs) \<and>
      rbind (SLIST_NEXT (Ptr a) s') (\<lambda>n. SLIST_NEXT n s') = Inl Wild_Pointer"
    using s' by (intro exI [of _ s']) (simp add: SLIST_NEXT_def load_def)
  obtain t' where t': "STAILQ_REMOVE_debug h (Ptr a) t = Some (Inr t')" "stq_at t' h (remove1 a xs)"
    "dom (links t') = dom (links t)" "links t' (Next a) = Some (Ptr trash)"
    using STAILQ_REMOVE_debug_list [OF assms(2,4)] by blast
  then have "links t' (Next trash) = None" using assms(6) by blast
  then show "\<exists>t'. STAILQ_REMOVE_debug h (Ptr a) t = Some (Inr t') \<and> stq_at t' h (remove1 a xs) \<and>
      rbind (STAILQ_NEXT (Ptr a) t') (\<lambda>n. STAILQ_NEXT n t') = Inl Wild_Pointer"
    using t' by (intro exI [of _ t']) (simp add: STAILQ_NEXT_def load_def)
  show "\<exists>u'. LIST_REMOVE_debug (Ptr a) u = Inr u' \<and> dl_at u' h (remove1 a xs) \<and>
      LIST_REMOVE_debug (Ptr a) u' = Inl Wild_Pointer"
    using LIST_REMOVE_debug_twice [OF assms(3,4,7)] by blast
qed

theorem removed_links_trashed_witness:
  "\<exists>s'. SLIST_REMOVE_debug 0 (Ptr 0) trash_stq = Some (Inr s') \<and> list_at s' 0 [1] \<and>
     rbind (SLIST_NEXT (Ptr 0) s') (\<lambda>n. SLIST_NEXT n s') = Inl Wild_Pointer"
  using removed_links_trashed [of trash_stq 0 "[0, 1]" trash_stq trace_linked 0] trash_stq_lists by auto

end
