(* ===== verification/C_Library.thy ===== *)
theory C_Library
  imports AESD_Prelude
begin

text \<open>
  What the user-space programs use of the C library: \<^verbatim>\<open>malloc\<close>, \<^verbatim>\<open>realloc\<close> and \<^verbatim>\<open>free\<close> on the block
  memory, the string functions on its cells, the conversion \<^verbatim>\<open>%d\<close> of \<^verbatim>\<open>sscanf\<close>, 32-bit signed
  additions, and the end of a process by \<^verbatim>\<open>exit\<close>. The address an allocation returns is an
  argument.
\<close>

section \<open>Processes and integers\<close>

text \<open>A function returns a value, or the process ends with an exit status.\<close>

datatype 'a proc = Exits int | Returns 'a

definition int_add :: "int \<Rightarrow> int \<Rightarrow> int res" where
  "int_add a b = (if - (2 ^ 31) \<le> a + b \<and> a + b < 2 ^ 31 then Inr (a + b) else Inl Signed_Overflow)"

section \<open>Allocation\<close>

definition malloc :: "nat option \<Rightarrow> heap \<Rightarrow> nat \<Rightarrow> ptr \<times> heap" where
  "malloc ans h n = (case ans of None \<Rightarrow> (NULL, h) | Some a \<Rightarrow> (Ptr a, h(a \<mapsto> replicate n None)))"

definition free_ptr :: "heap \<Rightarrow> ptr \<Rightarrow> heap res" where
  "free_ptr h p =
     (case p of NULL \<Rightarrow> Inr h | Ptr a \<Rightarrow> if h a = None then Inl Bad_Free else Inr (h(a := None)))"

definition realloc :: "nat option \<Rightarrow> heap \<Rightarrow> ptr \<Rightarrow> nat \<Rightarrow> (ptr \<times> heap) res" where
  "realloc ans h p n =
     (if p = NULL then Inr (malloc ans h n)
      else rbind (mem_block h p) (\<lambda>b.
        case ans of None \<Rightarrow> Inr (NULL, h)
        | Some a \<Rightarrow> rbind (free_ptr h p) (\<lambda>h'.
            Inr (Ptr a, h'(a \<mapsto> take n b @ replicate (n - length b) None)))))"

section \<open>Strings\<close>

definition strlen_block :: "block \<Rightarrow> nat res" where
  "strlen_block b = rbind (cell_scan NUL (length b) b)
     (\<lambda>r. case r of None \<Rightarrow> Inl Out_Of_Bounds | Some n \<Rightarrow> Inr n)"

text \<open>The bytes of the string a pointer points to, without the terminating zero.\<close>

definition c_string :: "heap \<Rightarrow> ptr \<Rightarrow> byte list res" where
  "c_string h p = rbind (mem_block h p) (\<lambda>b. rbind (strlen_block b) (\<lambda>n. mem_read h p 0 n))"

text \<open>
  The bytes \<^verbatim>\<open>strncat\<close> reads of its source array: up to \<open>n\<close> of them, up to a zero; reading on
  past the end of the array is an access out of bounds.
\<close>

fun strn_src :: "nat \<Rightarrow> byte list \<Rightarrow> byte list res" where
  "strn_src 0 src = Inr []"
| "strn_src (Suc n) [] = Inl Out_Of_Bounds"
| "strn_src (Suc n) (c # src) =
     (if c = NUL then Inr [] else rbind (strn_src n src) (\<lambda>cs. Inr (c # cs)))"

definition strncat :: "heap \<Rightarrow> ptr \<Rightarrow> byte list \<Rightarrow> nat \<Rightarrow> heap res" where
  "strncat h p src n =
     rbind (mem_block h p) (\<lambda>b. rbind (strlen_block b) (\<lambda>k.
       rbind (strn_src n src) (\<lambda>cs. mem_write h p k (cs @ [NUL]))))"

text \<open>\<^verbatim>\<open>strncmp(s, t, n) == 0\<close> on the contents of two strings.\<close>

definition strncmp_eq :: "nat \<Rightarrow> byte list \<Rightarrow> byte list \<Rightarrow> bool" where
  "strncmp_eq n s t \<longleftrightarrow> take n s = take n t"

section \<open>Reading decimal integers\<close>

definition is_digit :: "byte \<Rightarrow> bool" where
  "is_digit c \<longleftrightarrow> 48 \<le> (of_char c :: nat) \<and> (of_char c :: nat) \<le> 57"

definition is_space :: "byte \<Rightarrow> bool" where
  "is_space c \<longleftrightarrow> c = CHR '' '' \<or> 9 \<le> (of_char c :: nat) \<and> (of_char c :: nat) \<le> 13"

definition digits_value :: "byte list \<Rightarrow> int" where
  "digits_value ds = foldl (\<lambda>n c. 10 * n + (int (of_char c) - 48)) 0 ds"

text \<open>
  The conversion \<^verbatim>\<open>%d\<close>: white space, an optional sign, digits. \<^term>\<open>None\<close> is a matching
  failure; otherwise the value and the rest of the input.
\<close>

definition scan_sign :: "byte list \<Rightarrow> int \<times> byte list" where
  "scan_sign s = (case s of c # r \<Rightarrow> if c = CHR ''-'' then (-1, r) else if c = CHR ''+'' then (1, r) else (1, s)
     | [] \<Rightarrow> (1, s))"

definition scan_d :: "byte list \<Rightarrow> (int \<times> byte list) option" where
  "scan_d s =
     (let (sg, r) = scan_sign (dropWhile is_space s); ds = takeWhile is_digit r
      in if ds = [] then None else Some (sg * digits_value ds, dropWhile is_digit r))"

section \<open>Facts\<close>

lemma int_add_in [simp]: "- (2 ^ 31) \<le> a + b \<Longrightarrow> a + b < 2 ^ 31 \<Longrightarrow> int_add a b = Inr (a + b)"
  by (simp add: int_add_def)

lemma cell_scan_found:
  "c \<notin> set bs \<Longrightarrow> length bs < n \<Longrightarrow> cell_scan c n (map Some bs @ Some c # rest) = Inr (Some (length bs))"
proof (induction bs arbitrary: n)
  case Nil
  then show ?case by (cases n) auto
next
  case (Cons b bs)
  then show ?case by (cases n) auto
qed

lemma strlen_block_string:
  "NUL \<notin> set bs \<Longrightarrow> strlen_block (map Some bs @ Some NUL # rest) = Inr (length bs)"
  by (simp add: strlen_block_def cell_scan_found)

lemma c_string_block:
  assumes "h a = Some (map Some bs @ Some NUL # rest)" and "NUL \<notin> set bs"
  shows "c_string h (Ptr a) = Inr bs"
proof -
  have "holds_bytes h (Ptr a) bs" using assms(1) by (auto simp: holds_bytes_Ptr)
  then have "mem_read h (Ptr a) 0 (length bs) = Inr bs" using mem_read_holds [of h "Ptr a" bs 0 "length bs"] by simp
  then show ?thesis using assms by (simp add: c_string_def strlen_block_string)
qed

lemma strn_src_string:
  "length bs \<le> n \<Longrightarrow> strn_src (Suc n) (bs @ NUL # rest) = Inr (takeWhile (\<lambda>c. c \<noteq> NUL) bs)"
proof (induction bs arbitrary: n)
  case Nil
  then show ?case by simp
next
  case (Cons b bs)
  then obtain m where "n = Suc m" by (cases n) auto
  with Cons show ?case by simp
qed

lemma strn_src_overread: "NUL \<notin> set bs \<Longrightarrow> length bs < n \<Longrightarrow> strn_src n bs = Inl Out_Of_Bounds"
proof (induction bs arbitrary: n)
  case Nil
  then show ?case by (cases n) auto
next
  case (Cons b bs)
  then show ?case by (cases n) auto
qed

lemma strn_src_cut: "NUL \<notin> set bs \<Longrightarrow> strn_src (length bs) (bs @ rest) = Inr bs"
  by (induction bs) auto

lemma strncat_block:
  assumes "h a = Some (map Some s @ Some NUL # rest)" and "NUL \<notin> set s"
    and "strn_src n src = Inr cs"
  shows "strncat h (Ptr a) src n =
    (if length cs \<le> length rest
     then Inr (h(a \<mapsto> map Some (s @ cs) @ Some NUL # drop (length cs) rest)) else Inl Out_Of_Bounds)"
  using assms by (simp add: strncat_def strlen_block_string mem_write_def)

lemma realloc_block:
  assumes "h a = Some b"
  shows "realloc (Some a') h (Ptr a) n =
    Inr (Ptr a', (h(a := None))(a' \<mapsto> take n b @ replicate (n - length b) None))"
  using assms by (simp add: realloc_def free_ptr_def)

text \<open>The conversion inverts the decimal notation of a number.\<close>

fun dec :: "nat \<Rightarrow> byte list" where
  "dec n = (if n < 10 then [] else dec (n div 10)) @ [char_of (48 + n mod 10)]"

declare dec.simps [simp del]

lemma digit_char: "n < 10 \<Longrightarrow> is_digit (char_of (48 + n)) \<and> of_char (char_of (48 + n) :: byte) = (48 + n :: nat)"
  by (simp add: is_digit_def)

lemma digits_value_snoc: "digits_value (ds @ [c]) = 10 * digits_value ds + (int (of_char c) - 48)"
  by (simp add: digits_value_def)

lemma dec_digits: "list_all is_digit (dec n)"
proof (induction n rule: dec.induct)
  case (1 n)
  then show ?case
    using digit_char [of "n mod 10"] by (subst dec.simps) auto
qed

lemma dec_value: "digits_value (dec n) = int n"
proof (induction n rule: dec.induct)
  case (1 n)
  have c: "of_char (char_of (48 + n mod 10) :: byte) = (48 + n mod 10 :: nat)"
    using digit_char [of "n mod 10"] by simp
  have m: "int n = 10 * int (n div 10) + int (n mod 10)"
    using arg_cong [OF mult_div_mod_eq [of 10 n], of int] by (simp only: of_nat_add of_nat_mult of_nat_numeral)
  show ?case
  proof (cases "n < 10")
    case True
    then show ?thesis using c by (subst dec.simps) (simp add: digits_value_def)
  next
    case False
    then show ?thesis using 1 c m by (subst dec.simps) (simp add: digits_value_snoc)
  qed
qed

lemma dec_nonempty [simp]: "dec n \<noteq> []"
  by (subst dec.simps) simp

lemma digit_not_special: "is_digit c \<Longrightarrow> \<not> is_space c \<and> c \<noteq> CHR ''-'' \<and> c \<noteq> CHR ''+''"
  by (auto simp: is_digit_def is_space_def)

lemma scan_d_dec:
  assumes "\<not> is_digit c"
  shows "scan_d (dec n @ c # rest) = Some (int n, c # rest)"
proof -
  obtain d ds where d: "dec n = d # ds" by (cases "dec n") auto
  then have dig: "is_digit d" "list_all is_digit ds" using dec_digits [of n] by auto
  then have s: "scan_sign (dropWhile is_space (dec n @ c # rest)) = (1, dec n @ c # rest)"
    using digit_not_special [of d] d by (simp add: scan_sign_def)
  have t: "takeWhile is_digit (dec n @ c # rest) = dec n" "dropWhile is_digit (dec n @ c # rest) = c # rest"
    using dec_digits [of n] assms by (auto simp: list_all_iff takeWhile_append2 dropWhile_append2)
  show ?thesis
    unfolding scan_d_def s by (simp add: t dec_value)
qed

end
