(* ===== verification/Socket_Receive.thy ===== *)
theory Socket_Receive
  imports C_Library
begin

text \<open>
  The receive loop of \<^verbatim>\<open>threadHandler\<close> in \<^verbatim>\<open>server/aesdsocket.c\<close>: chunks of at most 100 bytes are
  received into a local array, searched for a newline and appended to a growing buffer. What
  \<^verbatim>\<open>recv\<close> and the allocator answer in each round is an argument. The loop is shown to deliver
  the packet for chunks of less than 100 bytes, and to leave its arrays for some others.
\<close>

section \<open>The loop\<close>

abbreviation BUFFER_SIZE :: nat where "BUFFER_SIZE \<equiv> 100"

datatype recv_answer = Recv_Error | Recv "byte list"

text \<open>
  The variables of the loop. \<^verbatim>\<open>data_count\<close> is a global counter, \<^verbatim>\<open>j\<close> and it are of type \<^verbatim>\<open>int\<close>.
\<close>

record rx_state =
  rx_heap :: heap
  outputBuffer :: ptr
  rx_buffer :: "byte list"
  rx_j :: int
  data_count :: int

function scan_loop :: "byte list \<Rightarrow> nat \<Rightarrow> (nat \<times> bool) res" where
  "scan_loop buffer i =
     (if i < BUFFER_SIZE
      then rbind (array_get buffer i) (\<lambda>c.
        if c = NEWLINE then Inr (i + 1, True) else scan_loop buffer (i + 1))
      else Inr (i, False))"
  by pat_completeness auto
termination
  by (relation "measure (\<lambda>(buffer, i). BUFFER_SIZE - i)") auto

declare scan_loop.simps [simp del]

text \<open>
  One round with the bytes \<open>bs\<close> received, \<open>al\<close> the address the reallocation returns; the
  result is \<^verbatim>\<open>packetComplete\<close> and the new variables.
\<close>

definition rx_round :: "rx_state \<Rightarrow> byte list \<Rightarrow> nat option \<Rightarrow> (bool \<times> rx_state) res" where
  "rx_round st bs al =
     (let buffer = bs @ drop (length bs) (rx_buffer st)
      in rbind (scan_loop buffer 0) (\<lambda>(i, packetComplete).
        rbind (int_add (rx_j st) (int i)) (\<lambda>j.
          rbind (int_add (data_count st) (int i)) (\<lambda>dc.
            rbind (int_add j 1) (\<lambda>j1.
              rbind (realloc al (rx_heap st) (outputBuffer st) (nat j1)) (\<lambda>(p, h).
                rbind (strncat h p buffer (i + 1)) (\<lambda>h'.
                  Inr (packetComplete,
                    \<lparr>rx_heap = h', outputBuffer = p, rx_buffer = replicate BUFFER_SIZE NUL,
                     rx_j = j, data_count = dc\<rparr>))))))))"

text \<open>
  The rounds, with the answers of \<^verbatim>\<open>recv\<close> and \<^verbatim>\<open>realloc\<close> in order; without a further answer
  \<^verbatim>\<open>recv\<close> waits.
\<close>

fun rx_loop :: "rx_state \<Rightarrow> (recv_answer \<times> nat option) list \<Rightarrow> rx_state proc res" where
  "rx_loop st [] = Inl Blocks"
| "rx_loop st ((Recv_Error, al) # as) = Inr (Exits 1)"
| "rx_loop st ((Recv bs, al) # as) =
     (if bs = [] then Inr (Returns st)
      else rbind (rx_round st bs al) (\<lambda>(packetComplete, st').
        if packetComplete then Inr (Returns st') else rx_loop st' as))"

text \<open>The initial allocation and the loop: \<open>al\<close> is the address \<^verbatim>\<open>malloc\<close> returns.\<close>

definition rx_packet ::
  "heap \<Rightarrow> int \<Rightarrow> nat option \<Rightarrow> (recv_answer \<times> nat option) list \<Rightarrow> rx_state proc res" where
  "rx_packet h dc al as =
     (let (p, h1) = malloc al h BUFFER_SIZE
      in rbind (mem_write h1 p 0 (replicate BUFFER_SIZE NUL)) (\<lambda>h2.
        rx_loop \<lparr>rx_heap = h2, outputBuffer = p, rx_buffer = replicate BUFFER_SIZE NUL,
                 rx_j = 0, data_count = dc\<rparr> as))"

section \<open>The newline search\<close>

lemma scan_loop_found:
  assumes "n < BUFFER_SIZE" and "n < length bs" and "bs ! n = NEWLINE"
    and "\<forall>m. i \<le> m \<and> m < n \<longrightarrow> bs ! m \<noteq> NEWLINE" and "i \<le> n"
  shows "scan_loop bs i = Inr (n + 1, True)"
  using assms(4,5)
proof (induction "n - i" arbitrary: i)
  case 0
  then have "i = n" by simp
  then show ?case using assms by (subst scan_loop.simps) simp
next
  case (Suc m)
  then have "i < n" "bs ! i \<noteq> NEWLINE" by auto
  then show ?case using Suc assms(1,2) by (subst scan_loop.simps) simp
qed

lemma scan_loop_none:
  assumes "length bs = BUFFER_SIZE" and "\<forall>m. i \<le> m \<and> m < BUFFER_SIZE \<longrightarrow> bs ! m \<noteq> NEWLINE" and "i \<le> BUFFER_SIZE"
  shows "scan_loop bs i = Inr (BUFFER_SIZE, False)"
  using assms(2,3)
proof (induction "BUFFER_SIZE - i" arbitrary: i)
  case 0
  then show ?case by (subst scan_loop.simps) simp
next
  case (Suc m)
  then have "i < BUFFER_SIZE" "bs ! i \<noteq> NEWLINE" by auto
  then show ?case using Suc assms(1) by (subst scan_loop.simps) simp
qed

lemma scan_loop_newline:
  assumes "NEWLINE \<notin> set xs" and "length xs < BUFFER_SIZE"
  shows "scan_loop (xs @ NEWLINE # ys) 0 = Inr (length xs + 1, True)"
  using assms by (intro scan_loop_found) (auto simp: nth_append dest: nth_mem)

lemma scan_loop_no_newline:
  assumes "NEWLINE \<notin> set xs" and "length xs = BUFFER_SIZE"
  shows "scan_loop xs 0 = Inr (BUFFER_SIZE, False)"
  using assms by (intro scan_loop_none) (auto simp: in_set_conv_nth)

section \<open>Rounds that stay inside their arrays\<close>

abbreviation c_prefix :: "byte list \<Rightarrow> byte list" where
  "c_prefix bs \<equiv> takeWhile (\<lambda>c. c \<noteq> NUL) bs"

text \<open>
  Between rounds the output buffer is the only block allocated on top of \<open>h0\<close> and holds the
  string \<open>acc\<close>; \<open>j\<close> bounds its length.
\<close>

definition rx_holds :: "heap \<Rightarrow> byte list \<Rightarrow> rx_state \<Rightarrow> bool" where
  "rx_holds h0 acc st \<longleftrightarrow>
     (\<exists>a rest. outputBuffer st = Ptr a \<and> h0 a = None \<and>
        rx_heap st = h0(a \<mapsto> map Some acc @ Some NUL # rest)) \<and>
     NUL \<notin> set acc \<and> rx_buffer st = replicate BUFFER_SIZE NUL \<and> int (length acc) \<le> rx_j st"

lemma c_prefix_no_NUL [simp]: "NUL \<notin> set (c_prefix bs)"
  by (auto dest: set_takeWhileD)

lemma rx_round_append:
  assumes st: "rx_holds h0 acc st" and len: "length bs < BUFFER_SIZE" and free: "h0 a' = None"
    and scan: "scan_loop (bs @ replicate (BUFFER_SIZE - length bs) NUL) 0 = Inr (i, complete)"
    and i: "length bs \<le> i" "i \<le> BUFFER_SIZE"
    and j: "rx_j st + int i + 1 < 2 ^ 31" and dc: "0 \<le> data_count st" "data_count st + int i < 2 ^ 31"
  shows "\<exists>st'. rx_round st bs (Some a') = Inr (complete, st') \<and> rx_holds h0 (acc @ c_prefix bs) st' \<and>
    rx_j st' = rx_j st + int i \<and> data_count st' = data_count st + int i"
proof -
  let ?buf = "bs @ replicate (BUFFER_SIZE - length bs) NUL" and ?n = "nat (rx_j st + int i + 1)"
  obtain a rest where a: "outputBuffer st = Ptr a" "h0 a = None"
    "rx_heap st = h0(a \<mapsto> map Some acc @ Some NUL # rest)"
    and acc: "NUL \<notin> set acc" "rx_buffer st = replicate BUFFER_SIZE NUL" "int (length acc) \<le> rx_j st"
    using st by (auto simp: rx_holds_def)
  have n: "length acc + length bs + 1 \<le> ?n" using acc(3) i(1) by simp
  let ?b = "map Some acc @ Some NUL # rest"
  let ?rest = "take (?n - length acc - 1) rest @ replicate (?n - length ?b) None"
  have cut: "take ?n ?b @ replicate (?n - length ?b) None = map Some acc @ Some NUL # ?rest"
    using n by (simp add: take_Cons')
  have re: "realloc (Some a') (rx_heap st) (outputBuffer st) ?n =
      Inr (Ptr a', h0(a' \<mapsto> map Some acc @ Some NUL # ?rest))"
    using realloc_block [of "rx_heap st" a ?b a' ?n] a cut
    by (simp add: fun_upd_idem del: take_append)
  obtain m where "BUFFER_SIZE - length bs = Suc m"
    using len Suc_diff_Suc by metis
  then have src: "strn_src (i + 1) ?buf = Inr (c_prefix bs)"
    using strn_src_string [OF i(1), of "replicate m NUL"] by simp
  have room: "length (c_prefix bs) \<le> length ?rest"
    using n length_takeWhile_le [of "\<lambda>c. c \<noteq> NUL" bs] by simp
  let ?h = "h0(a' \<mapsto> map Some (acc @ c_prefix bs) @ Some NUL # drop (length (c_prefix bs)) ?rest)"
  have cat: "strncat (h0(a' \<mapsto> map Some acc @ Some NUL # ?rest)) (Ptr a') ?buf (i + 1) = Inr ?h"
    using strncat_block [of "h0(a' \<mapsto> map Some acc @ Some NUL # ?rest)" a' acc ?rest "i + 1" ?buf "c_prefix bs"]
      acc(1) src room by (simp del: drop_append)
  let ?st' = "\<lparr>rx_heap = ?h, outputBuffer = Ptr a', rx_buffer = replicate BUFFER_SIZE NUL,
      rx_j = rx_j st + int i, data_count = data_count st + int i\<rparr>"
  have buf: "bs @ drop (length bs) (rx_buffer st) = ?buf"
    using acc(2) by simp
  have "rx_round st bs (Some a') = Inr (complete, ?st')"
    unfolding rx_round_def buf using scan re cat j dc acc(3)
    by (simp del: drop_append take_append map_append strn_src.simps)
  moreover have "rx_holds h0 (acc @ c_prefix bs) ?st'"
    using acc(1,3) free i(1) length_takeWhile_le [of "\<lambda>c. c \<noteq> NUL" bs]
    by (auto simp: rx_holds_def)
  ultimately show ?thesis by (intro exI [of _ ?st']) simp
qed

lemma rx_round_partial:
  assumes "rx_holds h0 acc st" and "length bs < BUFFER_SIZE" and "h0 a' = None" and "NEWLINE \<notin> set bs"
    and "rx_j st + 101 < 2 ^ 31" and "0 \<le> data_count st" and "data_count st + 100 < 2 ^ 31"
  shows "\<exists>st'. rx_round st bs (Some a') = Inr (False, st') \<and> rx_holds h0 (acc @ c_prefix bs) st' \<and>
    rx_j st' = rx_j st + 100 \<and> data_count st' = data_count st + 100"
proof -
  have "scan_loop (bs @ replicate (BUFFER_SIZE - length bs) NUL) 0 = Inr (BUFFER_SIZE, False)"
    using assms(2,4) by (intro scan_loop_no_newline) auto
  then show ?thesis
    using rx_round_append [OF assms(1-3)] assms by simp
qed

lemma rx_round_final:
  assumes "rx_holds h0 acc st" and "length (xs @ [NEWLINE]) < BUFFER_SIZE" and "h0 a' = None" and "NEWLINE \<notin> set xs"
    and "rx_j st + 101 < 2 ^ 31" and "0 \<le> data_count st" and "data_count st + 100 < 2 ^ 31"
  shows "\<exists>st'. rx_round st (xs @ [NEWLINE]) (Some a') = Inr (True, st') \<and>
    rx_holds h0 (acc @ c_prefix (xs @ [NEWLINE])) st'"
proof -
  have "scan_loop ((xs @ [NEWLINE]) @ replicate (BUFFER_SIZE - length (xs @ [NEWLINE])) NUL) 0 =
      Inr (length (xs @ [NEWLINE]), True)"
    using scan_loop_newline [of xs] assms(2,4) by simp
  then show ?thesis
    using rx_round_append [OF assms(1-3)] assms(2,5,6,7) by fastforce
qed

text \<open>Rounds that find no newline, each with a chunk and the address of its reallocation.\<close>

definition rx_rounds :: "(byte list \<times> nat) list \<Rightarrow> (recv_answer \<times> nat option) list" where
  "rx_rounds ps = map (\<lambda>(bs, a). (Recv bs, Some a)) ps"

definition chunk_ok :: "heap \<Rightarrow> byte list \<times> nat \<Rightarrow> bool" where
  "chunk_ok h0 p \<longleftrightarrow> fst p \<noteq> [] \<and> length (fst p) < BUFFER_SIZE \<and> h0 (snd p) = None"

definition rx_string :: "byte list list \<Rightarrow> byte list" where
  "rx_string cs = concat (map c_prefix cs)"

lemma rx_loop_partial:
  assumes "rx_holds h0 acc st" and "list_all (chunk_ok h0) ps" and "list_all (\<lambda>p. NEWLINE \<notin> set (fst p)) ps"
    and "rx_j st + 100 * int (length ps) < 2 ^ 31 - 1" and "0 \<le> data_count st"
    and "data_count st + 100 * int (length ps) < 2 ^ 31"
  shows "\<exists>st'. (\<forall>later. rx_loop st (rx_rounds ps @ later) = rx_loop st' later) \<and>
    rx_holds h0 (acc @ rx_string (map fst ps)) st' \<and> rx_j st' = rx_j st + 100 * int (length ps) \<and>
    data_count st' = data_count st + 100 * int (length ps)"
  using assms
proof (induction ps arbitrary: acc st)
  case Nil
  then show ?case by (auto simp: rx_rounds_def rx_string_def)
next
  case (Cons p ps)
  obtain bs a' where p: "p = (bs, a')" by (cases p)
  with Cons.prems have "length bs < BUFFER_SIZE" "h0 a' = None" "NEWLINE \<notin> set bs" "bs \<noteq> []"
    by (auto simp: chunk_ok_def)
  then obtain st1 where st1: "rx_round st bs (Some a') = Inr (False, st1)" "rx_holds h0 (acc @ c_prefix bs) st1"
    "rx_j st1 = rx_j st + 100" "data_count st1 = data_count st + 100"
    using rx_round_partial [OF Cons.prems(1), of bs a'] Cons.prems(4-6) by auto
  obtain st' where "\<forall>later. rx_loop st1 (rx_rounds ps @ later) = rx_loop st' later"
    "rx_holds h0 ((acc @ c_prefix bs) @ rx_string (map fst ps)) st'"
    "rx_j st' = rx_j st1 + 100 * int (length ps)" "data_count st' = data_count st1 + 100 * int (length ps)"
    using Cons.IH [OF st1(2)] Cons.prems st1(3,4) by auto
  with st1 p \<open>bs \<noteq> []\<close> show ?case
    by (intro exI [of _ st']) (simp add: rx_rounds_def rx_string_def)
qed

lemma rx_packet_start:
  assumes "h0 a0 = None"
  shows "\<exists>st. rx_holds h0 [] st \<and> rx_j st = 0 \<and> data_count st = dc \<and>
    (\<forall>as. rx_packet h0 dc (Some a0) as = rx_loop st as)"
proof -
  obtain m where m: "BUFFER_SIZE = Suc m" by (simp add: numeral_eq_Suc)
  let ?st = "\<lparr>rx_heap = h0(a0 \<mapsto> map Some (replicate BUFFER_SIZE NUL)), outputBuffer = Ptr a0,
      rx_buffer = replicate BUFFER_SIZE NUL, rx_j = 0, data_count = dc\<rparr>"
  have "rx_holds h0 [] ?st"
    using assms unfolding rx_holds_def by (simp add: m) (auto simp: fun_eq_iff)
  moreover have "rx_packet h0 dc (Some a0) as = rx_loop ?st as" for as
    by (simp add: rx_packet_def malloc_def mem_write_def)
  ultimately show ?thesis by (intro exI [of _ ?st]) simp
qed

text \<open>A complete packet, and a connection closed before the newline.\<close>

lemma rx_packet_complete:
  assumes "h0 a0 = None" and "list_all (chunk_ok h0) ps" and "list_all (\<lambda>p. NEWLINE \<notin> set (fst p)) ps"
    and "chunk_ok h0 (xs @ [NEWLINE], a')" and "NEWLINE \<notin> set xs"
    and "100 * int (length ps) + 101 < 2 ^ 31" and "0 \<le> dc" and "dc + 100 * int (length ps) + 100 < 2 ^ 31"
  shows "\<exists>st. rx_packet h0 dc (Some a0) (rx_rounds ps @ (Recv (xs @ [NEWLINE]), Some a') # later) =
      Inr (Returns st) \<and> rx_holds h0 (rx_string (map fst ps @ [xs @ [NEWLINE]])) st"
proof -
  obtain st where st: "rx_holds h0 [] st" "rx_j st = 0" "data_count st = dc"
    "\<forall>as. rx_packet h0 dc (Some a0) as = rx_loop st as"
    using rx_packet_start [of h0 a0, OF assms(1)] by blast
  obtain st1 where st1: "\<forall>later. rx_loop st (rx_rounds ps @ later) = rx_loop st1 later"
    "rx_holds h0 (rx_string (map fst ps)) st1" "rx_j st1 = 100 * int (length ps)"
    "data_count st1 = dc + 100 * int (length ps)"
    using rx_loop_partial [OF st(1) assms(2,3)] st assms(6-8) by auto
  obtain st2 where "rx_round st1 (xs @ [NEWLINE]) (Some a') = Inr (True, st2)"
    "rx_holds h0 (rx_string (map fst ps) @ c_prefix (xs @ [NEWLINE])) st2"
    using rx_round_final [OF st1(2), of xs a'] assms(4-8) st1(3,4) by (auto simp: chunk_ok_def)
  then show ?thesis
    using st(4) st1(1) by (intro exI [of _ st2]) (simp add: rx_string_def)
qed

lemma rx_packet_closed:
  assumes "h0 a0 = None" and "list_all (chunk_ok h0) ps" and "list_all (\<lambda>p. NEWLINE \<notin> set (fst p)) ps"
    and "100 * int (length ps) + 1 < 2 ^ 31" and "0 \<le> dc" and "dc + 100 * int (length ps) < 2 ^ 31"
  shows "\<exists>st. rx_packet h0 dc (Some a0) (rx_rounds ps @ (Recv [], al) # later) = Inr (Returns st) \<and>
    rx_holds h0 (rx_string (map fst ps)) st"
proof -
  obtain st where st: "rx_holds h0 [] st" "rx_j st = 0" "data_count st = dc"
    "\<forall>as. rx_packet h0 dc (Some a0) as = rx_loop st as"
    using rx_packet_start [of h0 a0, OF assms(1)] by blast
  then show ?thesis
    using rx_loop_partial [OF st(1) assms(2,3)] assms(4-6) by auto
qed

lemma rx_holds_string: "rx_holds h0 acc st \<Longrightarrow> c_string (rx_heap st) (outputBuffer st) = Inr acc"
  by (auto simp: rx_holds_def c_string_block)

lemma rx_string_no_NUL: "list_all (\<lambda>c. NUL \<notin> set c) cs \<Longrightarrow> rx_string cs = concat cs"
proof (induction cs)
  case (Cons c cs)
  then have "c_prefix c = c" by (auto simp: takeWhile_eq_all_conv)
  with Cons show ?case by (simp add: rx_string_def)
qed (simp add: rx_string_def)

section \<open>Rounds that leave their arrays\<close>

text \<open>
  Bytes after the newline in the first chunk: \<^verbatim>\<open>strncat\<close> is allowed one byte more than the
  newline search counted, and with its terminating zero writes past the reallocated block.
\<close>

lemma rx_packet_overflow:
  assumes "h0 a0 = None" and "h0 a' = None" and "NEWLINE \<notin> set xs" and "NUL \<notin> set xs" and "c \<noteq> NUL"
    and "length (xs @ NEWLINE # c # ys) \<le> BUFFER_SIZE" and "0 \<le> dc" and "dc + 100 < 2 ^ 31"
  shows "rx_packet h0 dc (Some a0) ((Recv (xs @ NEWLINE # c # ys), Some a') # later) = Inl Out_Of_Bounds"
proof -
  let ?bs = "xs @ NEWLINE # c # ys" and ?k = "length xs + 2"
  let ?st = "\<lparr>rx_heap = h0(a0 \<mapsto> map Some (replicate BUFFER_SIZE NUL)), outputBuffer = Ptr a0,
      rx_buffer = replicate BUFFER_SIZE NUL, rx_j = 0, data_count = dc\<rparr>"
  let ?buf = "?bs @ drop (length ?bs) (replicate BUFFER_SIZE NUL)"
  have scan: "scan_loop ?buf 0 = Inr (length xs + 1, True)"
    using scan_loop_newline [OF assms(3)] assms(6) by simp
  let ?b = "map Some [] @ Some NUL # replicate (length xs + 1) (Some NUL)"
  have "take ?k (map Some (replicate BUFFER_SIZE NUL)) = ?b"
    using assms(6) by (simp add: take_map min_absorb1 map_replicate)
  then have re: "realloc (Some a') (rx_heap ?st) (Ptr a0) ?k = Inr (Ptr a', h0(a' \<mapsto> ?b))"
    using realloc_block [of "rx_heap ?st" a0 "map Some (replicate BUFFER_SIZE NUL)" a' ?k] assms(1,6)
    by (simp add: fun_upd_idem)
  have "strn_src (length (xs @ [NEWLINE, c])) ((xs @ [NEWLINE, c]) @ ys @ drop (length ?bs) (replicate BUFFER_SIZE NUL)) =
      Inr (xs @ [NEWLINE, c])"
    using assms(4,5) by (intro strn_src_cut) simp
  then have src: "strn_src ?k ?buf = Inr (xs @ [NEWLINE, c])" by simp
  have cat: "strncat (h0(a' \<mapsto> ?b)) (Ptr a') ?buf ?k = Inl Out_Of_Bounds"
    using strncat_block [of "h0(a' \<mapsto> ?b)" a' "[]" "replicate (length xs + 1) (Some NUL)" ?k ?buf] src by simp
  have "nat (2 + int (length xs)) = ?k" by simp
  then have "rx_round ?st ?bs (Some a') = Inl Out_Of_Bounds"
    using scan re cat assms(6-8) by (simp add: rx_round_def del: strn_src.simps drop_append)
  moreover have "rx_packet h0 dc (Some a0) as = rx_loop ?st as" for as
    by (simp add: rx_packet_def malloc_def mem_write_def)
  ultimately show ?thesis by simp
qed

text \<open>
  A chunk that fills the array without a newline before its last byte: \<^verbatim>\<open>strncat\<close> is allowed
  101 bytes of an array of 100 that has no terminating zero.
\<close>

lemma rx_round_overread:
  assumes st: "rx_holds h0 acc st" and len: "length bs = BUFFER_SIZE" and "NUL \<notin> set bs"
    and nl: "NEWLINE \<notin> set (butlast bs)"
    and "rx_j st + 101 < 2 ^ 31" and "0 \<le> data_count st" and "data_count st + 100 < 2 ^ 31"
  shows "rx_round st bs (Some a') = Inl Out_Of_Bounds"
proof -
  have buf: "bs @ drop (length bs) (rx_buffer st) = bs"
    using st len by (simp add: rx_holds_def)
  obtain complete where scan: "scan_loop bs 0 = Inr (BUFFER_SIZE, complete)"
  proof (cases "NEWLINE \<in> set bs")
    case False
    then show thesis using that scan_loop_no_newline len by blast
  next
    case True
    have ne: "bs \<noteq> []" using len by auto
    have "last bs = NEWLINE"
      using True nl append_butlast_last_id [OF ne] by (metis Un_iff set_append set_ConsD empty_iff list.set(1))
    then have "bs = butlast bs @ [NEWLINE]" using append_butlast_last_id [OF ne] by simp
    then show thesis
      using scan_loop_newline [OF nl, of "[]"] len that by (metis Suc_eq_plus1 length_append_singleton lessI)
  qed
  obtain a rest where a: "outputBuffer st = Ptr a" "rx_heap st a = Some (map Some acc @ Some NUL # rest)"
    and acc: "NUL \<notin> set acc" "int (length acc) \<le> rx_j st"
    using st by (auto simp: rx_holds_def)
  let ?n = "nat (rx_j st + 101)"
  let ?b = "map Some acc @ Some NUL # (take (?n - length acc - 1) rest @ replicate (?n - (length acc + Suc (length rest))) None)"
  have "take ?n (map Some acc @ Some NUL # rest) @ replicate (?n - length (map Some acc @ Some NUL # rest)) None = ?b"
    using acc(2) by (simp add: take_Cons')
  then have re: "realloc (Some a') (rx_heap st) (outputBuffer st) ?n = Inr (Ptr a', ((rx_heap st)(a := None))(a' \<mapsto> ?b))"
    unfolding a(1) using realloc_block [of "rx_heap st" a, OF a(2), of a' ?n] by (simp only:)
  have cat: "strncat (((rx_heap st)(a := None))(a' \<mapsto> ?b)) (Ptr a') bs (BUFFER_SIZE + 1) = Inl Out_Of_Bounds"
    using strn_src_overread [OF assms(3)] len acc(1)
    by (simp add: strncat_def strlen_block_string del: strn_src.simps)
  have "int_add (rx_j st) 100 = Inr (rx_j st + 100)" "int_add (rx_j st + 100) 1 = Inr (rx_j st + 101)"
    "int_add (data_count st) 100 = Inr (data_count st + 100)"
    using assms(5-7) acc(2) by (simp_all add: int_add_def)
  then show ?thesis
    unfolding rx_round_def buf Let_def using scan re cat by simp
qed

end
