(* ===== verification/Socket_Session.thy ===== *)
theory Socket_Session
  imports Socket_Receive Driver_Safety
begin

text \<open>
  The rest of \<^verbatim>\<open>threadHandler\<close> in \<^verbatim>\<open>server/aesdsocket.c\<close>: under the lock a packet is either a
  seek command for the device or bytes to append to it, and the device's content is sent
  back. The session is a client of the device's interface: it takes the device's write, read
  and seek operations as arguments, and its lemmas are proved in a locale that extends
  \<open>char_device\<close>. The standard I/O library chooses how the bytes of \<^verbatim>\<open>fwrite\<close> are split into
  writes and how much one refill of its buffer reads.
\<close>

section \<open>The session\<close>

definition ioctl_string :: "byte list" where
  "ioctl_string = ''AESDCHAR_IOCSEEKTO:''"

definition int_range :: "int \<Rightarrow> bool" where
  "int_range v \<longleftrightarrow> - (2 ^ 31) \<le> v \<and> v < 2 ^ 31"

text \<open>
  \<^verbatim>\<open>sscanf\<close> with the format \<^verbatim>\<open>AESDCHAR_IOCSEEKTO:%d,%d\<close>: a member whose conversion is not
  reached keeps its old content; a number that does not fit \<^verbatim>\<open>int\<close> is undefined.
\<close>

definition sscanf_seek :: "byte list \<Rightarrow> aesd_seekto \<Rightarrow> aesd_seekto res" where
  "sscanf_seek s seek =
     (if take (length ioctl_string) s \<noteq> ioctl_string then Inr seek
      else case scan_d (drop (length ioctl_string) s) of
        None \<Rightarrow> Inr seek
      | Some (v, r) \<Rightarrow>
          if \<not> int_range v then Inl Signed_Overflow
          else let seek1 = seek\<lparr>write_cmd := word_of_int v\<rparr>
               in (case r of
                     [] \<Rightarrow> Inr seek1
                   | c # r' \<Rightarrow>
                       if c \<noteq> CHR '','' then Inr seek1
                       else (case scan_d r' of
                               None \<Rightarrow> Inr seek1
                             | Some (v', _) \<Rightarrow>
                                 if \<not> int_range v' then Inl Signed_Overflow
                                 else Inr (seek1\<lparr>write_cmd_offset := word_of_int v'\<rparr>))))"

text \<open>What the environment answers during one session.\<close>

record 'ans session_env =
  se_malloc :: "nat option"                        \<comment> \<open>the output buffer\<close>
  se_recv :: "(recv_answer \<times> nat option) list"     \<comment> \<open>the chunks and reallocations\<close>
  se_fopen :: bool                                 \<comment> \<open>the data file could be opened\<close>
  se_writes :: "('ans \<times> nat) list"                 \<comment> \<open>the sizes of the writes of standard I/O\<close>
  se_junk :: aesd_seekto                           \<comment> \<open>the uninitialised local structure\<close>
  se_ioctl :: 'ans
  se_blksize :: nat                                \<comment> \<open>the size of a refill of the read buffer\<close>
  se_send :: "nat option"                          \<comment> \<open>the send buffer\<close>

text \<open>The writes standard I/O makes of the bytes handed to \<^verbatim>\<open>fwrite\<close> by the time of the rewind.\<close>

fun stdio_pieces :: "byte list \<Rightarrow> ('ans \<times> nat) list \<Rightarrow> ('ans \<times> byte list) list" where
  "stdio_pieces bs [] = []"
| "stdio_pieces bs ((a, n) # ws) = (a, take n bs) # stdio_pieces (drop n bs) ws"

text \<open>The operations of the device: a write, a read at a position, a seek from a position.\<close>

type_synonym ('k, 'ans) wr_op = "'k \<Rightarrow> 'ans \<Rightarrow> byte list \<Rightarrow> (nat \<times> 'k) res"
type_synonym 'k rd_op = "'k \<Rightarrow> nat \<Rightarrow> nat \<Rightarrow> byte list res"
type_synonym ('k, 'ans) sk_op = "'k \<Rightarrow> 'ans \<Rightarrow> nat \<Rightarrow> aesd_seekto \<Rightarrow> (nat \<times> 'k) res"

text \<open>
  The branch on the packet. The result is the position of the open file, which starts at 0,
  and the device; the result of the seek is ignored.
\<close>

definition file_update ::
  "('k, 'ans) wr_op \<Rightarrow> ('k, 'ans) sk_op \<Rightarrow> 'ans session_env \<Rightarrow> byte list \<Rightarrow> 'k \<Rightarrow> (nat \<times> 'k) res" where
  "file_update wr sk env out k =
     (if \<not> se_fopen env then Inl Null_Deref
      else if strncmp_eq (length ioctl_string) out ioctl_string
      then rbind (sscanf_seek out (se_junk env)) (\<lambda>seek_params. sk k (se_ioctl env) 0 seek_params)
      else rbind (write_pieces wr k (stdio_pieces out (se_writes env))) (\<lambda>k'. Inr (0, k')))"

text \<open>
  The loop that reads the file byte by byte: \<open>rbuf\<close> is the content of the read buffer, which
  is refilled when it is empty, \<open>sent\<close> what has been sent.
\<close>

partial_function (option) send_loop ::
  "(nat \<Rightarrow> byte list res) \<Rightarrow> nat \<Rightarrow> byte list \<Rightarrow> byte list \<Rightarrow> byte list res option" where
  "send_loop rd pos rbuf sent =
     (case rbuf of
        c # cs \<Rightarrow> send_loop rd pos cs (sent @ [c])
      | [] \<Rightarrow>
          (case rd pos of
             Inl e \<Rightarrow> Some (Inl e)
           | Inr bs \<Rightarrow>
               (case bs of
                  [] \<Rightarrow> Some (Inr sent)
                | c # cs \<Rightarrow> send_loop rd (pos + length bs) cs (sent @ [c]))))"

text \<open>
  The thread. The result has the bytes sent, the device, the heap and the global counter. The
  buffer of one byte is accessed only when there is a byte to send.
\<close>

definition threadHandler ::
  "('k, 'ans) wr_op \<Rightarrow> 'k rd_op \<Rightarrow> ('k, 'ans) sk_op \<Rightarrow> 'ans session_env \<Rightarrow> 'k \<Rightarrow> heap \<Rightarrow> int \<Rightarrow>
   (byte list \<times> 'k \<times> heap \<times> int) proc res option" where
  "threadHandler wr rd sk env k h dc =
     (case rx_packet h dc (se_malloc env) (se_recv env) of
        Inl e \<Rightarrow> Some (Inl e)
      | Inr (Exits n) \<Rightarrow> Some (Inr (Exits n))
      | Inr (Returns st) \<Rightarrow>
          (case rbind (c_string (rx_heap st) (outputBuffer st)) (\<lambda>out. file_update wr sk env out k) of
             Inl e \<Rightarrow> Some (Inl e)
           | Inr (pos, k') \<Rightarrow>
               let (sendBuffer, h1) = malloc (se_send env) (rx_heap st) 1
               in map_option (\<lambda>r. rbind r (\<lambda>sent.
                    if sendBuffer = NULL \<and> sent \<noteq> [] then Inl Null_Deref
                    else rbind (free_ptr h1 (outputBuffer st)) (\<lambda>h2.
                      rbind (free_ptr h2 sendBuffer) (\<lambda>h3.
                        Inr (Returns (sent, k', h3, data_count st))))))
                  (send_loop (\<lambda>p. rd k' p (se_blksize env)) pos [] [])))"

section \<open>Standard I/O and the buffers\<close>

lemma stdio_pieces_concat:
  "sum_list (map snd ws) = length bs \<Longrightarrow> concat (map snd (stdio_pieces bs ws)) = bs"
proof (induction ws arbitrary: bs)
  case Nil
  then show ?case by simp
next
  case (Cons w ws)
  obtain a n where w: "w = (a, n)" by (cases w)
  then have "sum_list (map snd ws) = length (drop n bs)" using Cons.prems by simp
  then show ?case using Cons.IH [of "drop n bs"] w by simp
qed

lemma stdio_pieces_nonempty:
  "sum_list (map snd ws) = length bs \<Longrightarrow> list_all (\<lambda>w. 0 < snd w) ws \<Longrightarrow>
   list_all (\<lambda>p. snd p \<noteq> []) (stdio_pieces bs ws)"
proof (induction ws arbitrary: bs)
  case Nil
  then show ?case by simp
next
  case (Cons w ws)
  obtain a n where w: "w = (a, n)" by (cases w)
  then have "sum_list (map snd ws) = length (drop n bs)" "bs \<noteq> []" using Cons.prems by auto
  then show ?case using Cons w by simp
qed

lemma session_free:
  assumes "rx_holds h0 out st" and "rx_heap st b = None"
  shows "rbind (free_ptr ((rx_heap st)(b \<mapsto> [None])) (outputBuffer st)) (\<lambda>h2. free_ptr h2 (Ptr b)) = Inr h0"
proof -
  obtain a rest where a: "outputBuffer st = Ptr a" "h0 a = None" "rx_heap st = h0(a \<mapsto> rest)"
    using assms(1) by (auto simp: rx_holds_def)
  moreover from this have "b \<noteq> a" "h0 b = None" using assms(2) by (auto split: if_splits)
  ultimately show ?thesis by (auto simp: free_ptr_def fun_eq_iff)
qed

section \<open>The interface with a seek\<close>

locale seekable_device = char_device rel wr wr_ok rd max_pos
  for rel :: "'k \<Rightarrow> device \<Rightarrow> bool"
    and wr :: "('k, 'ans) wr_op"
    and wr_ok :: "'k \<Rightarrow> 'ans \<Rightarrow> byte list \<Rightarrow> bool"
    and rd :: "'k rd_op"
    and max_pos :: nat +
  fixes sk :: "('k, 'ans) sk_op"
    and sk_ok :: "'k \<Rightarrow> 'ans \<Rightarrow> nat \<Rightarrow> aesd_seekto \<Rightarrow> bool"
  assumes seek_law: "rel k st \<Longrightarrow> sk_ok k a p seek \<Longrightarrow> \<exists>p'. sk k a p seek = Inr (p', k) \<and> p' < max_pos"
begin

lemma send_loop_buffer: "send_loop rd' pos rbuf sent = send_loop rd' pos [] (sent @ rbuf)"
proof (induction rbuf arbitrary: sent)
  case Nil
  then show ?case by simp
next
  case (Cons c cs)
  have "send_loop rd' pos (c # cs) sent = send_loop rd' pos cs (sent @ [c])"
    by (simp add: send_loop.simps)
  with Cons show ?case by simp
qed

lemma send_loop_all:
  assumes rel: "rel k st" and count: "0 < count" "count < max_pos" and pos: "pos < max_pos"
  shows "send_loop (\<lambda>p. rd k p count) pos [] sent = Some (Inr (sent @ drop pos (device_bytes st)))"
  using pos
proof (induction "length (device_bytes st) - pos" arbitrary: pos sent rule: less_induct)
  case less
  let ?r = "device_read st pos count"
  have r: "rd k pos count = Inr ?r"
    using rel count less.prems by (simp add: read_law)
  show ?case
  proof (cases ?r)
    case Nil
    then have "drop pos (device_bytes st) = []"
      using device_read_empty_iff [OF count(1), of st pos] by simp
    then show ?thesis using Nil r by (subst send_loop.simps) simp
  next
    case (Cons c cs)
    have split: "drop pos (device_bytes st) = ?r @ drop (pos + length ?r) (device_bytes st)"
      by (rule device_read_drop)
    have lt: "pos + length ?r \<le> length (device_bytes st)"
      using arg_cong [OF split, of length] Cons by simp
    then have "pos + length ?r < max_pos" using bytes_bound [OF rel] by simp
    then have "send_loop (\<lambda>p. rd k p count) (pos + length ?r) [] (sent @ ?r) =
        Some (Inr ((sent @ ?r) @ drop (pos + length ?r) (device_bytes st)))"
      using lt Cons by (intro less.hyps) auto
    moreover have "send_loop (\<lambda>p. rd k p count) pos [] sent =
        send_loop (\<lambda>p. rd k p count) (pos + length ?r) [] (sent @ ?r)"
      using r Cons send_loop_buffer [of "\<lambda>p. rd k p count" "pos + length ?r" cs "sent @ [c]"]
      by (subst send_loop.simps) simp
    ultimately show ?thesis using split by simp
  qed
qed

text \<open>The end of a session, once the file is at a position of the device.\<close>

lemma session_reply:
  assumes rel: "rel k' st'" and rx: "rx_packet h0 dc (se_malloc env) (se_recv env) = Inr (Returns rst)"
    and out: "rx_holds h0 out rst" and upd: "file_update wr sk env out k = Inr (pos, k')" and pos: "pos < max_pos"
    and blk: "0 < se_blksize env" "se_blksize env < max_pos" and send: "se_send env = Some b" "rx_heap rst b = None"
  shows "threadHandler wr rd sk env k h0 dc =
    Some (Inr (Returns (drop pos (device_bytes st'), k', h0, data_count rst)))"
  using rx upd rx_holds_string [OF out] send_loop_all [OF rel blk pos, of "[]"] send(1) session_free [OF out send(2)]
  by (cases "free_ptr ((rx_heap rst)(b \<mapsto> [None])) (outputBuffer rst)") (auto simp: threadHandler_def malloc_def)

lemma session_append:
  assumes rel: "rel k (cmds, pend)" and rx: "rx_packet h0 dc (se_malloc env) (se_recv env) = Inr (Returns rst)"
    and out: "rx_holds h0 out rst" and nl: "NEWLINE \<notin> set (butlast out)"
    and opened: "se_fopen env" "\<not> strncmp_eq (length ioctl_string) out ioctl_string"
    and ws: "sum_list (map snd (se_writes env)) = length out" "list_all (\<lambda>w. 0 < snd w) (se_writes env)"
    and ok: "pieces_ok wr wr_ok k (stdio_pieces out (se_writes env))"
    and blk: "0 < se_blksize env" "se_blksize env < max_pos" and send: "se_send env = Some b" "rx_heap rst b = None"
  shows "\<exists>k'. threadHandler wr rd sk env k h0 dc =
      Some (Inr (Returns (device_bytes (device_write (cmds, pend) out), k', h0, data_count rst))) \<and>
    rel k' (device_write (cmds, pend) out)"
proof -
  let ?ps = "stdio_pieces out (se_writes env)"
  have "foldl device_write (cmds, pend) (map snd ?ps) = device_write (cmds, pend) out"
    using device_write_split [of pend "map snd ?ps" cmds] no_pending_newline [OF rel] nl
      stdio_pieces_concat [OF ws(1)] stdio_pieces_nonempty [OF ws] by (simp add: list_all_iff)
  then obtain k' where k': "write_pieces wr k ?ps = Inr k'" "rel k' (device_write (cmds, pend) out)"
    using write_pieces_fold [OF rel ok] by auto
  then have "file_update wr sk env out k = Inr (0, k')"
    using opened by (simp add: file_update_def)
  moreover have "0 < max_pos" using blk by simp
  ultimately show ?thesis
    using session_reply [OF k'(2) rx out _ _ blk send, of k 0] k'(2) by auto
qed

lemma session_seek:
  assumes rel: "rel k st" and rx: "rx_packet h0 dc (se_malloc env) (se_recv env) = Inr (Returns rst)"
    and out: "rx_holds h0 out rst"
    and opened: "se_fopen env" "strncmp_eq (length ioctl_string) out ioctl_string"
    and seek: "sscanf_seek out (se_junk env) = Inr seek" "sk_ok k (se_ioctl env) 0 seek"
    and blk: "0 < se_blksize env" "se_blksize env < max_pos" and send: "se_send env = Some b" "rx_heap rst b = None"
  shows "\<exists>pos. sk k (se_ioctl env) 0 seek = Inr (pos, k) \<and> threadHandler wr rd sk env k h0 dc =
    Some (Inr (Returns (drop pos (device_bytes st), k, h0, data_count rst)))"
proof -
  obtain pos where pos: "sk k (se_ioctl env) 0 seek = Inr (pos, k)" "pos < max_pos"
    using seek_law [OF rel seek(2)] by blast
  then have "file_update wr sk env out k = Inr (pos, k)"
    using opened seek(1) by (simp add: file_update_def)
  then show ?thesis
    using session_reply [OF rel rx out _ pos(2) blk send, of k] pos(1) by blast
qed

end

section \<open>The session on the character driver\<close>

text \<open>
  The server is compiled with its own copy of the header, \<^verbatim>\<open>server/aesd_ioctl.h\<close>; the request
  code it passes to \<^verbatim>\<open>ioctl\<close> is computed from that copy.
\<close>

definition server_AESD_IOC_MAGIC :: nat where
  "server_AESD_IOC_MAGIC = 0x16"

definition server_AESDCHAR_IOCSEEKTO :: "32 word" where
  "server_AESDCHAR_IOCSEEKTO = IOWR server_AESD_IOC_MAGIC 1 8"

lemma server_request_code [simp]: "server_AESDCHAR_IOCSEEKTO = AESDCHAR_IOCSEEKTO"
  by (simp add: server_AESDCHAR_IOCSEEKTO_def server_AESD_IOC_MAGIC_def AESDCHAR_IOCSEEKTO_def)

definition driver_sk :: "(kernel, answers) sk_op" where
  "driver_sk k ans pos seek =
     rbind (aesd_ioctl k (opened_file (of_nat pos)) server_AESDCHAR_IOCSEEKTO seek ans)
       (\<lambda>(r, filp', k'). Inr (unat (f_pos filp'), k'))"

definition driver_sk_ok :: "kernel \<Rightarrow> answers \<Rightarrow> nat \<Rightarrow> aesd_seekto \<Rightarrow> bool" where
  "driver_sk_ok k ans pos seek \<longleftrightarrow> unat (write_cmd seek) \<noteq> 10"

lemma driver_sk_law:
  assumes "dev_rel k st" and "driver_sk_ok k ans pos seek"
  shows "\<exists>pos'. driver_sk k ans pos seek = Inr (pos', k) \<and> pos' < 2 ^ 64"
  using aesd_ioctl_cases [of k st "opened_file (of_nat pos)" AESDCHAR_IOCSEEKTO ans seek] assms
  by (cases "aesd_ioctl k (opened_file (of_nat pos)) AESDCHAR_IOCSEEKTO seek ans")
    (auto simp: driver_sk_def driver_sk_ok_def)

interpretation sdrv: seekable_device dev_rel driver_wr driver_wr_ok driver_rd "2 ^ 64" driver_sk driver_sk_ok
  by unfold_locales (use driver_sk_law in blast)

section \<open>Sessions with a complete packet\<close>

text \<open>
  What a session needs to work: chunks that stay inside the receive loop's arrays, the last
  one ending in the first newline, and allocations that return free addresses.
\<close>

definition rx_env_ok ::
  "heap \<Rightarrow> int \<Rightarrow> 'ans session_env \<Rightarrow> (byte list \<times> nat) list \<Rightarrow> byte list \<Rightarrow> nat \<Rightarrow> bool" where
  "rx_env_ok h0 dc env ps xs a' \<longleftrightarrow>
     (\<exists>later. se_recv env = rx_rounds ps @ (Recv (xs @ [NEWLINE]), Some a') # later) \<and>
     list_all (chunk_ok h0) (ps @ [(xs @ [NEWLINE], a')]) \<and>
     list_all (\<lambda>c. NEWLINE \<notin> set c \<and> NUL \<notin> set c) (xs # map fst ps) \<and>
     (case se_malloc env of None \<Rightarrow> False | Some a \<Rightarrow> h0 a = None) \<and>
     (case se_send env of None \<Rightarrow> False | Some b \<Rightarrow> h0 b = None \<and> b \<noteq> a') \<and>
     0 \<le> dc \<and> dc + 100 * int (length ps) + 101 < 2 ^ 31 \<and>
     se_fopen env \<and> 0 < se_blksize env \<and> se_blksize env < 2 ^ 64"

definition rx_packet_bytes :: "(byte list \<times> nat) list \<Rightarrow> byte list \<Rightarrow> byte list" where
  "rx_packet_bytes ps xs = concat (map fst ps) @ xs @ [NEWLINE]"

lemma rx_loop_output:
  "rx_loop st (rx_rounds ps @ (Recv (xs @ [NEWLINE]), Some a') # later) = Inr (Returns st') \<Longrightarrow>
   list_all (\<lambda>p. fst p \<noteq> [] \<and> length (fst p) < BUFFER_SIZE \<and> NEWLINE \<notin> set (fst p)) ps \<Longrightarrow>
   rx_buffer st = replicate BUFFER_SIZE NUL \<Longrightarrow> length xs < BUFFER_SIZE \<Longrightarrow> NEWLINE \<notin> set xs \<Longrightarrow>
   outputBuffer st' = Ptr a'"
proof (induction ps arbitrary: st)
  case Nil
  have "scan_loop ((xs @ [NEWLINE]) @ drop (length (xs @ [NEWLINE])) (rx_buffer st)) 0 = Inr (length xs + 1, True)"
    using scan_loop_newline [of xs] Nil.prems by simp
  with Nil show ?case
    by (auto simp: rx_rounds_def rx_round_def realloc_def malloc_def rbind_eq_Inr_iff split: if_splits)
next
  case (Cons p ps)
  obtain bs a where p: "p = (bs, a)" by (cases p)
  have bs: "bs \<noteq> []" "length bs < BUFFER_SIZE" "NEWLINE \<notin> set bs" using Cons.prems(2) p by auto
  have "scan_loop (bs @ drop (length bs) (rx_buffer st)) 0 = Inr (BUFFER_SIZE, False)"
    using bs Cons.prems(3) by (intro scan_loop_no_newline) auto
  then obtain st1 where "rx_round st bs (Some a) = Inr (False, st1)" "rx_buffer st1 = replicate BUFFER_SIZE NUL"
    "rx_loop st1 (rx_rounds ps @ (Recv (xs @ [NEWLINE]), Some a') # later) = Inr (Returns st')"
    using Cons.prems(1) bs p by (auto simp: rx_rounds_def rx_round_def rbind_eq_Inr_iff)
  then show ?case using Cons.IH Cons.prems by auto
qed

lemma rx_env_packet:
  assumes "rx_env_ok h0 dc env ps xs a'"
  shows "\<exists>rst. rx_packet h0 dc (se_malloc env) (se_recv env) = Inr (Returns rst) \<and>
    rx_holds h0 (rx_packet_bytes ps xs) rst \<and> outputBuffer rst = Ptr a'"
proof -
  obtain later where later: "se_recv env = rx_rounds ps @ (Recv (xs @ [NEWLINE]), Some a') # later"
    using assms by (auto simp: rx_env_ok_def)
  obtain a0 where a0: "se_malloc env = Some a0" "h0 a0 = None"
    using assms by (auto simp: rx_env_ok_def split: option.splits)
  have ok: "list_all (chunk_ok h0) ps" "list_all (\<lambda>p. NEWLINE \<notin> set (fst p)) ps"
    "chunk_ok h0 (xs @ [NEWLINE], a')" "NEWLINE \<notin> set xs"
    "100 * int (length ps) + 101 < 2 ^ 31" "0 \<le> dc" "dc + 100 * int (length ps) + 100 < 2 ^ 31"
    "list_all (\<lambda>c. NUL \<notin> set c) (map fst ps @ [xs @ [NEWLINE]])"
    using assms by (auto simp: rx_env_ok_def list_all_iff)
  obtain rst where rst: "rx_packet h0 dc (Some a0) (se_recv env) = Inr (Returns rst)"
    "rx_holds h0 (rx_string (map fst ps @ [xs @ [NEWLINE]])) rst"
    using rx_packet_complete [of h0 a0, OF a0(2) ok(1-7), of later] later by auto
  obtain st where st: "rx_holds h0 [] st" "\<forall>as. rx_packet h0 dc (Some a0) as = rx_loop st as"
    using rx_packet_start [of h0 a0, OF a0(2)] by blast
  then have "outputBuffer rst = Ptr a'"
    using rx_loop_output [of st ps xs a' later rst] rst(1) later ok(1-4)
    by (auto simp: rx_holds_def list_all_iff chunk_ok_def)
  moreover have "rx_string (map fst ps @ [xs @ [NEWLINE]]) = rx_packet_bytes ps xs"
    using rx_string_no_NUL [OF ok(8)] by (simp add: rx_packet_bytes_def)
  ultimately show ?thesis using rst a0(1) by auto
qed

end
