(* ===== verification/Socket_Server.thy ===== *)
theory Socket_Server
  imports Queue_SList C_Library
begin

text \<open>
  The process around the sessions in \<^verbatim>\<open>server/aesdsocket.c\<close>: the structures of the thread list,
  \<^verbatim>\<open>main\<close>, \<^verbatim>\<open>ConfigureSocket\<close> with its accept loop, the signal handler and \<^verbatim>\<open>exitFunction\<close>. The
  thread list is the singly-linked list of \<^verbatim>\<open>Queue_SList\<close>; its elements are blocks that also
  hold the thread's data. What the system calls answer is an argument; their results are
  ignored exactly where the code ignores them.
\<close>

section \<open>State\<close>

text \<open>\<^term>\<open>None\<close> as the thread identifier is the content of memory never written.\<close>

record ThreadsDef =
  isDone :: bool
  thread_ID :: "nat option"
  threadFD :: int

record server = link_store +
  socketThread :: "nat \<rightharpoonup> ThreadsDef"
  dataPointer :: ptr
  socketDescriptor :: int
  socketAcceptDescriptor :: int
  fileDescriptor :: int
  daemonFlag :: bool
  doneFlag :: bool
  open_fds :: "int set"
  present_files :: "string set"

definition dataFile :: "bool \<Rightarrow> string" where
  "dataFile USE_AESD_CHAR_DEVICE =
     (if USE_AESD_CHAR_DEVICE then ''/dev/aesdchar'' else ''/var/tmp/aesdsocketdata'')"

text \<open>The list head \<^verbatim>\<open>head\<close> is a global variable; its cell is number 0.\<close>

abbreviation (input) list_head :: nat where "list_head \<equiv> 0"

definition thread_at :: "ptr \<Rightarrow> server \<Rightarrow> ThreadsDef res" where
  "thread_at p s = (case p of NULL \<Rightarrow> Inl Null_Deref
     | Ptr a \<Rightarrow> (case socketThread s a of None \<Rightarrow> Inl Wild_Pointer | Some t \<Rightarrow> Inr t))"

definition set_thread :: "ptr \<Rightarrow> ThreadsDef \<Rightarrow> server \<Rightarrow> server res" where
  "set_thread p t s = (case p of NULL \<Rightarrow> Inl Null_Deref
     | Ptr a \<Rightarrow> if socketThread s a = None then Inl Wild_Pointer
               else Inr (s\<lparr>socketThread := (socketThread s)(a \<mapsto> t)\<rparr>))"

text \<open>\<^verbatim>\<open>malloc\<close> of an element: a link and thread data with arbitrary content.\<close>

definition malloc_elem :: "nat option \<Rightarrow> ptr \<Rightarrow> ThreadsDef \<Rightarrow> server \<Rightarrow> ptr \<times> server" where
  "malloc_elem al junk t s =
     (case al of None \<Rightarrow> (NULL, s)
      | Some a \<Rightarrow> (Ptr a, s\<lparr>links := (links s)(Next a \<mapsto> junk), socketThread := (socketThread s)(a \<mapsto> t)\<rparr>))"

definition free_elem :: "ptr \<Rightarrow> server \<Rightarrow> server res" where
  "free_elem p s = (case p of NULL \<Rightarrow> Inr s
     | Ptr a \<Rightarrow> if socketThread s a = None then Inl Bad_Free
               else Inr (s\<lparr>links := (links s)(Next a := None), socketThread := (socketThread s)(a := None)\<rparr>))"

definition close_fd :: "int \<Rightarrow> server \<Rightarrow> server" where
  "close_fd fd s = s\<lparr>open_fds := open_fds s - {fd}\<rparr>"

definition diverging :: "'a res option \<Rightarrow> 'a res" where
  "diverging r = (case r of None \<Rightarrow> Inl Diverges | Some x \<Rightarrow> x)"

section \<open>The accept loop\<close>

text \<open>\<^verbatim>\<open>pthread_join\<close> waits for the thread; its identifier must have been stored.\<close>

definition pthread_join :: "ThreadsDef \<Rightarrow> unit res" where
  "pthread_join t = guard_res Uninit_Read (thread_ID t \<noteq> None)"

definition reap_body :: "ptr \<Rightarrow> server \<Rightarrow> (bool \<times> server) res" where
  "reap_body p s =
     rbind (thread_at p s) (\<lambda>t.
       if isDone t
       then rbind (pthread_join t) (\<lambda>_.
         rbind (diverging (SLIST_REMOVE list_head p s)) (\<lambda>s1.
           rbind (free_elem p s1) (\<lambda>s2. Inr (True, s2))))
       else Inr (False, s))"

text \<open>
  What one round of the loop is answered: the accepted descriptor (\<open>-1\<close> for a failed accept),
  the address of the element with its old content, the identifier of the new thread
  (\<^term>\<open>None\<close> when it could not be created).
\<close>

record accept_env =
  ae_fd :: int
  ae_malloc :: "nat option"
  ae_junk :: "ptr \<times> ThreadsDef"
  ae_create :: "nat option"

definition accept_round :: "accept_env \<Rightarrow> server \<Rightarrow> server res" where
  "accept_round e s =
     (let s1 = s\<lparr>socketAcceptDescriptor := ae_fd e,
                 open_fds := (if ae_fd e < 0 then open_fds s else insert (ae_fd e) (open_fds s))\<rparr>;
          (p, s2) = malloc_elem (ae_malloc e) (fst (ae_junk e)) ((snd (ae_junk e))\<lparr>thread_ID := None\<rparr>) s1;
          s3 = s2\<lparr>dataPointer := p\<rparr>
      in rbind (SLIST_INSERT_HEAD list_head p s3) (\<lambda>s4.
        rbind (thread_at p s4) (\<lambda>t.
          rbind (set_thread p (t\<lparr>threadFD := socketAcceptDescriptor s4, isDone := False\<rparr>) s4) (\<lambda>s5.
            rbind (thread_at p s5) (\<lambda>t5.
              rbind (set_thread p (if ae_create e = None then t5 else t5\<lparr>thread_ID := ae_create e\<rparr>) s5) (\<lambda>s6.
                rbind (diverging (SLIST_FOREACH reap_body list_head s6)) (\<lambda>(var, s7).
                  Inr (s7\<lparr>dataPointer := var\<rparr>))))))))"

text \<open>The loop; without a further answer \<^verbatim>\<open>accept\<close> waits.\<close>

fun accept_loop :: "accept_env list \<Rightarrow> server \<Rightarrow> server res" where
  "accept_loop es s =
     (if doneFlag s then Inr (close_fd (socketDescriptor s) (close_fd (socketAcceptDescriptor s) s))
      else case es of [] \<Rightarrow> Inl Blocks | e # es' \<Rightarrow> rbind (accept_round e s) (accept_loop es'))"

text \<open>
  The answers of the set-up calls: whether \<^verbatim>\<open>getaddrinfo\<close> stored an address list, the
  descriptors of \<^verbatim>\<open>socket\<close> and \<^verbatim>\<open>creat\<close>. A failing \<^verbatim>\<open>daemon\<close> is only logged.
\<close>

record setup_env =
  su_addrinfo :: bool
  su_socket :: int
  su_creat :: int

definition socket_setup :: "bool \<Rightarrow> setup_env \<Rightarrow> server \<Rightarrow> server res" where
  "socket_setup use_dev su s =
     rbind (SLIST_INIT list_head s) (\<lambda>s1.
       let s2 = s1\<lparr>socketDescriptor := su_socket su,
                   open_fds := (if su_socket su < 0 then open_fds s1 else insert (su_socket su) (open_fds s1))\<rparr>
       in if \<not> su_addrinfo su then Inl Uninit_Read
          else Inr (s2\<lparr>fileDescriptor := su_creat su,
                      present_files := (if su_creat su < 0 then present_files s2
                        else insert (dataFile use_dev) (present_files s2))\<rparr>))"

definition ConfigureSocket :: "bool \<Rightarrow> setup_env \<Rightarrow> accept_env list \<Rightarrow> server \<Rightarrow> server res" where
  "ConfigureSocket use_dev su es s = rbind (socket_setup use_dev su s) (accept_loop es)"

definition main_server :: "bool \<Rightarrow> string list \<Rightarrow> setup_env \<Rightarrow> accept_env list \<Rightarrow> server \<Rightarrow> (int \<times> server) res" where
  "main_server use_dev argv su es s =
     (let s1 = (if 1 < length argv \<and> argv ! 1 = ''-d'' then s\<lparr>daemonFlag := True\<rparr> else s)
      in rbind (ConfigureSocket use_dev su es s1) (\<lambda>s2. Inr (0, s2)))"

section \<open>Termination\<close>

abbreviation SIGINT :: int where "SIGINT \<equiv> 2"
abbreviation SIGKILL :: int where "SIGKILL \<equiv> 9"
abbreviation SIGTERM :: int where "SIGTERM \<equiv> 15"

text \<open>\<^verbatim>\<open>_exit\<close> ends the process: the result is its status with the state it leaves behind.\<close>

definition signalHandler :: "bool \<Rightarrow> int \<Rightarrow> server \<Rightarrow> (int option \<times> server)" where
  "signalHandler use_dev signalNumber s =
     (if signalNumber = SIGINT \<or> signalNumber = SIGTERM \<or> signalNumber = SIGKILL
      then (let s1 = s\<lparr>doneFlag := True\<rparr>;
                s2 = s1\<lparr>present_files := present_files s1 - {dataFile use_dev}\<rparr>;
                s3 = close_fd (socketAcceptDescriptor s2) s2;
                s4 = close_fd (socketDescriptor s3) s3
            in (Some 0, s4))
      else (None, s))"

text \<open>
  \<^verbatim>\<open>exitFunction\<close>, compiled for the character device: every round of the outer loop takes the
  first element, since the body leaves the iteration after one element.
\<close>

definition exit_body :: "ptr \<Rightarrow> server \<Rightarrow> (bool \<times> server) res" where
  "exit_body p s =
     rbind (thread_at p s) (\<lambda>t.
       let s1 = close_fd (threadFD t) s
       in rbind (pthread_join t) (\<lambda>_.
         rbind (diverging (SLIST_REMOVE list_head p s1)) (\<lambda>s2.
           rbind (free_elem p s2) (\<lambda>s3. Inr (True, s3)))))"

partial_function (option) exit_loop :: "server \<Rightarrow> server res option" where
  "exit_loop s =
     (case SLIST_FIRST list_head s of
        Inl e \<Rightarrow> Some (Inl e)
      | Inr f \<Rightarrow>
          if f = NULL then Some (Inr s)
          else (case diverging (SLIST_FOREACH exit_body list_head s) of
                  Inl e \<Rightarrow> Some (Inl e)
                | Inr (var, s1) \<Rightarrow> exit_loop (s1\<lparr>dataPointer := var\<rparr>)))"

definition exitFunction :: "server \<Rightarrow> (int \<times> server) res option" where
  "exitFunction s =
     (let s1 = close_fd (socketDescriptor s) (close_fd (socketAcceptDescriptor s) (close_fd (fileDescriptor s) s))
      in map_option (\<lambda>r. rbind r (\<lambda>s2. Inr (0, s2))) (exit_loop s1))"

section \<open>The thread list\<close>

text \<open>
  The elements of the list are exactly the live blocks, and a thread that is done was created.
\<close>

definition srv_inv :: "nat list \<Rightarrow> server \<Rightarrow> bool" where
  "srv_inv xs s \<longleftrightarrow> list_at s list_head xs \<and> set xs = dom (socketThread s) \<and>
     live_elems s = dom (socketThread s) \<and>
     (\<forall>a t. socketThread s a = Some t \<longrightarrow> isDone t \<longrightarrow> thread_ID t \<noteq> None)"

definition thread_done :: "server \<Rightarrow> nat \<Rightarrow> bool" where
  "thread_done s a = (case socketThread s a of None \<Rightarrow> False | Some t \<Rightarrow> isDone t)"

lemma store_frame: "store l p s = Inr s' \<Longrightarrow> \<exists>m. s' = s\<lparr>links := m\<rparr>"
  by (auto simp: store_def split: if_splits)

lemma set_next_frame: "set_SLIST_NEXT p q s = Inr s' \<Longrightarrow> \<exists>m. s' = s\<lparr>links := m\<rparr>"
  by (auto simp: set_SLIST_NEXT_def rbind_eq_Inr_iff dest: store_frame)

lemma SLIST_INSERT_HEAD_frame: "SLIST_INSERT_HEAD h p s = Inr s' \<Longrightarrow> \<exists>m. s' = s\<lparr>links := m\<rparr>"
  by (auto simp: SLIST_INSERT_HEAD_def rbind_eq_Inr_iff dest!: set_next_frame store_frame)

lemma SLIST_REMOVE_frame: "SLIST_REMOVE h p s = Some (Inr s') \<Longrightarrow> \<exists>m. s' = s\<lparr>links := m\<rparr>"
  by (auto simp: SLIST_REMOVE_def SLIST_REMOVE_HEAD_def SLIST_REMOVE_AFTER_def rbind_eq_Inr_iff
      split: sum.splits if_splits dest: store_frame set_next_frame)

text \<open>Removing an element from the list and freeing it.\<close>

lemma unlink_elem:
  assumes "srv_inv xs s" and "d \<in> set xs"
  shows "\<exists>s1 s2 m. SLIST_REMOVE list_head (Ptr d) s = Some (Inr s1) \<and> free_elem (Ptr d) s1 = Inr s2 \<and>
    srv_inv (remove1 d xs) s2 \<and> s2 = s\<lparr>links := m, socketThread := (socketThread s)(d := None)\<rparr>"
proof -
  have inv: "list_at s list_head xs" "set xs = dom (socketThread s)" "live_elems s = dom (socketThread s)"
    using assms(1) by (auto simp: srv_inv_def)
  obtain s1 where s1: "SLIST_REMOVE list_head (Ptr d) s = Some (Inr s1)" "list_at s1 list_head (remove1 d xs)"
    "live_elems s1 = live_elems s"
    using slist.del_law [OF inv(1) assms(2)] by blast
  obtain m where f: "s1 = s\<lparr>links := m\<rparr>"
    using SLIST_REMOVE_frame [OF s1(1)] by blast
  then have t: "socketThread s1 = socketThread s" by simp
  let ?s2 = "s1\<lparr>links := (links s1)(Next d := None), socketThread := (socketThread s1)(d := None)\<rparr>"
  have free: "free_elem (Ptr d) s1 = Inr ?s2"
    using assms(2) inv(2) t by (auto simp: free_elem_def)
  have dist: "distinct xs" by (rule list_at_distinct [OF inv(1)])
  have "list_at ?s2 list_head (remove1 d xs)"
    using s1(2) dist by (simp add: list_at_iff)
  moreover have "live_elems ?s2 = dom (socketThread ?s2)"
    using s1(3) inv(3) t by (auto simp: live_elems_def)
  moreover have "set (remove1 d xs) = dom (socketThread ?s2)"
    using inv(2) dist t by auto
  ultimately have "srv_inv (remove1 d xs) ?s2"
    using assms(1) t by (auto simp: srv_inv_def)
  moreover have "?s2 = s\<lparr>links := m(Next d := None), socketThread := (socketThread s)(d := None)\<rparr>"
    using f by simp
  ultimately show ?thesis using s1(1) free by blast
qed

lemma reap_body_busy: "socketThread s d = Some t \<Longrightarrow> \<not> isDone t \<Longrightarrow> reap_body (Ptr d) s = Inr (False, s)"
  by (simp add: reap_body_def thread_at_def)

lemma reap_body_keeps: "keeps_links reap_body"
  by (auto simp: keeps_links_def reap_body_def rbind_eq_Inr_iff split: if_splits)

lemma reap_body_done:
  assumes "srv_inv xs s" and "d \<in> set xs" and "thread_done s d"
  shows "\<exists>s' m. reap_body (Ptr d) s = Inr (True, s') \<and> srv_inv (remove1 d xs) s' \<and>
    s' = s\<lparr>links := m, socketThread := (socketThread s)(d := None)\<rparr>"
proof -
  obtain t where t: "socketThread s d = Some t" "isDone t" "thread_ID t \<noteq> None"
    using assms(1,3) by (auto simp: thread_done_def srv_inv_def split: option.splits)
  then show ?thesis
    using unlink_elem [OF assms(1,2)]
    by (auto simp: reap_body_def thread_at_def pthread_join_def diverging_def)
qed

text \<open>One pass over the list reaps the first thread that is done, if there is one.\<close>

lemma reap_pass:
  assumes "srv_inv xs s" and "set ys \<subseteq> set xs"
  shows "case find (thread_done s) ys of
      None \<Rightarrow> foreach_list reap_body ys s = Inr (NULL, s)
    | Some d \<Rightarrow> \<exists>s' m. foreach_list reap_body ys s = Inr (Ptr d, s') \<and> srv_inv (remove1 d xs) s' \<and>
        s' = s\<lparr>links := m, socketThread := (socketThread s)(d := None)\<rparr>"
  using assms(2)
proof (induction ys)
  case Nil
  then show ?case by simp
next
  case (Cons y ys)
  then have y: "y \<in> set xs" by simp
  show ?case
  proof (cases "thread_done s y")
    case True
    then show ?thesis using reap_body_done [OF assms(1) y] by auto
  next
    case False
    moreover obtain t where t: "socketThread s y = Some t"
      using y assms(1) by (auto simp: srv_inv_def)
    ultimately have "reap_body (Ptr y) s = Inr (False, s)"
      by (intro reap_body_busy [OF t]) (simp add: thread_done_def)
    with False Cons show ?thesis
      by (cases "find (thread_done s) ys") auto
  qed
qed

lemma reap_list:
  assumes "srv_inv xs s"
  shows "\<exists>var s' m. diverging (SLIST_FOREACH reap_body list_head s) = Inr (var, s') \<and>
    (case find (thread_done s) xs of
       None \<Rightarrow> srv_inv xs s' \<and> s' = s
     | Some d \<Rightarrow> srv_inv (remove1 d xs) s' \<and> s' = s\<lparr>links := m, socketThread := (socketThread s)(d := None)\<rparr>)"
proof -
  have "SLIST_FOREACH reap_body list_head s = Some (foreach_list reap_body xs s)"
    using assms by (intro SLIST_FOREACH_list reap_body_keeps) (simp add: srv_inv_def)
  then show ?thesis
    using reap_pass [OF assms, of xs] assms
    by (cases "find (thread_done s) xs") (auto simp: diverging_def)
qed

text \<open>Storing the data of a new thread.\<close>

definition new_thread :: "accept_env \<Rightarrow> ThreadsDef" where
  "new_thread e = (let t = (snd (ae_junk e))\<lparr>thread_ID := None, threadFD := ae_fd e, isDone := False\<rparr>
     in if ae_create e = None then t else t\<lparr>thread_ID := ae_create e\<rparr>)"

lemma srv_inv_dataPointer [simp]: "srv_inv xs (s\<lparr>dataPointer := p\<rparr>) = srv_inv xs s"
  by (simp add: srv_inv_def list_at_iff live_elems_def)

lemma accept_insert:
  assumes "srv_inv xs s" and "a \<notin> dom (socketThread s)"
    and s3: "s3 = s\<lparr>socketAcceptDescriptor := fd, open_fds := ofds, links := (links s)(Next a \<mapsto> q),
      socketThread := (socketThread s)(a \<mapsto> t), dataPointer := Ptr a\<rparr>"
    and t': "\<not> isDone t'"
  shows "\<exists>s4 m. SLIST_INSERT_HEAD list_head (Ptr a) s3 = Inr s4 \<and> s4 = s3\<lparr>links := m\<rparr> \<and>
    srv_inv (a # xs) (s4\<lparr>socketThread := (socketThread s4)(a \<mapsto> t')\<rparr>)"
proof -
  have inv: "list_at s list_head xs" "set xs = dom (socketThread s)" "live_elems s = dom (socketThread s)"
    using assms(1) by (auto simp: srv_inv_def)
  have a: "a \<notin> set xs" using inv(2) assms(2) by simp
  have "list_at s3 list_head xs" using inv(1) a by (simp add: s3 list_at_iff)
  moreover have live: "live_elems s3 = insert a (live_elems s)" by (auto simp: s3 live_elems_def)
  ultimately obtain s4 where s4: "SLIST_INSERT_HEAD list_head (Ptr a) s3 = Inr s4"
    "list_at s4 list_head (a # xs)" "live_elems s4 = live_elems s3"
    using slist.ins_law [of s3 list_head xs a] a by auto
  obtain m where m: "s4 = s3\<lparr>links := m\<rparr>"
    using SLIST_INSERT_HEAD_frame [OF s4(1)] by blast
  let ?s5 = "s4\<lparr>socketThread := (socketThread s4)(a \<mapsto> t')\<rparr>"
  have "list_at ?s5 list_head (a # xs)" "live_elems ?s5 = live_elems s4"
    using s4(2) by (simp_all add: list_at_iff live_elems_def)
  then have "srv_inv (a # xs) ?s5"
    using assms(1) inv live s4(3) t' m s3 by (auto simp: srv_inv_def)
  with s4(1) m show ?thesis by blast
qed

text \<open>
  A round with a working allocator: the new thread comes first, and the most recently accepted
  thread that is done is joined, removed and freed.
\<close>

definition reaped :: "server \<Rightarrow> nat list \<Rightarrow> nat list" where
  "reaped s xs = (case find (thread_done s) xs of None \<Rightarrow> xs | Some d \<Rightarrow> remove1 d xs)"

definition accepted_fds :: "accept_env \<Rightarrow> server \<Rightarrow> int set" where
  "accepted_fds e s = (if ae_fd e < 0 then open_fds s else insert (ae_fd e) (open_fds s))"

lemma accept_round_ok:
  assumes inv: "srv_inv xs s" and al: "ae_malloc e = Some a" and fresh: "a \<notin> dom (socketThread s)"
  shows "\<exists>s'. accept_round e s = Inr s' \<and> srv_inv (a # reaped s xs) s' \<and>
    socketThread s' a = Some (new_thread e) \<and> open_fds s' = accepted_fds e s \<and>
    doneFlag s' = doneFlag s \<and> present_files s' = present_files s \<and>
    (\<forall>x \<in> set (reaped s xs). socketThread s' x = socketThread s x)"
proof -
  define s3 where "s3 = s\<lparr>socketAcceptDescriptor := ae_fd e, open_fds := accepted_fds e s,
      links := (links s)(Next a \<mapsto> fst (ae_junk e)),
      socketThread := (socketThread s)(a \<mapsto> (snd (ae_junk e))\<lparr>thread_ID := None\<rparr>), dataPointer := Ptr a\<rparr>"
  have nd: "\<not> isDone (new_thread e)" by (simp add: new_thread_def Let_def)
  obtain s4 m where s4: "SLIST_INSERT_HEAD list_head (Ptr a) s3 = Inr s4" "s4 = s3\<lparr>links := m\<rparr>"
    "srv_inv (a # xs) (s4\<lparr>socketThread := (socketThread s4)(a \<mapsto> new_thread e)\<rparr>)"
    using accept_insert [OF inv fresh s3_def nd] by blast
  define s6 where "s6 = s4\<lparr>socketThread := (socketThread s4)(a \<mapsto> new_thread e)\<rparr>"
  have set_xs: "set xs = dom (socketThread s)" using inv by (simp add: srv_inv_def)
  have "find (thread_done s6) xs = find (thread_done s) xs"
    using set_xs fresh by (intro find_cong) (auto simp: thread_done_def s6_def s4(2) s3_def)
  moreover have "\<not> thread_done s6 a" using nd by (simp add: thread_done_def s6_def)
  ultimately have find: "find (thread_done s6) (a # xs) = find (thread_done s) xs" by simp
  obtain var s7 n where s7: "diverging (SLIST_FOREACH reap_body list_head s6) = Inr (var, s7)"
    and post: "case find (thread_done s) xs of
       None \<Rightarrow> srv_inv (a # xs) s7 \<and> s7 = s6
     | Some d \<Rightarrow> srv_inv (remove1 d (a # xs)) s7 \<and> s7 = s6\<lparr>links := n, socketThread := (socketThread s6)(d := None)\<rparr>"
    using reap_list [OF s4(3) [folded s6_def]] unfolding find by blast
  have t4: "socketThread s4 a = Some ((snd (ae_junk e))\<lparr>thread_ID := None\<rparr>)" "socketAcceptDescriptor s4 = ae_fd e"
    by (simp_all add: s4(2) s3_def)
  have "accept_round e s = rbind (SLIST_INSERT_HEAD list_head (Ptr a) s3) (\<lambda>s4.
        rbind (thread_at (Ptr a) s4) (\<lambda>t.
          rbind (set_thread (Ptr a) (t\<lparr>threadFD := socketAcceptDescriptor s4, isDone := False\<rparr>) s4) (\<lambda>s5.
            rbind (thread_at (Ptr a) s5) (\<lambda>t5.
              rbind (set_thread (Ptr a) (if ae_create e = None then t5 else t5\<lparr>thread_ID := ae_create e\<rparr>) s5)
                (\<lambda>s6. rbind (diverging (SLIST_FOREACH reap_body list_head s6)) (\<lambda>(var, s7).
                  Inr (s7\<lparr>dataPointer := var\<rparr>)))))))"
    by (simp add: accept_round_def malloc_elem_def al s3_def accepted_fds_def split del: if_split)
  also have "\<dots> = rbind (diverging (SLIST_FOREACH reap_body list_head s6)) (\<lambda>(var, s7).
      Inr (s7\<lparr>dataPointer := var\<rparr>))"
    using s4(1) t4 by (simp add: set_thread_def thread_at_def s6_def new_thread_def Let_def)
  finally have round: "accept_round e s = Inr (s7\<lparr>dataPointer := var\<rparr>)"
    using s7 by simp
  have s6: "socketThread s6 = (socketThread s)(a \<mapsto> new_thread e)" "open_fds s6 = accepted_fds e s"
    "doneFlag s6 = doneFlag s" "present_files s6 = present_files s"
    by (simp_all add: s6_def s4(2) s3_def)
  have a: "a \<notin> set xs" using set_xs fresh by simp
  have "srv_inv (a # reaped s xs) s7 \<and> socketThread s7 a = Some (new_thread e) \<and>
    open_fds s7 = accepted_fds e s \<and> doneFlag s7 = doneFlag s \<and> present_files s7 = present_files s \<and>
    (\<forall>x \<in> set (reaped s xs). socketThread s7 x = socketThread s x)"
  proof (cases "find (thread_done s) xs")
    case None
    with post have "srv_inv (a # xs) s7 \<and> s7 = s6" by auto
    with None a s6 show ?thesis by (auto simp: reaped_def)
  next
    case (Some d)
    then have d: "d \<in> set xs" "d \<noteq> a" using a by (auto simp: find_Some_iff)
    moreover have "distinct xs" using inv list_at_distinct by (auto simp: srv_inv_def)
    moreover from Some post have "srv_inv (remove1 d (a # xs)) s7 \<and>
      s7 = s6\<lparr>links := n, socketThread := (socketThread s6)(d := None)\<rparr>" by auto
    ultimately show ?thesis
      using Some a s6 by (auto simp: reaped_def)
  qed
  then show ?thesis
    using round by (intro exI [of _ "s7\<lparr>dataPointer := var\<rparr>"]) simp
qed

section \<open>Accepting and finishing\<close>

text \<open>
  The accept loop and the threads, interleaved: a round of the loop with a working allocator,
  and a running thread that sets its \<^verbatim>\<open>isDone\<close> flag at the end of its session.
\<close>

inductive srv_step :: "server \<Rightarrow> server \<Rightarrow> bool" where
  srv_accept: "\<not> doneFlag s \<Longrightarrow> ae_malloc e = Some a \<Longrightarrow> a \<notin> dom (socketThread s) \<Longrightarrow>
    accept_round e s = Inr s' \<Longrightarrow> srv_step s s'"
| srv_done: "socketThread s a = Some t \<Longrightarrow> thread_ID t \<noteq> None \<Longrightarrow>
    srv_step s (s\<lparr>socketThread := (socketThread s)(a \<mapsto> t\<lparr>isDone := True\<rparr>)\<rparr>)"

definition srv_start :: "server \<Rightarrow> bool" where
  "srv_start s \<longleftrightarrow> (\<exists>use_dev su s0. links s0 = [First list_head \<mapsto> NULL] \<and> socketThread s0 = Map.empty \<and>
     socket_setup use_dev su s0 = Inr s)"

definition srv_good :: "server \<Rightarrow> bool" where
  "srv_good s \<longleftrightarrow> (\<exists>xs. srv_inv xs s)"

lemma srv_good_start: "srv_start s \<Longrightarrow> srv_good s"
  by (auto simp: srv_start_def srv_good_def srv_inv_def socket_setup_def SLIST_INIT_def store_def
      list_at_iff live_elems_def Let_def split: if_splits intro!: exI [of _ "[]"])

lemma srv_good_done:
  assumes "srv_inv xs s" and "socketThread s a = Some t" and "thread_ID t \<noteq> None"
  shows "srv_inv xs (s\<lparr>socketThread := (socketThread s)(a \<mapsto> t\<lparr>isDone := True\<rparr>)\<rparr>)"
  using assms by (auto simp: srv_inv_def list_at_iff live_elems_def)

lemma srv_good_step:
  assumes "srv_good s" and "srv_step s s'"
  shows "srv_good s'"
  using assms(2,1)
proof (induction rule: srv_step.induct)
  case (srv_accept s e a s')
  then show ?case
    using accept_round_ok [of _ s e a] unfolding srv_good_def by fastforce
next
  case (srv_done s a t)
  then show ?case using srv_good_done unfolding srv_good_def by blast
qed

interpretation srv_machine: invariant_machine srv_start srv_step srv_good
  by unfold_locales (blast intro: srv_good_start srv_good_step)+

lemma srv_step_fds:
  assumes "srv_good s" and "srv_step s s'"
  shows "open_fds s \<subseteq> open_fds s'"
  using assms(2,1)
proof (induction rule: srv_step.induct)
  case (srv_accept s e a s')
  then obtain xs where "srv_inv xs s" by (auto simp: srv_good_def)
  then show ?case
    using accept_round_ok [of xs s e a] srv_accept by (auto simp: accepted_fds_def)
qed simp

lemma srv_steps_fds:
  assumes "rtranclp srv_step s t" and "srv_good s"
  shows "srv_good t \<and> open_fds s \<subseteq> open_fds t"
  using assms
proof (induction rule: rtranclp_induct)
  case (step t u)
  then show ?case using srv_step_fds srv_good_step by blast
qed simp

section \<open>The clean-up function\<close>

lemma exit_body_keeps: "keeps_links exit_body"
  by (auto simp: keeps_links_def exit_body_def rbind_eq_Inr_iff Let_def)

lemma srv_inv_close [simp]: "srv_inv xs (close_fd fd s) = srv_inv xs s"
  by (simp add: srv_inv_def list_at_iff live_elems_def close_fd_def)

lemma exit_body_ok:
  assumes "srv_inv (x # xs) s" and "socketThread s x = Some t" and "thread_ID t \<noteq> None"
  shows "\<exists>s'. exit_body (Ptr x) s = Inr (True, s') \<and> srv_inv xs s' \<and>
    socketThread s' = (socketThread s)(x := None) \<and> open_fds s' = open_fds s - {threadFD t}"
proof -
  let ?s1 = "close_fd (threadFD t) s"
  obtain s1 s2 m where "SLIST_REMOVE list_head (Ptr x) ?s1 = Some (Inr s1)" "free_elem (Ptr x) s1 = Inr s2"
    "srv_inv (remove1 x (x # xs)) s2" "s2 = ?s1\<lparr>links := m, socketThread := (socketThread ?s1)(x := None)\<rparr>"
    using unlink_elem [of "x # xs" ?s1 x] assms(1) by auto
  then show ?thesis
    using assms by (auto simp: exit_body_def thread_at_def pthread_join_def diverging_def close_fd_def Let_def)
qed

lemma exit_loop_ok:
  assumes "srv_inv xs s" and "\<forall>a t. socketThread s a = Some t \<longrightarrow> thread_ID t \<noteq> None"
  shows "\<exists>s'. exit_loop s = Some (Inr s') \<and> srv_inv [] s' \<and>
    open_fds s' = open_fds s - threadFD ` ran (socketThread s)"
  using assms
proof (induction xs arbitrary: s)
  case Nil
  then have "SLIST_FIRST list_head s = Inr NULL" "socketThread s = Map.empty"
    by (auto simp: srv_inv_def list_at_iff SLIST_FIRST_def)
  with Nil show ?case by (subst exit_loop.simps) simp
next
  case (Cons x xs)
  obtain t where t: "socketThread s x = Some t" "thread_ID t \<noteq> None"
    using Cons.prems by (fastforce simp: srv_inv_def)
  obtain s1 where s1: "exit_body (Ptr x) s = Inr (True, s1)" "srv_inv xs s1"
    "socketThread s1 = (socketThread s)(x := None)" "open_fds s1 = open_fds s - {threadFD t}"
    using exit_body_ok [OF Cons.prems(1) t] by blast
  have first: "SLIST_FIRST list_head s = Inr (Ptr x)"
    using Cons.prems(1) by (auto simp: srv_inv_def list_at_iff SLIST_FIRST_def)
  have "SLIST_FOREACH exit_body list_head s = Some (foreach_list exit_body (x # xs) s)"
    using Cons.prems(1) by (intro SLIST_FOREACH_list exit_body_keeps) (simp add: srv_inv_def)
  then have "exit_loop s = exit_loop (s1\<lparr>dataPointer := Ptr x\<rparr>)"
    using first s1(1) by (subst exit_loop.simps) (simp add: diverging_def)
  moreover have "\<forall>a t. socketThread s1 a = Some t \<longrightarrow> thread_ID t \<noteq> None"
    using s1(3) Cons.prems(2) by simp
  then obtain s' where "exit_loop (s1\<lparr>dataPointer := Ptr x\<rparr>) = Some (Inr s')" "srv_inv [] s'"
    "open_fds s' = open_fds s1 - threadFD ` ran (socketThread s1)"
    using Cons.IH [of "s1\<lparr>dataPointer := Ptr x\<rparr>"] s1(2) by auto
  moreover have "ran (socketThread s) = insert t (ran (socketThread s1))"
    using t(1) unfolding s1(3) ran_def by (auto split: if_splits) (metis option.inject)
  ultimately show ?case using s1(4) by auto
qed

end
