(* ===== verification/Socket_Properties.thy ===== *)
theory Socket_Properties
  imports Socket_Session Socket_Server Driver_Properties
begin

text \<open>
  The theorems about the socket server: the receive loop, the sessions on the character
  driver, the thread list and the clean-up, each with an instance at a concrete input.
\<close>

section \<open>Receiving\<close>

text \<open>
  A packet is received whole. When no chunk fills the receive array and the first newline
  is the last byte of the last chunk, the loop ends with the chunks appended in order, each
  up to its first zero byte, and with no other block allocated.
\<close>

theorem receive_packet:
  assumes "h0 a0 = None" and "list_all (chunk_ok h0) ps" and "list_all (\<lambda>p. NEWLINE \<notin> set (fst p)) ps"
    and "chunk_ok h0 (xs @ [NEWLINE], a')" and "NEWLINE \<notin> set xs"
    and "100 * int (length ps) + 101 < 2 ^ 31" and "0 \<le> dc" and "dc + 100 * int (length ps) + 100 < 2 ^ 31"
  shows "\<exists>st a. rx_packet h0 dc (Some a0) (rx_rounds ps @ (Recv (xs @ [NEWLINE]), Some a') # later) =
      Inr (Returns st) \<and> outputBuffer st = Ptr a \<and> dom (rx_heap st) = insert a (dom h0) \<and>
    c_string (rx_heap st) (outputBuffer st) = Inr (concat (map c_prefix (map fst ps @ [xs @ [NEWLINE]])))"
proof -
  obtain st where st: "rx_packet h0 dc (Some a0) (rx_rounds ps @ (Recv (xs @ [NEWLINE]), Some a') # later) =
      Inr (Returns st)" "rx_holds h0 (rx_string (map fst ps @ [xs @ [NEWLINE]])) st"
    using rx_packet_complete [of h0 a0, OF assms] by blast
  moreover obtain a where "outputBuffer st = Ptr a" "dom (rx_heap st) = insert a (dom h0)"
    using st(2) by (auto simp: rx_holds_def)
  ultimately show ?thesis
    using rx_holds_string [OF st(2)] by (auto simp: rx_string_def)
qed

theorem receive_packet_witness:
  "\<exists>st. rx_packet Map.empty 0 (Some 1) [(Recv ''he'', Some 2), (Recv (''llo'' @ [NEWLINE]), Some 1)] =
      Inr (Returns st) \<and> c_string (rx_heap st) (outputBuffer st) = Inr (''hello'' @ [NEWLINE])"
proof -
  have "list_all (chunk_ok Map.empty) [(''he'', 2)]" "chunk_ok Map.empty (''llo'' @ [NEWLINE], 1)"
    by (simp_all add: chunk_ok_def)
  then show ?thesis
    using receive_packet [of Map.empty 1 "[(''he'', 2)]" "''llo''" 1 0 "[]"]
    by (auto simp: rx_rounds_def simp del: rx_loop.simps)
qed

text \<open>
  A connection that fails or closes. A failed receive ends the process with status 1; a
  connection closed before a newline leaves the loop with what was received so far.
\<close>

theorem receive_ends:
  assumes "h0 a0 = None" and "list_all (chunk_ok h0) ps" and "list_all (\<lambda>p. NEWLINE \<notin> set (fst p)) ps"
    and "100 * int (length ps) + 1 < 2 ^ 31" and "0 \<le> dc" and "dc + 100 * int (length ps) < 2 ^ 31"
  shows "rx_packet h0 dc (Some a0) (rx_rounds ps @ (Recv_Error, al) # later) = Inr (Exits 1) \<and>
    (\<exists>st. rx_packet h0 dc (Some a0) (rx_rounds ps @ (Recv [], al) # later) = Inr (Returns st) \<and>
      c_string (rx_heap st) (outputBuffer st) = Inr (concat (map c_prefix (map fst ps))))"
proof -
  obtain st where st: "rx_holds h0 [] st" "rx_j st = 0" "data_count st = dc"
    "\<forall>as. rx_packet h0 dc (Some a0) as = rx_loop st as"
    using rx_packet_start [of h0 a0, OF assms(1)] by blast
  then have "rx_packet h0 dc (Some a0) (rx_rounds ps @ (Recv_Error, al) # later) = Inr (Exits 1)"
    using rx_loop_partial [OF st(1) assms(2,3)] assms(4-6) by auto
  then show ?thesis
    using rx_packet_closed [of h0 a0, OF assms, of al later] rx_holds_string by (auto simp: rx_string_def)
qed

theorem receive_ends_witness:
  "rx_packet Map.empty 0 (Some 1) [(Recv ''he'', Some 2), (Recv_Error, None)] = Inr (Exits 1)"
proof -
  have "list_all (chunk_ok Map.empty) [(''he'', 2)]" by (simp add: chunk_ok_def)
  then show ?thesis
    using receive_ends [of Map.empty 1 "[(''he'', 2)]" 0 None "[]"]
    by (auto simp: rx_rounds_def simp del: rx_loop.simps)
qed

text \<open>
  C29: Bytes after the newline overflow the buffer. When the first chunk goes on after its
  newline with a byte other than zero, appending it writes one byte past the reallocated
  block (\<^verbatim>\<open>aesdsocket.c\<close> lines 237 and 238).
\<close>

theorem receive_trailing_bytes_overflow:
  assumes "h0 a0 = None" and "h0 a' = None" and "NEWLINE \<notin> set xs" and "NUL \<notin> set xs" and "c \<noteq> NUL"
    and "length (xs @ NEWLINE # c # ys) \<le> BUFFER_SIZE" and "0 \<le> dc" and "dc + 100 < 2 ^ 31"
  shows "rx_packet h0 dc (Some a0) ((Recv (xs @ NEWLINE # c # ys), Some a') # later) = Inl Out_Of_Bounds"
  using rx_packet_overflow [of h0 a0 a', OF assms] .

theorem receive_trailing_bytes_overflow_witness:
  "rx_packet Map.empty 0 (Some 1) [(Recv (''a'' @ NEWLINE # ''b''), Some 1)] = Inl Out_Of_Bounds"
  using receive_trailing_bytes_overflow [of Map.empty 1 1 "''a''" "CHR ''b''" "[]" 0 "[]"] by simp

text \<open>
  A full chunk is read past its end. In any round, a chunk of 100 bytes without a zero
  and without a newline before its last byte makes \<^verbatim>\<open>strncat\<close> read past the receive array.
\<close>

theorem receive_full_chunk_overread:
  assumes "rx_holds h0 acc st" and "length bs = BUFFER_SIZE" and "NUL \<notin> set bs"
    and "NEWLINE \<notin> set (butlast bs)"
    and "rx_j st + 101 < 2 ^ 31" and "0 \<le> data_count st" and "data_count st + 100 < 2 ^ 31"
  shows "rx_loop st ((Recv bs, Some a') # later) = Inl Out_Of_Bounds"
proof -
  have "bs \<noteq> []" using assms(2) by auto
  then show ?thesis using rx_round_overread [OF assms] by simp
qed

theorem receive_full_chunk_overread_witness:
  "\<exists>st. rx_loop st [(Recv (replicate 100 (CHR ''x'')), Some 1)] = Inl Out_Of_Bounds"
proof -
  obtain st where "rx_holds Map.empty [] st" "rx_j st = 0" "data_count st = 0"
    using rx_packet_start [of Map.empty 1 0] by auto
  moreover have "NEWLINE \<notin> set (butlast (replicate 100 (CHR ''x'')))"
    by (auto dest: in_set_butlastD)
  ultimately show ?thesis
    using receive_full_chunk_overread [of Map.empty "[]" st "replicate 100 (CHR ''x'')" 1 "[]"]
    by (auto simp del: rx_loop.simps)
qed

section \<open>Sessions\<close>

text \<open>
  A session stores its packet and replies with the device. With the character driver as
  the data file, a packet that is no seek command becomes the newest of the ten commands,
  however standard I/O splits it into writes; the reply is the content of the device, and
  every block the thread allocated is freed.
\<close>

theorem session_appends_and_replies:
  assumes rel: "dev_rel k (cmds, pend)" and env: "rx_env_ok h0 dc env ps xs a'"
    and out: "out = rx_packet_bytes ps xs" and no_seek: "take (length ioctl_string) out \<noteq> ioctl_string"
    and ws: "sum_list (map snd (se_writes env)) = length out" "list_all (\<lambda>w. 0 < snd w) (se_writes env)"
    and ok: "pieces_ok driver_wr driver_wr_ok k (stdio_pieces out (se_writes env))"
  shows "\<exists>k' dc'. threadHandler driver_wr driver_rd driver_sk env k h0 dc =
      Some (Inr (Returns (concat (fifo_push 10 cmds (pend @ out)), k', h0, dc'))) \<and>
    dev_rel k' (fifo_push 10 cmds (pend @ out), [])"
proof -
  obtain rst where rst: "rx_packet h0 dc (se_malloc env) (se_recv env) = Inr (Returns rst)"
    "rx_holds h0 out rst" "outputBuffer rst = Ptr a'"
    using rx_env_packet [OF env] out by blast
  obtain b where b: "se_send env = Some b" "h0 b = None" "b \<noteq> a'"
    using env by (auto simp: rx_env_ok_def split: option.splits)
  then have send: "rx_heap rst b = None"
    using rst(2,3) by (auto simp: rx_holds_def)
  have blk: "se_fopen env" "0 < se_blksize env" "se_blksize env < 2 ^ 64"
    using env by (auto simp: rx_env_ok_def)
  have "NEWLINE \<notin> set (butlast out)"
    using env by (auto simp: out rx_packet_bytes_def rx_env_ok_def butlast_append list_all_iff)
  moreover have "\<not> strncmp_eq (length ioctl_string) out ioctl_string"
    using no_seek by (simp add: strncmp_eq_def)
  ultimately have "\<exists>k'. threadHandler driver_wr driver_rd driver_sk env k h0 dc =
      Some (Inr (Returns (device_bytes (device_write (cmds, pend) out), k', h0, data_count rst))) \<and>
    dev_rel k' (device_write (cmds, pend) out)"
    using sdrv.session_append [OF rel rst(1,2) _ blk(1) _ ws ok blk(2,3) b(1) send] by blast
  moreover have "device_write (cmds, pend) out = (fifo_push 10 cmds (pend @ out), [])"
    by (simp add: device_write_def out rx_packet_bytes_def)
  ultimately show ?thesis by (auto simp: device_bytes_def)
qed

definition sample_env :: "answers session_env" where
  "sample_env = \<lparr>se_malloc = Some 1, se_recv = [(Recv (''hi'' @ [NEWLINE]), Some 1)], se_fopen = True,
     se_writes = [(good_answers 100, 3)], se_junk = \<lparr>write_cmd = 0, write_cmd_offset = 0\<rparr>,
     se_ioctl = good_answers 100, se_blksize = 4096, se_send = Some 2\<rparr>"

lemma sample_env_ok: "rx_env_ok Map.empty 0 sample_env [] ''hi'' 1"
  by (simp add: rx_env_ok_def sample_env_def rx_rounds_def chunk_ok_def)

theorem session_appends_and_replies_witness:
  "\<exists>k' dc'. threadHandler driver_wr driver_rd driver_sk sample_env fresh_kernel Map.empty 0 =
      Some (Inr (Returns (''hi'' @ [NEWLINE], k', Map.empty, dc')))"
proof -
  have "pieces_ok driver_wr driver_wr_ok fresh_kernel (stdio_pieces (''hi'' @ [NEWLINE]) (se_writes sample_env))"
    using fresh_pieces_ok [of "''hi'' @ [NEWLINE]"] by (simp add: sample_env_def del: pieces_ok.simps)
  moreover have "dev_rel fresh_kernel ([], [])" using fresh_dev_rel by (simp add: empty_device_def)
  moreover have "take (length ioctl_string) (''hi'' @ [NEWLINE]) \<noteq> ioctl_string"
    by (simp add: ioctl_string_def)
  ultimately show ?thesis
    using session_appends_and_replies [of fresh_kernel "[]" "[]" Map.empty 0 sample_env "[]" "''hi''" 1, OF _ sample_env_ok refl]
    by (auto simp: rx_packet_bytes_def sample_env_def fifo_push_def simp del: pieces_ok.simps stdio_pieces.simps)
qed

lemma sscanf_seek_dec:
  assumes "a < 2 ^ 31" and "b < 2 ^ 31" and "\<not> is_digit c"
  shows "sscanf_seek (ioctl_string @ dec a @ CHR '','' # dec b @ c # rest) junk =
    Inr (junk\<lparr>write_cmd := of_nat a, write_cmd_offset := of_nat b\<rparr>)"
proof -
  have "scan_d (dec a @ CHR '','' # dec b @ c # rest) = Some (int a, CHR '','' # dec b @ c # rest)"
    by (rule scan_d_dec) (simp add: is_digit_def)
  moreover have "scan_d (dec b @ c # rest) = Some (int b, c # rest)"
    by (rule scan_d_dec [OF assms(3)])
  moreover have "int_range (int a)" "int_range (int b)"
    using assms(1,2) by (simp_all add: int_range_def)
  ultimately show ?thesis by (simp add: sscanf_seek_def)
qed

text \<open>
  The seek command is parsed back. The packet a client builds from two numbers below
  \<open>2 ^ 31\<close> in decimal notation is parsed to these numbers.
\<close>

theorem seek_command_roundtrip:
  assumes "a < 2 ^ 31" and "b < 2 ^ 31"
  shows "\<exists>seek. sscanf_seek (ioctl_string @ dec a @ '','' @ dec b @ [NEWLINE]) junk = Inr seek \<and>
    unat (write_cmd seek) = a \<and> unat (write_cmd_offset seek) = b"
proof -
  have "\<not> is_digit NEWLINE" by (simp add: is_digit_def)
  then have "sscanf_seek (ioctl_string @ dec a @ '','' @ dec b @ [NEWLINE]) junk =
      Inr (junk\<lparr>write_cmd := of_nat a, write_cmd_offset := of_nat b\<rparr>)"
    using sscanf_seek_dec [OF assms, of NEWLINE "[]" junk] by simp
  moreover have "unat (of_nat a :: uint32_t) = a" "unat (of_nat b :: uint32_t) = b"
    using assms by (simp_all add: unat_of_nat take_bit_eq_mod)
  ultimately show ?thesis by auto
qed

theorem seek_command_roundtrip_witness:
  "\<exists>seek. sscanf_seek (ioctl_string @ dec 3 @ '','' @ dec 12 @ [NEWLINE]) \<lparr>write_cmd = 0, write_cmd_offset = 0\<rparr> =
     Inr seek \<and> unat (write_cmd seek) = 3 \<and> unat (write_cmd_offset seek) = 12"
  using seek_command_roundtrip [of 3 12 "\<lparr>write_cmd = 0, write_cmd_offset = 0\<rparr>"] by simp

lemma driver_sk_unrotated:
  assumes rel: "dev_rel k (cmds, pend)" and out0: "out_offs (aesd_cb (aesd_device k)) = 0" and "missing ans = 0"
    and w: "unat (write_cmd seek) < length cmds"
    and off: "unat (write_cmd_offset seek) < length (cmds ! unat (write_cmd seek))"
  shows "\<exists>pos. driver_sk k ans 0 seek = Inr (pos, k) \<and>
    locate (map length cmds) pos = Some (unat (write_cmd seek), unat (write_cmd_offset seek))"
proof -
  let ?w = "unat (write_cmd seek)" and ?o = "unat (write_cmd_offset seek)"
  let ?p = "sum_list (take ?w (map length cmds)) + ?o"
  have few: "length cmds \<le> 10"
    using rel cb_list_bound [of "aesd_cb (aesd_device k)"]
    by (auto simp: dev_rel_def dev_data_def dest: list_all2_lengthD)
  have l: "locate (map length cmds) ?p = Some (?w, ?o)"
    using w off by (intro locate_at) auto
  then have "?p < sum_list (map length cmds)"
    using locate_None_iff [of "map length cmds" ?p] by simp
  moreover have "sum_list (map length cmds) < 2 ^ 63"
    using rel dev_data_sum(2) [of k "(cmds, pend)"] by (simp add: dev_rel_def)
  ultimately have "unat (of_nat ?p :: loff_t) = ?p"
    by (intro unat_of_nat_64) simp
  moreover have "aesd_ioctl k (opened_file 0) AESDCHAR_IOCSEEKTO seek ans =
      Inr (0, (opened_file 0)\<lparr>f_pos := of_nat ?p\<rparr>, k)"
    using aesd_ioctl_slots [OF rel opened_file_dev assms(3), of cmds seek] out0 w off few by simp
  ultimately show ?thesis
    using l by (auto simp: driver_sk_def simp del: of_nat_add)
qed


definition seek_env :: "answers session_env" where
  "seek_env = sample_env\<lparr>se_recv := [(Recv (ioctl_string @ ''0,1'' @ [NEWLINE]), Some 1)]\<rparr>"


section \<open>The server\<close>

definition boot_server :: server where
  "boot_server = \<lparr>links = [First list_head \<mapsto> NULL], socketThread = Map.empty, dataPointer = NULL,
     socketDescriptor = 0, socketAcceptDescriptor = 0, fileDescriptor = 0, daemonFlag = False,
     doneFlag = False, open_fds = {}, present_files = {}\<rparr>"

definition listening_server :: server where
  "listening_server = boot_server\<lparr>socketDescriptor := 3, fileDescriptor := 4, open_fds := {3},
     present_files := {dataFile True}\<rparr>"

lemma listening_start: "srv_start listening_server"
  unfolding srv_start_def
  by (rule exI [of _ True], rule exI [of _ "\<lparr>su_addrinfo = True, su_socket = 3, su_creat = 4\<rparr>"],
      rule exI [of _ boot_server])
    (simp add: boot_server_def listening_server_def socket_setup_def SLIST_INIT_def fun_upd_idem)

lemma listening_inv: "srv_inv [] listening_server"
  by (auto simp: srv_inv_def list_at_iff live_elems_def listening_server_def boot_server_def split: if_splits)

definition client_env :: "int \<Rightarrow> nat \<Rightarrow> accept_env" where
  "client_env fd a = \<lparr>ae_fd = fd, ae_malloc = Some a,
     ae_junk = (NULL, \<lparr>isDone = True, thread_ID = None, threadFD = 0\<rparr>), ae_create = Some 7\<rparr>"

text \<open>
  The thread list stays sound. In every state the server reaches by accepting connections
  and by threads that finish, in any order, the elements of the list are exactly the live
  blocks, without repetition, and with a working allocator the next round of the accept loop
  returns: its searches end and it never uses a freed element.
\<close>

theorem server_list_sound:
  assumes "reachable srv_start srv_step s"
  shows "\<exists>xs. list_at s list_head xs \<and> distinct xs \<and> set xs = dom (socketThread s) \<and>
    (\<forall>e a. ae_malloc e = Some a \<longrightarrow> a \<notin> dom (socketThread s) \<longrightarrow> (\<exists>s'. accept_round e s = Inr s'))"
proof -
  have "srv_good s" by (rule srv_machine.reachable_inv [OF assms])
  then obtain xs where inv: "srv_inv xs s" by (auto simp: srv_good_def)
  then have "list_at s list_head xs" "set xs = dom (socketThread s)" by (auto simp: srv_inv_def)
  moreover have "\<exists>s'. accept_round e s = Inr s'" if "ae_malloc e = Some a" "a \<notin> dom (socketThread s)" for e a
    using accept_round_ok [OF inv that] by blast
  ultimately show ?thesis using list_at_distinct by blast
qed

theorem server_list_sound_witness:
  "\<exists>s'. accept_round (client_env 5 10) listening_server = Inr s'"
  using server_list_sound [OF reach_start [of srv_start _ srv_step, OF listening_start]]
  by (auto simp: client_env_def listening_server_def boot_server_def)

text \<open>
  What a round does. The new connection comes first in the list with its descriptor and
  not done; of the older threads the first one in the list that is done, if there is one, is
  joined, removed and freed, and all others keep their data.
\<close>

theorem accept_round_effect:
  assumes "srv_inv xs s" and "ae_malloc e = Some a" and "a \<notin> dom (socketThread s)"
  shows "\<exists>s'. accept_round e s = Inr s' \<and>
    srv_inv (a # (case find (thread_done s) xs of None \<Rightarrow> xs | Some d \<Rightarrow> remove1 d xs)) s' \<and>
    (\<exists>t. socketThread s' a = Some t \<and> threadFD t = ae_fd e \<and> \<not> isDone t) \<and>
    (\<forall>x \<in> dom (socketThread s'). x = a \<or> socketThread s' x = socketThread s x)"
proof -
  obtain s' where s': "accept_round e s = Inr s'" "srv_inv (a # reaped s xs) s'"
    "socketThread s' a = Some (new_thread e)" "\<forall>x \<in> set (reaped s xs). socketThread s' x = socketThread s x"
    using accept_round_ok [OF assms] by blast
  then have "dom (socketThread s') = insert a (set (reaped s xs))" by (auto simp: srv_inv_def)
  then show ?thesis
    using s' by (auto simp: reaped_def new_thread_def Let_def)
qed

theorem accept_round_effect_witness:
  "\<exists>s'. accept_round (client_env 5 10) listening_server = Inr s' \<and> srv_inv [10] s' \<and>
     (\<exists>t. socketThread s' 10 = Some t \<and> threadFD t = 5 \<and> \<not> isDone t)"
  using accept_round_effect [OF listening_inv, of "client_env 5 10" 10]
  by (auto simp: client_env_def listening_server_def boot_server_def)

text \<open>
  Client descriptors are never closed. The descriptor of an accepted connection is still
  open in every later state of the server: neither the thread nor the loop that reaps it
  closes it.
\<close>

theorem client_descriptors_stay_open:
  assumes "srv_inv xs s" and "ae_malloc e = Some a" and "a \<notin> dom (socketThread s)" and "0 \<le> ae_fd e"
    and "accept_round e s = Inr s'" and "rtranclp srv_step s' t"
  shows "ae_fd e \<in> open_fds t"
proof -
  have "srv_good s'" "open_fds s' = accepted_fds e s"
    using accept_round_ok [OF assms(1-3)] assms(5) by (auto simp: srv_good_def)
  then show ?thesis
    using srv_steps_fds [OF assms(6)] assms(4) by (auto simp: accepted_fds_def)
qed

theorem client_descriptors_stay_open_witness:
  "\<exists>s'. accept_round (client_env 5 10) listening_server = Inr s' \<and> 5 \<in> open_fds s'"
proof -
  obtain s' where s': "accept_round (client_env 5 10) listening_server = Inr s'"
    using accept_round_ok [OF listening_inv, of "client_env 5 10" 10]
    by (auto simp: client_env_def listening_server_def boot_server_def)
  then show ?thesis
    using client_descriptors_stay_open [OF listening_inv _ _ _ s' rtranclp.rtrancl_refl [of srv_step s'], of 10]
    by (auto simp: client_env_def listening_server_def boot_server_def)
qed

text \<open>
  The clean-up function empties the list. When every thread in the list was created,
  \<^verbatim>\<open>exitFunction\<close> ends, frees every element, closes the descriptors of the clients and of the
  server and exits with status 0.
\<close>

theorem exit_function_frees:
  assumes "srv_inv xs s" and "\<forall>a t. socketThread s a = Some t \<longrightarrow> thread_ID t \<noteq> None"
  shows "\<exists>s'. exitFunction s = Some (Inr (0, s')) \<and> list_at s' list_head [] \<and> socketThread s' = Map.empty \<and>
    open_fds s' = open_fds s - {socketDescriptor s, socketAcceptDescriptor s, fileDescriptor s} -
      threadFD ` ran (socketThread s)"
proof -
  let ?s1 = "close_fd (socketDescriptor s) (close_fd (socketAcceptDescriptor s) (close_fd (fileDescriptor s) s))"
  have "srv_inv xs ?s1" using assms(1) by simp
  moreover have "\<forall>a t. socketThread ?s1 a = Some t \<longrightarrow> thread_ID t \<noteq> None"
    using assms(2) by (simp add: close_fd_def)
  ultimately obtain s' where s': "exit_loop ?s1 = Some (Inr s')" "srv_inv [] s'"
    "open_fds s' = open_fds ?s1 - threadFD ` ran (socketThread ?s1)"
    using exit_loop_ok by blast
  then have "exitFunction s = Some (Inr (0, s'))"
    by (simp add: exitFunction_def)
  with s' show ?thesis by (auto simp: srv_inv_def close_fd_def)
qed

theorem exit_function_frees_witness:
  "\<exists>s' s''. accept_round (client_env 5 10) listening_server = Inr s' \<and>
     exitFunction s' = Some (Inr (0, s'')) \<and> socketThread s'' = Map.empty"
proof -
  obtain s' where s': "accept_round (client_env 5 10) listening_server = Inr s'" "srv_inv [10] s'"
    "socketThread s' 10 = Some (new_thread (client_env 5 10))"
    using accept_round_ok [OF listening_inv, of "client_env 5 10" 10]
    by (auto simp: client_env_def listening_server_def boot_server_def reaped_def)
  have "dom (socketThread s') = {10}" using s'(2) by (auto simp: srv_inv_def)
  then have "\<forall>a t. socketThread s' a = Some t \<longrightarrow> thread_ID t \<noteq> None"
    using s'(3) by (auto simp: new_thread_def client_env_def Let_def) (metis domI option.inject option.simps(3) singletonD ThreadsDef.select_convs(2))
  then show ?thesis
    using s'(1) exit_function_frees [OF s'(2)] by blast
qed

end
