(* ===== verification/Socket_Threads.thy ===== *)
theory Socket_Threads
  imports Socket_Properties
begin

text \<open>
  The threads of the server at the same time. Each connection runs \<^verbatim>\<open>threadHandler\<close> of
  \<^verbatim>\<open>server/aesdsocket.c\<close>; the threads share the heap, the counter \<^verbatim>\<open>data_count\<close>, the data file
  (here the character driver) and \<^verbatim>\<open>mutexLock\<close>, which is held from before the file is opened to
  the end of the session. The thread is cut into steps: the first allocation, one round of
  the receive loop, taking the mutex, the branch on the packet, the reply with the clean-up,
  releasing the mutex. A round is one step, so that the update of the counter in it is not
  interrupted; the counter is read nowhere else.
\<close>

section \<open>The thread in steps\<close>

datatype cl_pc =
    Cl_Start
  | Cl_Receive ptr "byte list" int   \<comment> \<open>\<^verbatim>\<open>outputBuffer\<close>, \<^verbatim>\<open>buffer\<close>, \<^verbatim>\<open>j\<close>\<close>
  | Cl_Packet ptr                    \<comment> \<open>the loop is left, the mutex not yet taken\<close>
  | Cl_Locked ptr
  | Cl_File ptr nat                  \<comment> \<open>the packet is processed, the file is at a position\<close>
  | Cl_Finished "byte list"          \<comment> \<open>the reply is sent, the mutex still held\<close>
  | Cl_Done "byte list"
  | Cl_Exit int                      \<comment> \<open>the process has ended\<close>
  | Cl_Fault fault

text \<open>A thread, with the chunks it has received so far.\<close>

record client =
  cl_got :: "byte list list"
  cl_at :: cl_pc

text \<open>What the threads share.\<close>

record shared =
  sv_dev :: kernel
  sv_heap :: heap
  sv_count :: int
  sv_mutex :: bool

text \<open>The answers of the environment during one step.\<close>

record client_env =
  ce_al :: "nat option"
  ce_recv :: recv_answer
  ce_session :: "answers session_env"

definition cl_start :: "nat option \<Rightarrow> shared \<Rightarrow> shared \<times> cl_pc" where
  "cl_start al g =
     (let (p, h1) = malloc al (sv_heap g) BUFFER_SIZE
      in case mem_write h1 p 0 (replicate BUFFER_SIZE NUL) of
           Inl e \<Rightarrow> (g, Cl_Fault e)
         | Inr h2 \<Rightarrow> (g\<lparr>sv_heap := h2\<rparr>, Cl_Receive p (replicate BUFFER_SIZE NUL) 0))"

definition cl_receive ::
  "recv_answer \<Rightarrow> nat option \<Rightarrow> ptr \<Rightarrow> byte list \<Rightarrow> int \<Rightarrow> shared \<Rightarrow> shared \<times> cl_pc" where
  "cl_receive ans al p buffer j g =
     (case ans of
        Recv_Error \<Rightarrow> (g, Cl_Exit 1)
      | Recv bs \<Rightarrow>
          if bs = [] then (g, Cl_Packet p)
          else case rx_round \<lparr>rx_heap = sv_heap g, outputBuffer = p, rx_buffer = buffer, rx_j = j,
                              data_count = sv_count g\<rparr> bs al of
            Inl e \<Rightarrow> (g, Cl_Fault e)
          | Inr (packetComplete, st) \<Rightarrow>
              (g\<lparr>sv_heap := rx_heap st, sv_count := data_count st\<rparr>,
               if packetComplete then Cl_Packet (outputBuffer st)
               else Cl_Receive (outputBuffer st) (rx_buffer st) (rx_j st)))"

definition cl_file :: "answers session_env \<Rightarrow> ptr \<Rightarrow> shared \<Rightarrow> shared \<times> cl_pc" where
  "cl_file env p g =
     (case rbind (c_string (sv_heap g) p) (\<lambda>out. file_update driver_wr driver_sk env out (sv_dev g)) of
        Inl e \<Rightarrow> (g, Cl_Fault e)
      | Inr (pos, k) \<Rightarrow> (g\<lparr>sv_dev := k\<rparr>, Cl_File p pos))"

definition cl_send :: "answers session_env \<Rightarrow> ptr \<Rightarrow> nat \<Rightarrow> shared \<Rightarrow> shared \<times> cl_pc" where
  "cl_send env p pos g =
     (let (sendBuffer, h1) = malloc (se_send env) (sv_heap g) 1
      in case send_loop (\<lambda>q. driver_rd (sv_dev g) q (se_blksize env)) pos [] [] of
           None \<Rightarrow> (g, Cl_Fault Diverges)
         | Some r \<Rightarrow>
             (case rbind r (\<lambda>sent.
                     if sendBuffer = NULL \<and> sent \<noteq> [] then Inl Null_Deref
                     else rbind (free_ptr h1 p) (\<lambda>h2. rbind (free_ptr h2 sendBuffer) (\<lambda>h3. Inr (sent, h3)))) of
                Inl e \<Rightarrow> (g, Cl_Fault e)
              | Inr (sent, h3) \<Rightarrow> (g\<lparr>sv_heap := h3\<rparr>, Cl_Finished sent)))"

text \<open>One step of a thread, \<^term>\<open>None\<close> when it waits for the mutex or has ended.\<close>

definition cl_step :: "client_env \<Rightarrow> shared \<Rightarrow> cl_pc \<Rightarrow> (shared \<times> cl_pc) option" where
  "cl_step env g pc =
     (case pc of
        Cl_Start \<Rightarrow> Some (cl_start (ce_al env) g)
      | Cl_Receive p buffer j \<Rightarrow> Some (cl_receive (ce_recv env) (ce_al env) p buffer j g)
      | Cl_Packet p \<Rightarrow> if sv_mutex g then None else Some (g\<lparr>sv_mutex := True\<rparr>, Cl_Locked p)
      | Cl_Locked p \<Rightarrow> Some (cl_file (ce_session env) p g)
      | Cl_File p pos \<Rightarrow> Some (cl_send (ce_session env) p pos g)
      | Cl_Finished sent \<Rightarrow> Some (g\<lparr>sv_mutex := False\<rparr>, Cl_Done sent)
      | Cl_Done sent \<Rightarrow> None
      | Cl_Exit n \<Rightarrow> None
      | Cl_Fault e \<Rightarrow> None)"

section \<open>Interleaving\<close>

definition is_seek :: "byte list \<Rightarrow> bool" where
  "is_seek out \<longleftrightarrow> strncmp_eq (length ioctl_string) out ioctl_string"

definition packet :: "client \<Rightarrow> byte list" where
  "packet c = concat (cl_got c)"

text \<open>A step shows the packet it has stored in the device.\<close>

datatype sv_event = Sv_Silent | Sv_Store "byte list"

definition cl_event :: "client \<Rightarrow> sv_event" where
  "cl_event c = (case cl_at c of
      Cl_Locked p \<Rightarrow> if is_seek (packet c) then Sv_Silent else Sv_Store (packet c)
    | _ \<Rightarrow> Sv_Silent)"

definition cl_next :: "client_env \<Rightarrow> client \<Rightarrow> cl_pc \<Rightarrow> client" where
  "cl_next env c pc =
     (case (cl_at c, ce_recv env) of
        (Cl_Receive p buffer j, Recv bs) \<Rightarrow> \<lparr>cl_got = cl_got c @ [bs], cl_at = pc\<rparr>
      | _ \<Rightarrow> c\<lparr>cl_at := pc\<rparr>)"

text \<open>
  What the environment does: allocations are granted at free addresses; a chunk does not fill
  the receive array, has no zero byte, and a newline is its last byte; the counters are
  not at their limit; the file opens; the writes of standard I/O cover the packet and the kernel
  grants them; a seek command has two numbers in range, the first not 10.
\<close>

definition chunk_fits :: "byte list \<Rightarrow> bool" where
  "chunk_fits bs \<longleftrightarrow> length bs < BUFFER_SIZE \<and> NUL \<notin> set bs \<and> NEWLINE \<notin> set (butlast bs)"

definition file_env_ok :: "answers session_env \<Rightarrow> byte list \<Rightarrow> kernel \<Rightarrow> bool" where
  "file_env_ok env out k \<longleftrightarrow> se_fopen env \<and>
     (if is_seek out
      then (case sscanf_seek out (se_junk env) of Inl e \<Rightarrow> False | Inr seek \<Rightarrow> driver_sk_ok k (se_ioctl env) 0 seek)
      else sum_list (map snd (se_writes env)) = length out \<and> list_all (\<lambda>w. 0 < snd w) (se_writes env) \<and>
        pieces_ok driver_wr driver_wr_ok k (stdio_pieces out (se_writes env)))"

definition cl_env_ok :: "client_env \<Rightarrow> shared \<Rightarrow> client \<Rightarrow> bool" where
  "cl_env_ok env g c \<longleftrightarrow>
     (case cl_at c of
        Cl_Start \<Rightarrow> (case ce_al env of None \<Rightarrow> False | Some a \<Rightarrow> sv_heap g a = None)
      | Cl_Receive p buffer j \<Rightarrow>
          (case ce_recv env of Recv_Error \<Rightarrow> False | Recv bs \<Rightarrow> chunk_fits bs) \<and>
          (case ce_al env of None \<Rightarrow> False | Some a \<Rightarrow> sv_heap g a = None \<or> Ptr a = p) \<and>
          j + 101 < 2 ^ 31 \<and> sv_count g + 100 < 2 ^ 31
      | Cl_Locked p \<Rightarrow> file_env_ok (ce_session env) (packet c) (sv_dev g)
      | Cl_File p pos \<Rightarrow> 0 < se_blksize (ce_session env) \<and> se_blksize (ce_session env) < 2 ^ 64 \<and>
          (case se_send (ce_session env) of None \<Rightarrow> False | Some b \<Rightarrow> sv_heap g b = None)
      | _ \<Rightarrow> True)"

inductive sv_step :: "shared \<times> client list \<Rightarrow> sv_event \<Rightarrow> shared \<times> client list \<Rightarrow> bool" where
  Step_Client: "\<lbrakk>i < length cs; cl_env_ok env g (cs ! i); cl_step env g (cl_at (cs ! i)) = Some (g', pc)\<rbrakk> \<Longrightarrow>
    sv_step (g, cs) (cl_event (cs ! i)) (g', cs[i := cl_next env (cs ! i) pc])"

abbreviation sv_run :: "shared \<times> client list \<Rightarrow> sv_event list \<Rightarrow> shared \<times> client list \<Rightarrow> bool" where
  "sv_run \<equiv> run sv_step"

text \<open>The packets stored in a run, in order.\<close>

fun stores :: "sv_event list \<Rightarrow> byte list list" where
  "stores [] = []"
| "stores (Sv_Silent # tr) = stores tr"
| "stores (Sv_Store out # tr) = out # stores tr"

lemma stores_append [simp]: "stores (tr @ tr') = stores tr @ stores tr'"
  by (induction tr rule: stores.induct) auto

section \<open>A thread by itself\<close>

fun cl_rounds :: "(recv_answer \<times> nat option) list \<Rightarrow> shared \<Rightarrow> cl_pc \<Rightarrow> shared \<times> cl_pc" where
  "cl_rounds [] g pc = (g, pc)"
| "cl_rounds ((ans, al) # as) g pc =
     (case pc of
        Cl_Receive p buffer j \<Rightarrow> (case cl_receive ans al p buffer j g of (g', pc') \<Rightarrow> cl_rounds as g' pc')
      | _ \<Rightarrow> (g, pc))"

text \<open>The steps in the order of the code, with the mutex free, up to its release.\<close>

definition session_alone :: "answers session_env \<Rightarrow> shared \<Rightarrow> shared \<times> cl_pc" where
  "session_alone env g =
     (case cl_start (se_malloc env) g of (g1, pc1) \<Rightarrow>
        (case cl_rounds (se_recv env) g1 pc1 of
           (g2, Cl_Packet p) \<Rightarrow>
             (case cl_file env p (g2\<lparr>sv_mutex := True\<rparr>) of
                (g3, Cl_File q pos) \<Rightarrow> cl_send env q pos g3
              | other \<Rightarrow> other)
         | other \<Rightarrow> other))"

abbreviation rx_of :: "shared \<Rightarrow> ptr \<Rightarrow> byte list \<Rightarrow> int \<Rightarrow> rx_state" where
  "rx_of g p buffer j \<equiv>
     \<lparr>rx_heap = sv_heap g, outputBuffer = p, rx_buffer = buffer, rx_j = j, data_count = sv_count g\<rparr>"

lemma cl_rounds_stop: "(\<forall>p b j. pc \<noteq> Cl_Receive p b j) \<Longrightarrow> cl_rounds as g pc = (g, pc)"
  by (cases as) (auto split: cl_pc.splits)

lemma cl_rounds_rx_loop:
  "case rx_loop (rx_of g p buffer j) as of
     Inl e \<Rightarrow> (case cl_rounds as g (Cl_Receive p buffer j) of (g', pc) \<Rightarrow>
       pc = Cl_Fault e \<or> e = Blocks \<and> (\<exists>q b i. pc = Cl_Receive q b i))
   | Inr (Exits n) \<Rightarrow> snd (cl_rounds as g (Cl_Receive p buffer j)) = Cl_Exit n
   | Inr (Returns st) \<Rightarrow> cl_rounds as g (Cl_Receive p buffer j) =
       (g\<lparr>sv_heap := rx_heap st, sv_count := data_count st\<rparr>, Cl_Packet (outputBuffer st))"
proof (induction as arbitrary: g p buffer j)
  case Nil
  then show ?case by simp
next
  case (Cons a as)
  obtain ans al where a: "a = (ans, al)" by (cases a)
  show ?case
  proof (cases ans)
    case Recv_Error
    then show ?thesis by (simp add: a cl_receive_def cl_rounds_stop)
  next
    case (Recv bs)
    show ?thesis
    proof (cases "bs = []")
      case True
      then show ?thesis by (simp add: a Recv cl_receive_def cl_rounds_stop)
    next
      case False
      show ?thesis
      proof (cases "rx_round (rx_of g p buffer j) bs al")
        case (Inl e)
        then show ?thesis using False by (simp add: a Recv cl_receive_def cl_rounds_stop)
      next
        case (Inr r)
        obtain complete st where r: "r = (complete, st)" by (cases r)
        let ?g = "g\<lparr>sv_heap := rx_heap st, sv_count := data_count st\<rparr>"
        have st: "rx_of ?g (outputBuffer st) (rx_buffer st) (rx_j st) = st" by simp
        note IH = Cons.IH [of ?g "outputBuffer st" "rx_buffer st" "rx_j st", unfolded st]
        show ?thesis
        proof (cases complete)
          case True
          then show ?thesis using Inr r False by (simp add: a Recv cl_receive_def cl_rounds_stop)
        next
          case incomplete: False
          then have "rx_loop (rx_of g p buffer j) (a # as) = rx_loop st as"
            "cl_rounds (a # as) g (Cl_Receive p buffer j) =
               cl_rounds as ?g (Cl_Receive (outputBuffer st) (rx_buffer st) (rx_j st))"
            using Inr r False by (simp_all add: a Recv cl_receive_def)
          then show ?thesis using IH by (auto split: sum.splits proc.splits)
        qed
      qed
    qed
  qed
qed

lemma rx_packet_steps:
  "case rx_packet (sv_heap g) (sv_count g) al as of
     Inl e \<Rightarrow> (case (case cl_start al g of (g1, pc1) \<Rightarrow> cl_rounds as g1 pc1) of (g', pc) \<Rightarrow>
       pc = Cl_Fault e \<or> e = Blocks \<and> (\<exists>q b i. pc = Cl_Receive q b i))
   | Inr (Exits n) \<Rightarrow> snd (case cl_start al g of (g1, pc1) \<Rightarrow> cl_rounds as g1 pc1) = Cl_Exit n
   | Inr (Returns st) \<Rightarrow> (case cl_start al g of (g1, pc1) \<Rightarrow> cl_rounds as g1 pc1) =
       (g\<lparr>sv_heap := rx_heap st, sv_count := data_count st\<rparr>, Cl_Packet (outputBuffer st))"
proof -
  obtain p h1 where m: "malloc al (sv_heap g) BUFFER_SIZE = (p, h1)" by (cases "malloc al (sv_heap g) BUFFER_SIZE")
  show ?thesis
  proof (cases "mem_write h1 p 0 (replicate BUFFER_SIZE NUL)")
    case (Inl e)
    then show ?thesis using m by (simp add: rx_packet_def cl_start_def cl_rounds_stop)
  next
    case (Inr h2)
    let ?g = "g\<lparr>sv_heap := h2\<rparr>"
    have "rx_packet (sv_heap g) (sv_count g) al as = rx_loop (rx_of ?g p (replicate BUFFER_SIZE NUL) 0) as"
      "(case cl_start al g of (g1, pc1) \<Rightarrow> cl_rounds as g1 pc1) =
         cl_rounds as ?g (Cl_Receive p (replicate BUFFER_SIZE NUL) 0)"
      using m Inr by (simp_all add: rx_packet_def cl_start_def)
    then show ?thesis
      using cl_rounds_rx_loop [where g = ?g and p = p and buffer = "replicate BUFFER_SIZE NUL" and j = 0 and as = as]
      by (auto split: sum.splits proc.splits)
  qed
qed

lemma session_alone_threadHandler:
  "case threadHandler driver_wr driver_rd driver_sk env (sv_dev g) (sv_heap g) (sv_count g) of
     None \<Rightarrow> snd (session_alone env g) = Cl_Fault Diverges
   | Some (Inl e) \<Rightarrow> snd (session_alone env g) = Cl_Fault e \<or>
       e = Blocks \<and> (\<exists>q b i. snd (session_alone env g) = Cl_Receive q b i)
   | Some (Inr (Exits n)) \<Rightarrow> snd (session_alone env g) = Cl_Exit n
   | Some (Inr (Returns (sent, k, h, dc))) \<Rightarrow>
       session_alone env g = (\<lparr>sv_dev = k, sv_heap = h, sv_count = dc, sv_mutex = True\<rparr>, Cl_Finished sent)"
proof -
  let ?rx = "case cl_start (se_malloc env) g of (g1, pc1) \<Rightarrow> cl_rounds (se_recv env) g1 pc1"
  have alone: "session_alone env g =
      (case ?rx of
         (g2, Cl_Packet p) \<Rightarrow>
           (case cl_file env p (g2\<lparr>sv_mutex := True\<rparr>) of (g3, Cl_File q pos) \<Rightarrow> cl_send env q pos g3 | other \<Rightarrow> other)
       | other \<Rightarrow> other)"
    by (simp add: session_alone_def split: prod.splits)
  note steps = rx_packet_steps [where g = g and al = "se_malloc env" and as = "se_recv env"]
  show ?thesis
  proof (cases "rx_packet (sv_heap g) (sv_count g) (se_malloc env) (se_recv env)")
    case (Inl e)
    obtain g' pc where rx: "?rx = (g', pc)" by (cases ?rx)
    then show ?thesis using Inl steps by (auto simp: threadHandler_def alone rx simp del: split_paired_Ex)
  next
    case (Inr r)
    show ?thesis
    proof (cases r)
      case (Exits n)
      then show ?thesis using Inr steps by (cases ?rx) (auto simp: threadHandler_def alone)
    next
      case (Returns st)
      let ?g = "g\<lparr>sv_heap := rx_heap st, sv_count := data_count st, sv_mutex := True\<rparr>"
      have "?rx = (g\<lparr>sv_heap := rx_heap st, sv_count := data_count st\<rparr>, Cl_Packet (outputBuffer st))"
        using Inr Returns steps by simp
      then have alone: "session_alone env g =
          (case cl_file env (outputBuffer st) ?g of (g3, Cl_File q pos) \<Rightarrow> cl_send env q pos g3 | other \<Rightarrow> other)"
        by (simp add: alone)
      let ?f = "rbind (c_string (rx_heap st) (outputBuffer st)) (\<lambda>out. file_update driver_wr driver_sk env out (sv_dev g))"
      show ?thesis
      proof (cases ?f)
        case (Inl e)
        then show ?thesis using \<open>rx_packet _ _ _ _ = Inr r\<close> Returns by (simp add: threadHandler_def alone cl_file_def)
      next
        case (Inr pk)
        obtain pos k where pk: "pk = (pos, k)" by (cases pk)
        obtain b h1 where m: "malloc (se_send env) (rx_heap st) 1 = (b, h1)" by (cases "malloc (se_send env) (rx_heap st) 1")
        show ?thesis
          using \<open>rx_packet _ _ _ _ = Inr r\<close> Returns Inr pk m
          by (cases "send_loop (\<lambda>p. driver_rd k p (se_blksize env)) pos [] []")
            (auto simp: threadHandler_def alone cl_file_def cl_send_def rbind_def split: sum.splits)
      qed
    qed
  qed
qed

end
