(* ===== verification/Socket_Sharing.thy ===== *)
theory Socket_Sharing
  imports Socket_Threads
begin

text \<open>
  The invariant of every interleaving of the server's threads: each thread owns the block its
  packet is collected in, at most one is between taking and releasing the mutex, and the
  device is the one of the packets stored so far.
\<close>

section \<open>A thread and its block\<close>

definition str_at :: "heap \<Rightarrow> ptr \<Rightarrow> byte list \<Rightarrow> bool" where
  "str_at h p acc \<longleftrightarrow>
     (\<exists>a rest. p = Ptr a \<and> h a = Some (map Some acc @ Some NUL # rest)) \<and> NUL \<notin> set acc"

fun cl_ptr :: "cl_pc \<Rightarrow> ptr option" where
  "cl_ptr (Cl_Receive p buffer j) = Some p"
| "cl_ptr (Cl_Packet p) = Some p"
| "cl_ptr (Cl_Locked p) = Some p"
| "cl_ptr (Cl_File p pos) = Some p"
| "cl_ptr _ = None"

fun cl_holds :: "cl_pc \<Rightarrow> bool" where
  "cl_holds (Cl_Locked p) = True"
| "cl_holds (Cl_File p pos) = True"
| "cl_holds (Cl_Finished sent) = True"
| "cl_holds _ = False"

definition client_ok :: "heap \<Rightarrow> client \<Rightarrow> bool" where
  "client_ok h c \<longleftrightarrow>
     (case cl_at c of
        Cl_Start \<Rightarrow> cl_got c = []
      | Cl_Receive p buffer j \<Rightarrow> str_at h p (packet c) \<and> buffer = replicate BUFFER_SIZE NUL \<and>
          int (length (packet c)) \<le> j \<and> NEWLINE \<notin> set (packet c)
      | Cl_Packet p \<Rightarrow> str_at h p (packet c) \<and> NEWLINE \<notin> set (butlast (packet c))
      | Cl_Locked p \<Rightarrow> str_at h p (packet c) \<and> NEWLINE \<notin> set (butlast (packet c))
      | Cl_File p pos \<Rightarrow> str_at h p (packet c) \<and> pos < 2 ^ 64
      | Cl_Finished sent \<Rightarrow> True
      | Cl_Done sent \<Rightarrow> True
      | Cl_Exit n \<Rightarrow> False
      | Cl_Fault e \<Rightarrow> False)"

lemma client_ok_str: "client_ok h c \<Longrightarrow> cl_ptr (cl_at c) = Some p \<Longrightarrow> str_at h p (packet c)"
  by (cases "cl_at c") (auto simp: client_ok_def)

text \<open>
  A step of a thread that owns \<open>p\<close> and then \<open>q\<close>: the other blocks stay as they are, the new
  block was free and the old one is freed unless it is kept.
\<close>

definition moves :: "heap \<Rightarrow> heap \<Rightarrow> ptr option \<Rightarrow> ptr option \<Rightarrow> bool" where
  "moves h h' p q \<longleftrightarrow> (\<forall>b. p \<noteq> Some (Ptr b) \<longrightarrow> q \<noteq> Some (Ptr b) \<longrightarrow> h' b = h b) \<and>
     (\<forall>b. q = Some (Ptr b) \<longrightarrow> p = q \<or> h b = None) \<and>
     (\<forall>b. p = Some (Ptr b) \<longrightarrow> p = q \<or> h' b = None)"

lemma moves_refl [simp]: "moves h h p p"
  by (auto simp: moves_def)

lemma moves_other: "moves h h' p q \<Longrightarrow> p \<noteq> Some (Ptr b) \<Longrightarrow> h b \<noteq> None \<Longrightarrow> h' b = h b"
  by (auto simp: moves_def)

lemma client_ok_other:
  assumes "moves h h' p q" and "client_ok h c" and "cl_ptr (cl_at c) = None \<or> cl_ptr (cl_at c) \<noteq> p"
  shows "client_ok h' c"
proof -
  have "str_at h r (packet c) \<Longrightarrow> cl_ptr (cl_at c) = Some r \<Longrightarrow> str_at h' r (packet c)" for r
    using moves_other [OF assms(1)] assms(3) by (fastforce simp: str_at_def)
  then show ?thesis
    using assms(2) by (cases "cl_at c") (auto simp: client_ok_def)
qed

definition heap_ok :: "heap \<Rightarrow> client list \<Rightarrow> bool" where
  "heap_ok h cs \<longleftrightarrow> (\<forall>c \<in> set cs. client_ok h c) \<and>
     (\<forall>i < length cs. \<forall>j < length cs. i \<noteq> j \<longrightarrow> cl_ptr (cl_at (cs ! i)) \<noteq> None \<longrightarrow>
        cl_ptr (cl_at (cs ! i)) \<noteq> cl_ptr (cl_at (cs ! j)))"

lemma heap_ok_step:
  assumes ok: "heap_ok h cs" and i: "i < length cs" and m: "moves h h' (cl_ptr (cl_at (cs ! i))) (cl_ptr (cl_at c'))"
    and c': "client_ok h' c'"
  shows "heap_ok h' (cs[i := c'])"
  unfolding heap_ok_def
proof (intro conjI ballI allI impI)
  have other: "cl_ptr (cl_at (cs ! j)) = None \<or> cl_ptr (cl_at (cs ! j)) \<noteq> cl_ptr (cl_at (cs ! i))"
    if "j < length cs" "j \<noteq> i" for j
    using ok i that by (auto simp: heap_ok_def)
  have cok: "client_ok h (cs ! j)" if "j < length cs" for j
    using ok that by (simp add: heap_ok_def)
  fix c
  assume "c \<in> set (cs[i := c'])"
  then obtain j where j: "j < length cs" "c = cs[i := c'] ! j" by (auto simp: in_set_conv_nth)
  then show "client_ok h' c"
    using c' client_ok_other [OF m cok other] by (cases "j = i") auto
next
  fix j l
  assume j: "j < length (cs[i := c'])" and l: "l < length (cs[i := c'])" and ne: "j \<noteq> l"
    and p: "cl_ptr (cl_at (cs[i := c'] ! j)) \<noteq> None"
  have cok: "client_ok h (cs ! j)" if "j < length cs" for j
    using ok that by (simp add: heap_ok_def)
  have dist: "cl_ptr (cl_at (cs ! j)) \<noteq> None \<Longrightarrow> cl_ptr (cl_at (cs ! j)) \<noteq> cl_ptr (cl_at (cs ! l))"
    if "j < length cs" "l < length cs" "j \<noteq> l" for j l
    using ok that by (simp add: heap_ok_def)
  have own: "cl_ptr (cl_at (cs ! j)) \<noteq> cl_ptr (cl_at c')"
    if j: "j < length cs" "j \<noteq> i" "cl_ptr (cl_at c') \<noteq> None" for j
  proof
    assume eq: "cl_ptr (cl_at (cs ! j)) = cl_ptr (cl_at c')"
    then obtain r where r: "cl_ptr (cl_at (cs ! j)) = Some r" using j(3) by auto
    then obtain b where "r = Ptr b" "h b \<noteq> None"
      using client_ok_str [OF cok [OF j(1)]] by (auto simp: str_at_def)
    then have "cl_ptr (cl_at (cs ! i)) = cl_ptr (cl_at (cs ! j))"
      using m eq r unfolding moves_def by metis
    then show False using dist [of j i] j i r by auto
  qed
  show "cl_ptr (cl_at (cs[i := c'] ! j)) \<noteq> cl_ptr (cl_at (cs[i := c'] ! l))"
    using own [of l] own [of j] dist [of j l] j l ne p by (cases "j = i"; cases "l = i") auto
qed

text \<open>Apart from the blocks of the threads the heap stays what it was at the start.\<close>

definition blocks_ok :: "heap \<Rightarrow> heap \<Rightarrow> client list \<Rightarrow> bool" where
  "blocks_ok h0 h cs \<longleftrightarrow>
     (\<forall>b. if \<exists>c \<in> set cs. cl_ptr (cl_at c) = Some (Ptr b) then h0 b = None else h b = h0 b)"

lemma owned_upd:
  assumes "heap_ok h cs" and "i < length cs"
  shows "(\<exists>c \<in> set (cs[i := c']). cl_ptr (cl_at c) = Some p) \<longleftrightarrow>
    cl_ptr (cl_at c') = Some p \<or> cl_ptr (cl_at (cs ! i)) \<noteq> Some p \<and> (\<exists>c \<in> set cs. cl_ptr (cl_at c) = Some p)"
proof -
  have "cl_ptr (cl_at (cs ! i)) \<noteq> Some p" if "j < length cs" "j \<noteq> i" "cl_ptr (cl_at (cs ! j)) = Some p" for j
    using assms that unfolding heap_ok_def by (metis option.distinct(1))
  then show ?thesis
    using assms(2) by (fastforce simp: in_set_conv_nth nth_list_update Bex_def split: if_splits)
qed

lemma blocks_ok_step:
  assumes ok: "heap_ok h cs" "blocks_ok h0 h cs" and i: "i < length cs"
    and m: "moves h h' (cl_ptr (cl_at (cs ! i))) (cl_ptr (cl_at c'))"
  shows "blocks_ok h0 h' (cs[i := c'])"
  unfolding blocks_ok_def owned_upd [OF ok(1) i]
proof
  fix b
  let ?p = "cl_ptr (cl_at (cs ! i))" and ?q = "cl_ptr (cl_at c')" and ?own = "\<exists>c \<in> set cs. cl_ptr (cl_at c) = Some (Ptr b)"
  have b: "if ?own then h0 b = None else h b = h0 b" using ok(2) by (simp add: blocks_ok_def)
  have p: "?own" if "?p = Some (Ptr b)" using i that nth_mem by blast
  show "if ?q = Some (Ptr b) \<or> ?p \<noteq> Some (Ptr b) \<and> ?own then h0 b = None else h' b = h0 b"
  proof (cases "?q = Some (Ptr b)")
    case True
    then have "?p = Some (Ptr b) \<or> h b = None" using m unfolding moves_def by metis
    then show ?thesis using True b p by (auto split: if_splits)
  next
    case False
    then have "?p = Some (Ptr b) \<Longrightarrow> h' b = None" "?p \<noteq> Some (Ptr b) \<Longrightarrow> h' b = h b"
      using m unfolding moves_def by metis+
    then show ?thesis using False b p by (auto split: if_splits)
  qed
qed

section \<open>The steps\<close>

lemma rx_holds_str:
  assumes "str_at h (Ptr a) acc" and "int (length acc) \<le> j"
  shows "rx_holds (h(a := None)) acc \<lparr>rx_heap = h, outputBuffer = Ptr a, rx_buffer = replicate BUFFER_SIZE NUL,
    rx_j = j, data_count = n\<rparr>"
  using assms by (auto simp: rx_holds_def str_at_def fun_eq_iff)

lemma rx_holds_str_at:
  assumes "rx_holds (h(a := None)) acc st"
  shows "str_at (rx_heap st) (outputBuffer st) acc"
    and "moves h (rx_heap st) (Some (Ptr a)) (Some (outputBuffer st))"
  using assms by (auto simp: rx_holds_def str_at_def moves_def split: if_splits)

lemma scan_chunk:
  assumes "length bs < BUFFER_SIZE" and "NEWLINE \<notin> set (butlast bs)"
  shows "\<exists>i. scan_loop (bs @ replicate (BUFFER_SIZE - length bs) NUL) 0 = Inr (i, NEWLINE \<in> set bs) \<and>
    length bs \<le> i \<and> i \<le> BUFFER_SIZE"
proof (cases "NEWLINE \<in> set bs")
  case False
  then have "scan_loop (bs @ replicate (BUFFER_SIZE - length bs) NUL) 0 = Inr (BUFFER_SIZE, False)"
    using assms(1) by (intro scan_loop_no_newline) auto
  then show ?thesis using False assms(1) by auto
next
  case True
  then have ne: "bs \<noteq> []" by auto
  have "last bs = NEWLINE"
    using True assms(2) append_butlast_last_id [OF ne] by (metis Un_iff set_append set_ConsD empty_iff list.set(1))
  then have bs: "bs = butlast bs @ [NEWLINE]" using append_butlast_last_id [OF ne] by simp
  have "length (butlast bs) < BUFFER_SIZE" using assms(1) by simp
  then have "scan_loop (butlast bs @ NEWLINE # replicate (BUFFER_SIZE - length bs) NUL) 0 = Inr (length (butlast bs) + 1, True)"
    by (intro scan_loop_newline [OF assms(2)])
  moreover have "butlast bs @ NEWLINE # replicate (BUFFER_SIZE - length bs) NUL = bs @ replicate (BUFFER_SIZE - length bs) NUL"
    using bs by (metis append.assoc append_Cons append_Nil)
  ultimately have "scan_loop (bs @ replicate (BUFFER_SIZE - length bs) NUL) 0 = Inr (length bs, NEWLINE \<in> set bs)"
    using True ne by simp
  then show ?thesis using assms(1) by auto
qed

lemma cl_receive_round:
  assumes at: "str_at (sv_heap g) p acc" and j: "int (length acc) \<le> j" "j + 101 < 2 ^ 31"
    and n: "0 \<le> sv_count g" "sv_count g + 100 < 2 ^ 31" and bs: "chunk_fits bs" "bs \<noteq> []"
    and a': "sv_heap g a' = None \<or> Ptr a' = p"
  shows "\<exists>st. rx_round \<lparr>rx_heap = sv_heap g, outputBuffer = p, rx_buffer = replicate BUFFER_SIZE NUL, rx_j = j,
      data_count = sv_count g\<rparr> bs (Some a') = Inr (NEWLINE \<in> set bs, st) \<and>
    str_at (rx_heap st) (outputBuffer st) (acc @ bs) \<and> moves (sv_heap g) (rx_heap st) (Some p) (Some (outputBuffer st)) \<and>
    0 \<le> data_count st \<and> rx_buffer st = replicate BUFFER_SIZE NUL \<and> int (length (acc @ bs)) \<le> rx_j st"
proof -
  let ?st = "\<lparr>rx_heap = sv_heap g, outputBuffer = p, rx_buffer = replicate BUFFER_SIZE NUL, rx_j = j,
      data_count = sv_count g\<rparr>"
  obtain a where p: "p = Ptr a" using at by (auto simp: str_at_def)
  have hold: "rx_holds ((sv_heap g)(a := None)) acc ?st" using rx_holds_str at j(1) p by blast
  have fit: "length bs < BUFFER_SIZE" "NEWLINE \<notin> set (butlast bs)" "c_prefix bs = bs"
    using bs(1) by (auto simp: chunk_fits_def takeWhile_eq_all_conv)
  obtain i where i: "scan_loop (bs @ replicate (BUFFER_SIZE - length bs) NUL) 0 = Inr (i, NEWLINE \<in> set bs)"
    "length bs \<le> i" "i \<le> BUFFER_SIZE"
    using scan_chunk [OF fit(1,2)] by blast
  have "((sv_heap g)(a := None)) a' = None" using a' p by auto
  then obtain st where st: "rx_round ?st bs (Some a') = Inr (NEWLINE \<in> set bs, st)"
    "rx_holds ((sv_heap g)(a := None)) (acc @ bs) st" "rx_j st = j + int i" "data_count st = sv_count g + int i"
    using rx_round_append [OF hold fit(1) _ i, of a'] j n i(3) fit(3) by auto
  then show ?thesis
    using rx_holds_str_at [OF st(2)] n(1) p by (auto simp: rx_holds_def)
qed

lemma str_at_zeros: "str_at (h(a \<mapsto> map Some (replicate BUFFER_SIZE NUL))) (Ptr a) []"
proof -
  obtain m where m: "BUFFER_SIZE = Suc m" by (simp add: numeral_eq_Suc)
  show ?thesis unfolding str_at_def by (simp add: m)
qed

lemma cl_start_ok:
  assumes "sv_heap g a = None"
  shows "\<exists>h. cl_start (Some a) g = (g\<lparr>sv_heap := h\<rparr>, Cl_Receive (Ptr a) (replicate BUFFER_SIZE NUL) 0) \<and>
    str_at h (Ptr a) [] \<and> moves (sv_heap g) h None (Some (Ptr a))"
proof -
  let ?h = "(sv_heap g)(a \<mapsto> map Some (replicate BUFFER_SIZE NUL))"
  show ?thesis
    using assms str_at_zeros [of "sv_heap g" a] by (intro exI [of _ ?h]) (auto simp: cl_start_def malloc_def mem_write_def moves_def)
qed

lemma cl_file_ok:
  assumes at: "str_at (sv_heap g) p out" and nl: "NEWLINE \<notin> set (butlast out)" and rel: "dev_rel (sv_dev g) d"
    and ok: "file_env_ok env out (sv_dev g)"
  shows "\<exists>k pos. cl_file env p g = (g\<lparr>sv_dev := k\<rparr>, Cl_File p pos) \<and> pos < 2 ^ 64 \<and>
    dev_rel k (if is_seek out then d else device_write d out) \<and> (\<not> is_seek out \<longrightarrow> pos = 0)"
proof -
  have str: "c_string (sv_heap g) p = Inr out" using at by (auto simp: str_at_def intro: c_string_block)
  show ?thesis
  proof (cases "is_seek out")
    case True
    then obtain seek where seek: "sscanf_seek out (se_junk env) = Inr seek"
      "driver_sk_ok (sv_dev g) (se_ioctl env) 0 seek"
      using ok by (auto simp: file_env_ok_def split: sum.splits)
    then obtain pos where "driver_sk (sv_dev g) (se_ioctl env) 0 seek = Inr (pos, sv_dev g)" "pos < 2 ^ 64"
      using driver_sk_law [OF rel] by blast
    then show ?thesis
      using True seek(1) str ok rel
      by (intro exI [of _ "sv_dev g"] exI [of _ pos]) (simp add: cl_file_def file_update_def file_env_ok_def is_seek_def)
  next
    case False
    let ?ps = "stdio_pieces out (se_writes env)"
    have env: "se_fopen env" "sum_list (map snd (se_writes env)) = length out" "list_all (\<lambda>w. 0 < snd w) (se_writes env)"
      "pieces_ok driver_wr driver_wr_ok (sv_dev g) ?ps"
      using ok False by (auto simp: file_env_ok_def)
    have "foldl device_write (fst d, snd d) (map snd ?ps) = device_write (fst d, snd d) out"
      using device_write_split [of "snd d" "map snd ?ps" "fst d"] drv.no_pending_newline [OF rel] nl
        stdio_pieces_concat [OF env(2)] stdio_pieces_nonempty [OF env(2,3)] by (simp add: list_all_iff)
    then obtain k where "write_pieces driver_wr (sv_dev g) ?ps = Inr k" "dev_rel k (device_write d out)"
      using drv.write_pieces_fold [OF rel env(4)] by auto
    then show ?thesis
      using False env(1) str
      by (intro exI [of _ k] exI [of _ 0]) (simp add: cl_file_def file_update_def is_seek_def)
  qed
qed

lemma cl_send_ok:
  assumes at: "str_at (sv_heap g) p out" and rel: "dev_rel (sv_dev g) d" and pos: "pos < 2 ^ 64"
    and blk: "0 < se_blksize env" "se_blksize env < 2 ^ 64" and b: "se_send env = Some b" "sv_heap g b = None"
  shows "\<exists>h. cl_send env p pos g = (g\<lparr>sv_heap := h\<rparr>, Cl_Finished (drop pos (device_bytes d))) \<and>
    moves (sv_heap g) h (Some p) None"
proof -
  obtain a where a: "p = Ptr a" "sv_heap g a \<noteq> None" using at by (auto simp: str_at_def)
  then have "b \<noteq> a" using b(2) by auto
  then show ?thesis
    using sdrv.send_loop_all [OF rel blk pos, of "[]"] a b
    by (intro exI [of _ "(sv_heap g)(a := None, b := None)"]) (auto simp: cl_send_def malloc_def free_ptr_def moves_def)
qed

section \<open>The invariant\<close>

fun after_store :: "device \<Rightarrow> sv_event \<Rightarrow> device" where
  "after_store d Sv_Silent = d"
| "after_store d (Sv_Store out) = device_write d out"

lemma stores_device: "foldl device_write d (stores (tr @ [ev])) = after_store (foldl device_write d (stores tr)) ev"
  by (cases ev) simp_all

text \<open>What a step of one thread does to the shared state and to the thread.\<close>

definition step_effect :: "device \<Rightarrow> shared \<Rightarrow> client \<Rightarrow> shared \<Rightarrow> client \<Rightarrow> bool" where
  "step_effect d g c g' c' \<longleftrightarrow>
     client_ok (sv_heap g') c' \<and> moves (sv_heap g) (sv_heap g') (cl_ptr (cl_at c)) (cl_ptr (cl_at c')) \<and>
     0 \<le> sv_count g' \<and> dev_rel (sv_dev g') (after_store d (cl_event c)) \<and>
     of_bool (sv_mutex g') + of_bool (cl_holds (cl_at c)) =
       (of_bool (sv_mutex g) + of_bool (cl_holds (cl_at c')) :: nat)"

lemma packet_next:
  "packet (cl_next env c pc) = packet c @ (case (cl_at c, ce_recv env) of (Cl_Receive p b j, Recv bs) \<Rightarrow> bs | _ \<Rightarrow> [])"
  "cl_at (cl_next env c pc) = pc"
  by (auto simp: cl_next_def packet_def split: cl_pc.splits recv_answer.splits)

lemma receive_effect:
  assumes ok: "client_ok (sv_heap g) c" and env: "cl_env_ok env g c" and rel: "dev_rel (sv_dev g) d"
    and n: "0 \<le> sv_count g" and step: "cl_step env g (cl_at c) = Some (g', pc)" and pc: "cl_at c = Cl_Receive p b j"
  shows "step_effect d g c g' (cl_next env c pc)"
proof -
  have at: "str_at (sv_heap g) p (packet c)" "b = replicate BUFFER_SIZE NUL" "int (length (packet c)) \<le> j"
    "NEWLINE \<notin> set (packet c)"
    using ok pc by (simp_all add: client_ok_def)
  obtain bs where bs: "ce_recv env = Recv bs" "chunk_fits bs"
    using env pc by (auto simp: cl_env_ok_def split: recv_answer.splits)
  obtain a' where a': "ce_al env = Some a'" "sv_heap g a' = None \<or> Ptr a' = p"
    using env pc by (auto simp: cl_env_ok_def split: option.splits)
  have lim: "j + 101 < 2 ^ 31" "sv_count g + 100 < 2 ^ 31"
    using env pc by (simp_all add: cl_env_ok_def)
  show ?thesis
  proof (cases "bs = []")
    case True
    then have "g' = g" "pc = Cl_Packet p" using step pc bs(1) by (simp_all add: cl_step_def cl_receive_def)
    then show ?thesis
      using True at pc bs(1) rel n
      by (auto simp: step_effect_def client_ok_def packet_next cl_event_def dest: in_set_butlastD)
  next
    case False
    obtain st where st: "rx_round \<lparr>rx_heap = sv_heap g, outputBuffer = p, rx_buffer = replicate BUFFER_SIZE NUL, rx_j = j,
        data_count = sv_count g\<rparr> bs (Some a') = Inr (NEWLINE \<in> set bs, st)"
      "str_at (rx_heap st) (outputBuffer st) (packet c @ bs)"
      "moves (sv_heap g) (rx_heap st) (Some p) (Some (outputBuffer st))"
      "0 \<le> data_count st" "rx_buffer st = replicate BUFFER_SIZE NUL" "int (length (packet c @ bs)) \<le> rx_j st"
      using cl_receive_round [OF at(1,3) lim(1) n lim(2) bs(2) False a'(2)] by blast
    then have g': "g' = g\<lparr>sv_heap := rx_heap st, sv_count := data_count st\<rparr>"
      "pc = (if NEWLINE \<in> set bs then Cl_Packet (outputBuffer st)
        else Cl_Receive (outputBuffer st) (rx_buffer st) (rx_j st))"
      using step pc bs(1) a'(1) at(2) False by (simp_all add: cl_step_def cl_receive_def)
    have "NEWLINE \<notin> set (butlast (packet c @ bs))"
      using at(4) bs(2) False by (auto simp: butlast_append chunk_fits_def)
    then show ?thesis
      using st at(4) pc bs(1) rel n
      by (auto simp: step_effect_def client_ok_def packet_next cl_event_def g')
  qed
qed

lemma step_effect_all:
  assumes ok: "client_ok (sv_heap g) c" and env: "cl_env_ok env g c" and rel: "dev_rel (sv_dev g) d"
    and n: "0 \<le> sv_count g" and step: "cl_step env g (cl_at c) = Some (g', pc)"
    and held: "cl_holds (cl_at c) \<Longrightarrow> sv_mutex g"
  shows "step_effect d g c g' (cl_next env c pc)"
proof (cases "cl_at c")
  case Cl_Start
  then obtain a where "ce_al env = Some a" "sv_heap g a = None"
    using env by (auto simp: cl_env_ok_def split: option.splits)
  moreover have "packet c = []" using ok Cl_Start by (simp add: client_ok_def packet_def)
  ultimately show ?thesis
    using cl_start_ok [of g a] step Cl_Start rel n
    by (auto simp: step_effect_def client_ok_def packet_next cl_event_def cl_step_def)
next
  case (Cl_Receive p b j)
  then show ?thesis using receive_effect [OF ok env rel n step] by blast
next
  case (Cl_Packet p)
  then show ?thesis
    using step ok rel n
    by (auto simp: step_effect_def client_ok_def packet_next cl_event_def cl_step_def split: if_splits)
next
  case (Cl_Locked p)
  then obtain k pos where "cl_file (ce_session env) p g = (g\<lparr>sv_dev := k\<rparr>, Cl_File p pos)" "pos < 2 ^ 64"
    "dev_rel k (if is_seek (packet c) then d else device_write d (packet c))"
    using cl_file_ok [of g p "packet c" d "ce_session env"] ok env rel by (auto simp: client_ok_def cl_env_ok_def)
  then show ?thesis
    using step ok n Cl_Locked
    by (auto simp: step_effect_def client_ok_def packet_next cl_event_def cl_step_def split: if_splits)
next
  case (Cl_File p pos)
  then obtain b where "0 < se_blksize (ce_session env)" "se_blksize (ce_session env) < 2 ^ 64"
    "se_send (ce_session env) = Some b" "sv_heap g b = None"
    using env by (auto simp: cl_env_ok_def split: option.splits)
  then obtain h where "cl_send (ce_session env) p pos g = (g\<lparr>sv_heap := h\<rparr>, Cl_Finished (drop pos (device_bytes d)))"
    "moves (sv_heap g) h (Some p) None"
    using cl_send_ok [of g p "packet c" d pos "ce_session env" b] ok rel Cl_File by (auto simp: client_ok_def)
  then show ?thesis
    using step rel n Cl_File
    by (auto simp: step_effect_def client_ok_def packet_next cl_event_def cl_step_def)
next
  case (Cl_Finished sent)
  then show ?thesis
    using step rel n held
    by (auto simp: step_effect_def client_ok_def packet_next cl_event_def cl_step_def)
qed (use step ok in \<open>auto simp: cl_step_def\<close>)

text \<open>
  A reply is the content of the device at one moment of the run: for a packet that was stored,
  the moment after it was; for a seek command, from some position on.
\<close>

definition answered :: "device \<Rightarrow> sv_event list \<Rightarrow> client \<Rightarrow> byte list \<Rightarrow> bool" where
  "answered st tr c reply \<longleftrightarrow>
     (\<exists>tr1 tr2. tr = tr1 @ tr2 \<and>
        (if is_seek (packet c) then \<exists>pos. reply = drop pos (device_bytes (foldl device_write st (stores tr1)))
         else stores tr1 \<noteq> [] \<and> last (stores tr1) = packet c \<and>
           reply = device_bytes (foldl device_write st (stores tr1))))"

definition reply_ok :: "device \<Rightarrow> sv_event list \<Rightarrow> client \<Rightarrow> bool" where
  "reply_ok st tr c \<longleftrightarrow>
     (case cl_at c of
        Cl_File p pos \<Rightarrow> \<not> is_seek (packet c) \<longrightarrow> pos = 0 \<and> stores tr \<noteq> [] \<and> last (stores tr) = packet c
      | Cl_Finished sent \<Rightarrow> answered st tr c sent
      | Cl_Done sent \<Rightarrow> answered st tr c sent
      | _ \<Rightarrow> True)"

lemma answered_later: "answered st tr c reply \<Longrightarrow> answered st (tr @ tr') c reply"
  unfolding answered_def by (metis append_assoc)

lemma answered_packet: "packet c = packet c' \<Longrightarrow> answered st tr c reply = answered st tr c' reply"
  by (simp only: answered_def)

lemma reply_ok_other:
  assumes "reply_ok st tr c" and "ev = Sv_Silent \<or> \<not> cl_holds (cl_at c)"
  shows "reply_ok st (tr @ [ev]) c"
  using assms by (auto simp: reply_ok_def answered_later split: cl_pc.splits)

definition sv_inv :: "device \<Rightarrow> heap \<Rightarrow> sv_event list \<Rightarrow> shared \<times> client list \<Rightarrow> bool" where
  "sv_inv st h0 tr s \<longleftrightarrow> (case s of (g, cs) \<Rightarrow>
     dev_rel (sv_dev g) (foldl device_write st (stores tr)) \<and> 0 \<le> sv_count g \<and> heap_ok (sv_heap g) cs \<and>
     blocks_ok h0 (sv_heap g) cs \<and> length (filter (\<lambda>c. cl_holds (cl_at c)) cs) = of_bool (sv_mutex g) \<and> (\<forall>c \<in> set cs. reply_ok st tr c))"

lemma reply_ok_own:
  assumes ok: "client_ok (sv_heap g) c" "reply_ok st tr c" and env: "cl_env_ok env g c"
    and rel: "dev_rel (sv_dev g) (foldl device_write st (stores tr))"
    and step: "cl_step env g (cl_at c) = Some (g', pc)"
  shows "reply_ok st (tr @ [cl_event c]) (cl_next env c pc)"
proof (cases "cl_at c")
  case Cl_Start
  then have "(case pc of Cl_Receive p b j \<Rightarrow> True | Cl_Fault e \<Rightarrow> True | _ \<Rightarrow> False)"
    using step by (auto simp: cl_step_def cl_start_def split: prod.splits sum.splits)
  then show ?thesis by (auto simp: reply_ok_def packet_next split: cl_pc.splits)
next
  case (Cl_Receive p b j)
  then have "(case pc of Cl_Receive p b j \<Rightarrow> True | Cl_Packet q \<Rightarrow> True | Cl_Fault e \<Rightarrow> True | Cl_Exit n \<Rightarrow> True | _ \<Rightarrow> False)"
    using step by (auto simp: cl_step_def cl_receive_def split: prod.splits sum.splits recv_answer.splits if_splits)
  then show ?thesis by (auto simp: reply_ok_def packet_next split: cl_pc.splits)
next
  case (Cl_Packet p)
  then show ?thesis
    using step by (auto simp: cl_step_def reply_ok_def packet_next split: if_splits)
next
  case (Cl_Locked p)
  then show ?thesis
    using cl_file_ok [of g p "packet c" _ "ce_session env", OF _ _ rel] ok(1) env step
    by (auto simp: client_ok_def cl_env_ok_def cl_step_def reply_ok_def packet_next cl_event_def)
next
  case (Cl_File p pos)
  then obtain b where "0 < se_blksize (ce_session env)" "se_blksize (ce_session env) < 2 ^ 64"
    "se_send (ce_session env) = Some b" "sv_heap g b = None"
    using env by (auto simp: cl_env_ok_def split: option.splits)
  then have pc: "pc = Cl_Finished (drop pos (device_bytes (foldl device_write st (stores tr))))"
    using cl_send_ok [of g p "packet c" _ pos "ce_session env" b, OF _ rel] ok(1) step Cl_File
    by (auto simp: client_ok_def cl_step_def)
  have "answered st (tr @ [Sv_Silent]) (cl_next env c pc) (drop pos (device_bytes (foldl device_write st (stores tr))))"
    using ok(2) Cl_File unfolding answered_def reply_ok_def
    by (intro exI [of _ tr] exI [of _ "[Sv_Silent]"]) (auto simp: packet_next)
  then show ?thesis by (simp add: reply_ok_def packet_next cl_event_def Cl_File pc)
next
  case (Cl_Finished sent)
  then have "answered st (tr @ [Sv_Silent]) c sent"
    using ok(2) by (simp add: reply_ok_def answered_later)
  then have "answered st (tr @ [Sv_Silent]) (cl_next env c pc) sent"
    using answered_packet [of "cl_next env c pc" c] by (simp add: packet_next Cl_Finished)
  then show ?thesis
    using step Cl_Finished by (auto simp: cl_step_def reply_ok_def packet_next cl_event_def)
qed (use step ok in \<open>auto simp: cl_step_def\<close>)

lemma sv_step_inv:
  assumes "sv_step s ev t" and "sv_inv st h0 tr s"
  shows "sv_inv st h0 (tr @ [ev]) t"
  using assms(1)
proof cases
  case (Step_Client i cs env g g' pc)
  let ?c = "cs ! i" and ?c' = "cl_next env (cs ! i) pc" and ?d = "foldl device_write st (stores tr)"
  let ?P = "\<lambda>c. cl_holds (cl_at c)"
  have inv: "dev_rel (sv_dev g) ?d" "0 \<le> sv_count g" "heap_ok (sv_heap g) cs"
    "length (filter ?P cs) = of_bool (sv_mutex g)" "\<forall>c \<in> set cs. reply_ok st tr c"
    using assms(2) Step_Client(1) by (simp_all add: sv_inv_def)
  have c: "?c \<in> set cs" "client_ok (sv_heap g) ?c" "reply_ok st tr ?c"
    using inv(3,5) Step_Client(4) by (simp_all add: heap_ok_def)
  have held: "sv_mutex g" if "?P ?c"
  proof (rule ccontr)
    assume "\<not> sv_mutex g"
    then have "filter ?P cs = []" using inv(4) by simp
    then show False using c(1) that by (simp add: filter_empty_conv)
  qed
  have eff: "step_effect ?d g ?c g' ?c'"
    by (rule step_effect_all [OF c(2) Step_Client(5) inv(1,2) Step_Client(6) held])
  have excl: "\<not> ?P (cs ! j)" if "j < length cs" "j \<noteq> i" "?P ?c" for j
    using filter_one [of ?P cs j i] inv(4) that Step_Client(4) by (cases "sv_mutex g") auto
  have ev: "ev = Sv_Silent \<or> ?P ?c"
    using Step_Client(2) by (auto simp: cl_event_def split: cl_pc.splits)
  have "reply_ok st (tr @ [ev]) c'" if c': "c' \<in> set (cs[i := ?c'])" for c'
  proof -
    obtain j where j: "j < length cs" "c' = cs[i := ?c'] ! j" using c' by (auto simp: in_set_conv_nth)
    show ?thesis
    proof (cases "j = i")
      case True
      then show ?thesis
        using j reply_ok_own [OF c(2,3) Step_Client(5) inv(1) Step_Client(6)] Step_Client(2) by simp
    next
      case False
      then show ?thesis
        using j reply_ok_other [of st tr "cs ! j" ev] inv(5) ev excl [of j] by auto
    qed
  qed
  moreover have "length (filter ?P (cs[i := ?c'])) = of_bool (sv_mutex g')"
    using length_filter_upd [OF Step_Client(4), of ?P ?c'] inv(4) eff by (simp add: step_effect_def)
  moreover have "heap_ok (sv_heap g') (cs[i := ?c'])"
    using heap_ok_step [OF inv(3) Step_Client(4)] eff by (simp add: step_effect_def)
  moreover have "blocks_ok h0 (sv_heap g') (cs[i := ?c'])"
    using blocks_ok_step [OF inv(3) _ Step_Client(4)] assms(2) Step_Client(1) eff
    by (simp add: step_effect_def sv_inv_def)
  ultimately show ?thesis
    using eff Step_Client(2,3) by (simp add: sv_inv_def step_effect_def stores_device del: stores_append)
qed

interpretation sv_machine: event_machine sv_step "sv_inv st h0" "\<lambda>tr ev. tr @ [ev]" for st h0
  by unfold_locales (rule sv_step_inv)

lemma snoc_events: "foldl (\<lambda>tr ev. tr @ [ev]) tr0 tr = tr0 @ tr"
  by (induction tr arbitrary: tr0) simp_all

lemma sv_run_inv:
  assumes "sv_run (g, cs) tr t" and "dev_rel (sv_dev g) st" and "0 \<le> sv_count g" and "\<not> sv_mutex g"
    and "list_all (\<lambda>c. cl_at c = Cl_Start \<and> cl_got c = []) cs"
  shows "sv_inv st (sv_heap g) tr t"
proof -
  have "sv_inv st (sv_heap g) [] (g, cs)"
    using assms(2-5) by (auto simp: sv_inv_def heap_ok_def blocks_ok_def client_ok_def reply_ok_def list_all_iff filter_empty_conv)
  then show ?thesis
    using sv_machine.run_inv [OF assms(1), of st "sv_heap g" "[]"] by (simp add: snoc_events)
qed

end
