(* ===== verification/Socket_Clients.thy ===== *)
theory Socket_Clients
  imports Socket_Sharing
begin

text \<open>
  The theorem about concurrent sessions of the server, and schedules that run a session from its
  start to its end.
\<close>

section \<open>Schedules\<close>

lemma sv_run_step:
  assumes "sv_run s tr (g, cs)" and "i < length cs" and "cs ! i = c" and "cl_env_ok env g c"
    and "cl_step env g (cl_at c) = Some (g', pc)"
  shows "sv_run s (tr @ [cl_event c]) (g', cs[i := cl_next env c pc])"
  using Run_Snoc [OF assms(1)] Step_Client [of i cs env g g' pc] assms(2-5) by auto

definition step_env :: "nat option \<Rightarrow> recv_answer \<Rightarrow> answers session_env \<Rightarrow> client_env" where
  "step_env al ans env = \<lparr>ce_al = al, ce_recv = ans, ce_session = env\<rparr>"

lemma run_start:
  assumes "sv_run s tr (g, cs)" and "i < length cs" and "cs ! i = \<lparr>cl_got = [], cl_at = Cl_Start\<rparr>"
    and "sv_heap g a = None"
  shows "\<exists>h. sv_run s (tr @ [Sv_Silent]) (g\<lparr>sv_heap := h\<rparr>,
      cs[i := \<lparr>cl_got = [], cl_at = Cl_Receive (Ptr a) (replicate BUFFER_SIZE NUL) 0\<rparr>]) \<and>
    str_at h (Ptr a) [] \<and> h = (sv_heap g)(a := h a)"
proof -
  let ?h = "(sv_heap g)(a \<mapsto> map Some (replicate BUFFER_SIZE NUL))"
  have "cl_start (Some a) g = (g\<lparr>sv_heap := ?h\<rparr>, Cl_Receive (Ptr a) (replicate BUFFER_SIZE NUL) 0)"
    by (simp add: cl_start_def malloc_def mem_write_def)
  then show ?thesis
    using str_at_zeros [of "sv_heap g" a] sv_run_step [OF assms(1,2,3), of "step_env (Some a) Recv_Error sample_env"] assms(4)
    by (intro exI [of _ ?h]) (auto simp: step_env_def cl_env_ok_def cl_step_def cl_event_def cl_next_def)
qed

lemma run_receive:
  assumes run: "sv_run s tr (g, cs)" and i: "i < length cs" "cs ! i = \<lparr>cl_got = cg, cl_at = Cl_Receive (Ptr a) (replicate BUFFER_SIZE NUL) j\<rparr>"
    and at: "str_at (sv_heap g) (Ptr a) (concat cg)" and j: "int (length (concat cg)) \<le> j" "j + 101 < 2 ^ 31"
    and n: "0 \<le> sv_count g" "sv_count g + 100 < 2 ^ 31" and bs: "chunk_fits bs" "NEWLINE \<in> set bs"
  shows "\<exists>h m q. sv_run s (tr @ [Sv_Silent]) (g\<lparr>sv_heap := h, sv_count := m\<rparr>, cs[i := \<lparr>cl_got = cg @ [bs], cl_at = Cl_Packet q\<rparr>]) \<and>
    str_at h q (concat (cg @ [bs])) \<and> moves (sv_heap g) h (Some (Ptr a)) (Some q)"
proof -
  have "bs \<noteq> []" using bs(2) by auto
  then obtain st where "rx_round \<lparr>rx_heap = sv_heap g, outputBuffer = Ptr a, rx_buffer = replicate BUFFER_SIZE NUL, rx_j = j,
      data_count = sv_count g\<rparr> bs (Some a) = Inr (NEWLINE \<in> set bs, st)"
    "str_at (rx_heap st) (outputBuffer st) (concat cg @ bs)"
    "moves (sv_heap g) (rx_heap st) (Some (Ptr a)) (Some (outputBuffer st))"
    using cl_receive_round [OF at j n bs(1), of a] by blast
  then show ?thesis
    using sv_run_step [OF run i, of "step_env (Some a) (Recv bs) sample_env"] j n bs \<open>bs \<noteq> []\<close>
    by (intro exI [of _ "rx_heap st"] exI [of _ "data_count st"] exI [of _ "outputBuffer st"])
      (auto simp: step_env_def cl_env_ok_def cl_step_def cl_event_def cl_next_def cl_receive_def)
qed

text \<open>From a complete packet to the end of the session, with the mutex free.\<close>

lemma run_serve:
  assumes run: "sv_run s tr (g, cs)" and i: "i < length cs" "cs ! i = \<lparr>cl_got = cg, cl_at = Cl_Packet q\<rparr>"
    and at: "str_at (sv_heap g) q (concat cg)" and free: "\<not> sv_mutex g" and rel: "dev_rel (sv_dev g) d"
    and nl: "NEWLINE \<notin> set (butlast (concat cg))" and ok: "file_env_ok env (concat cg) (sv_dev g)"
    and store: "\<not> is_seek (concat cg)" and blk: "0 < se_blksize env" "se_blksize env < 2 ^ 64"
    and b: "se_send env = Some b" "sv_heap g b = None"
  shows "\<exists>g'. sv_run s (tr @ [Sv_Silent, Sv_Store (concat cg), Sv_Silent, Sv_Silent])
    (g', cs[i := \<lparr>cl_got = cg, cl_at = Cl_Done (device_bytes (device_write d (concat cg)))\<rparr>])"
proof -
  let ?e = "step_env None Recv_Error env" and ?c = "\<lambda>pc. \<lparr>cl_got = cg, cl_at = pc\<rparr>"
  let ?r = "device_bytes (device_write d (concat cg))"
  let ?g1 = "g\<lparr>sv_mutex := True\<rparr>"
  have "sv_run s (tr @ [Sv_Silent]) (?g1, cs[i := ?c (Cl_Locked q)])"
    using sv_run_step [OF run i, of ?e ?g1 "Cl_Locked q"] free
    by (simp add: step_env_def cl_env_ok_def cl_step_def cl_event_def cl_next_def)
  note run1 = this
  obtain k where k: "cl_file env q ?g1 = (?g1\<lparr>sv_dev := k\<rparr>, Cl_File q 0)" "dev_rel k (device_write d (concat cg))"
    using cl_file_ok [of ?g1 q "concat cg" d env] at nl rel ok store by auto
  let ?g2 = "?g1\<lparr>sv_dev := k\<rparr>"
  have "sv_run s ((tr @ [Sv_Silent]) @ [Sv_Store (concat cg)]) (?g2, cs[i := ?c (Cl_File q 0)])"
    using sv_run_step [OF run1 _ refl, of i ?e ?g2 "Cl_File q 0"] k(1) i(1) ok store
    by (simp add: step_env_def cl_env_ok_def cl_step_def cl_event_def cl_next_def packet_def)
  note run2 = this
  obtain h where h: "cl_send env q 0 ?g2 = (?g2\<lparr>sv_heap := h\<rparr>, Cl_Finished ?r)"
    using cl_send_ok [of ?g2 q "concat cg" "device_write d (concat cg)" 0 env b] at k(2) blk b by auto
  have "sv_run s (((tr @ [Sv_Silent]) @ [Sv_Store (concat cg)]) @ [Sv_Silent]) (?g2\<lparr>sv_heap := h\<rparr>, cs[i := ?c (Cl_Finished ?r)])"
    using sv_run_step [OF run2 _ refl, of i ?e] h i(1) blk b
    by (simp add: step_env_def cl_env_ok_def cl_step_def cl_event_def cl_next_def)
  note run3 = this
  have "sv_run s ((((tr @ [Sv_Silent]) @ [Sv_Store (concat cg)]) @ [Sv_Silent]) @ [Sv_Silent])
      (?g2\<lparr>sv_heap := h, sv_mutex := False\<rparr>, cs[i := ?c (Cl_Done ?r)])"
    using sv_run_step [OF run3 _ refl, of i ?e] i(1)
    by (simp add: step_env_def cl_env_ok_def cl_step_def cl_event_def cl_next_def)
  then show ?thesis by auto
qed

section \<open>Concurrent sessions\<close>

text \<open>
  Concurrent clients. However the threads of any number of connections are interleaved, as
  long as the chunks stay inside the receive array: no thread meets a fault, at most one is
  between taking and releasing the mutex, the device is the one that results from the stored
  packets one after the other, the reply of every finished session that stored a packet is the
  content of the device just after its own packet, whatever other sessions did meanwhile, and
  once all sessions are finished every block they allocated is freed.
\<close>

theorem clients_served:
  assumes "sv_run (g, cs) tr (g', cs')" and "dev_rel (sv_dev g) st" and "0 \<le> sv_count g" and "\<not> sv_mutex g"
    and "list_all (\<lambda>c. cl_at c = Cl_Start \<and> cl_got c = []) cs"
  shows "(\<forall>c \<in> set cs'. \<forall>e. cl_at c \<noteq> Cl_Fault e) \<and>
    (\<forall>i j. i < length cs' \<longrightarrow> j < length cs' \<longrightarrow> cl_holds (cl_at (cs' ! i)) \<longrightarrow> cl_holds (cl_at (cs' ! j)) \<longrightarrow> i = j) \<and>
    dev_rel (sv_dev g') (foldl device_write st (stores tr)) \<and>
    (\<forall>c \<in> set cs'. \<forall>reply. cl_at c = Cl_Done reply \<longrightarrow> \<not> is_seek (packet c) \<longrightarrow>
      (\<exists>tr1 tr2. tr = tr1 @ tr2 \<and> stores tr1 \<noteq> [] \<and> last (stores tr1) = packet c \<and>
        reply = device_bytes (foldl device_write st (stores tr1)))) \<and>
    (list_all (\<lambda>c. \<exists>reply. cl_at c = Cl_Done reply) cs' \<longrightarrow> sv_heap g' = sv_heap g)"
proof -
  have inv: "sv_inv st (sv_heap g) tr (g', cs')" by (rule sv_run_inv [OF assms])
  have "cl_at c \<noteq> Cl_Fault e" if "c \<in> set cs'" for c e
    using inv that by (auto simp: sv_inv_def heap_ok_def client_ok_def)
  moreover have "length (filter (\<lambda>c. cl_holds (cl_at c)) cs') \<le> 1"
    using inv by (simp add: sv_inv_def)
  then have "i = j" if "i < length cs'" "j < length cs'" "cl_holds (cl_at (cs' ! i))" "cl_holds (cl_at (cs' ! j))" for i j
    using filter_one [of "\<lambda>c. cl_holds (cl_at c)" cs' i j] that by blast
  moreover have "\<exists>tr1 tr2. tr = tr1 @ tr2 \<and> stores tr1 \<noteq> [] \<and> last (stores tr1) = packet c \<and>
      reply = device_bytes (foldl device_write st (stores tr1))"
    if c: "c \<in> set cs'" "cl_at c = Cl_Done reply" "\<not> is_seek (packet c)" for c reply
  proof -
    have "answered st tr c reply" using inv c(1,2) by (fastforce simp: sv_inv_def reply_ok_def)
    then show ?thesis using c(3) by (simp add: answered_def)
  qed
  moreover have "dev_rel (sv_dev g') (foldl device_write st (stores tr))" using inv by (simp add: sv_inv_def)
  moreover have "sv_heap g' = sv_heap g" if "list_all (\<lambda>c. \<exists>reply. cl_at c = Cl_Done reply) cs'"
  proof
    fix b
    have "cl_ptr (cl_at c) = None" if "c \<in> set cs'" for c
      using \<open>list_all _ cs'\<close> that by (auto simp: list_all_iff)
    then show "sv_heap g' b = sv_heap g b"
      using inv by (auto simp: sv_inv_def blocks_ok_def)
  qed
  ultimately show ?thesis by blast
qed

text \<open>Two clients: both start, the first sends a packet and is served while the second waits for data.\<close>

definition idle_client :: client where
  "idle_client = \<lparr>cl_got = [], cl_at = Cl_Start\<rparr>"

definition quiet_server :: shared where
  "quiet_server = \<lparr>sv_dev = fresh_kernel, sv_heap = Map.empty, sv_count = 0, sv_mutex = False\<rparr>"

theorem clients_served_witness:
  "\<exists>tr g' c. sv_run (quiet_server, [idle_client, idle_client]) tr
       (g', [\<lparr>cl_got = [''hi'' @ [NEWLINE]], cl_at = Cl_Done (''hi'' @ [NEWLINE])\<rparr>, c]) \<and>
     dev_rel (sv_dev g') ([''hi'' @ [NEWLINE]], [])"
proof -
  let ?s = "(quiet_server, [idle_client, idle_client])" and ?hi = "''hi'' @ [NEWLINE]"
  let ?rx = "\<lambda>a. \<lparr>cl_got = [], cl_at = Cl_Receive (Ptr a) (replicate BUFFER_SIZE NUL) 0\<rparr>"
  obtain h1 where h1: "sv_run ?s [Sv_Silent] (quiet_server\<lparr>sv_heap := h1\<rparr>, [?rx 1, idle_client])"
    "str_at h1 (Ptr 1) []" "h1 = Map.empty(1 := h1 1)"
    using run_start [OF Run_Nil [of sv_step ?s], of 0 1] by (auto simp: idle_client_def quiet_server_def)
  have "h1 2 = None" by (subst h1(3)) simp
  then obtain h2 where h2: "sv_run ?s [Sv_Silent, Sv_Silent] (quiet_server\<lparr>sv_heap := h2\<rparr>, [?rx 1, ?rx 2])"
    "h2 = h1(2 := h2 2)"
    using run_start [OF h1(1), of 1 2] by (auto simp: idle_client_def)
  have "h2 1 = h1 1" by (subst h2(2)) simp
  then have at2: "str_at h2 (Ptr 1) []" using h1(2) by (simp add: str_at_def)
  have none: "h2 3 = None" "h2 4 = None" by (subst h2(2), subst h1(3), simp)+
  obtain h3 m q where h3: "sv_run ?s [Sv_Silent, Sv_Silent, Sv_Silent] (quiet_server\<lparr>sv_heap := h3, sv_count := m\<rparr>,
      [\<lparr>cl_got = [?hi], cl_at = Cl_Packet q\<rparr>, ?rx 2])" "str_at h3 q ?hi" "moves h2 h3 (Some (Ptr 1)) (Some q)"
    using run_receive [OF h2(1), of 0 "[]" 1 0 ?hi] at2
    by (auto simp: quiet_server_def chunk_fits_def)
  define b where "b = (if q = Ptr 3 then 4 else 3 :: nat)"
  then have b: "Ptr b \<noteq> q" "b \<noteq> 1" "h2 b = None" using none by simp_all
  then have free: "h3 b = None" using h3(3) by (auto simp: moves_def)
  let ?env = "sample_env\<lparr>se_send := Some b\<rparr>"
  have "file_env_ok ?env ?hi fresh_kernel"
    using fresh_pieces_ok [of ?hi]
    by (simp add: file_env_ok_def is_seek_def strncmp_eq_def ioctl_string_def sample_env_def del: pieces_ok.simps)
  moreover have "\<not> is_seek ?hi" by (simp add: is_seek_def strncmp_eq_def ioctl_string_def)
  moreover have d: "device_write empty_device ?hi = ([?hi], [])"
    by (simp add: device_write_def empty_device_def fifo_push_def)
  ultimately obtain g' where run: "sv_run ?s ([Sv_Silent, Sv_Silent, Sv_Silent] @ [Sv_Silent, Sv_Store ?hi, Sv_Silent, Sv_Silent])
      (g', [\<lparr>cl_got = [?hi], cl_at = Cl_Done ?hi\<rparr>, ?rx 2])"
    using run_serve [OF h3(1), of 0 "[?hi]" q empty_device ?env b] h3(2) free fresh_dev_rel
    by (auto simp: quiet_server_def sample_env_def device_bytes_def)
  have start: "dev_rel (sv_dev quiet_server) empty_device" "0 \<le> sv_count quiet_server" "\<not> sv_mutex quiet_server"
    "list_all (\<lambda>c. cl_at c = Cl_Start \<and> cl_got c = []) [idle_client, idle_client]"
    using fresh_dev_rel by (simp_all add: quiet_server_def idle_client_def)
  have "dev_rel (sv_dev g') (foldl device_write empty_device
      (stores ([Sv_Silent, Sv_Silent, Sv_Silent] @ [Sv_Silent, Sv_Store ?hi, Sv_Silent, Sv_Silent])))"
    using clients_served [OF run start] by blast
  then have "dev_rel (sv_dev g') ([?hi], [])" using d by simp
  with run show ?thesis by blast
qed

end
