(* ===== verification/Socket_Process.thy ===== *)
theory Socket_Process
  imports Socket_Clients
begin

text \<open>
  The whole process of \<^verbatim>\<open>server/aesdsocket.c\<close>: the accept loop of \<^verbatim>\<open>ConfigureSocket\<close> with its thread
  list together with the threads it has created. A thread reads and writes the list element it
  was given (\<^verbatim>\<open>threadFD\<close>, \<^verbatim>\<open>isDone\<close>), and the loop joins, removes and frees the element of a thread that
  has set its flag. A round of the loop is one step; a round that joins a thread takes place when
  the thread has returned.
\<close>

section \<open>The process\<close>

text \<open>The server with its list, what the threads share, and every thread with its element.\<close>

type_synonym process = "server \<times> shared \<times> (nat \<times> client) list"

text \<open>What a step of a thread does with its element \<open>a\<close>.\<close>

definition thread_access :: "nat \<Rightarrow> cl_pc \<Rightarrow> server \<Rightarrow> server res" where
  "thread_access a pc s = (case pc of
      Cl_Receive p buffer j \<Rightarrow> rbind (thread_at (Ptr a) s) (\<lambda>params. Inr s)
    | Cl_File p pos \<Rightarrow> rbind (thread_at (Ptr a) s) (\<lambda>params. set_thread (Ptr a) (params\<lparr>isDone := True\<rparr>) s)
    | _ \<Rightarrow> Inr s)"

definition thread_over :: "client \<Rightarrow> bool" where
  "thread_over c \<longleftrightarrow> (case cl_at c of Cl_Done sent \<Rightarrow> True | _ \<Rightarrow> False)"

definition thread_finished :: "client \<Rightarrow> bool" where
  "thread_finished c \<longleftrightarrow> (case cl_at c of Cl_Finished sent \<Rightarrow> True | _ \<Rightarrow> False)"

text \<open>
  The kernel's side: a descriptor from \<^verbatim>\<open>accept\<close> was not open before, and \<^verbatim>\<open>recv\<close> gives bytes on open
  descriptors only. A failed \<^verbatim>\<open>accept\<close> is not tested by the code: its \<open>-1\<close> goes to a thread.
\<close>

definition fresh_fd :: "accept_env \<Rightarrow> server \<Rightarrow> bool" where
  "fresh_fd e s \<longleftrightarrow> 0 \<le> ae_fd e \<longrightarrow> ae_fd e \<notin> open_fds s"

definition fd_answers :: "nat \<Rightarrow> cl_pc \<Rightarrow> server \<Rightarrow> bool" where
  "fd_answers a pc s \<longleftrightarrow> (case pc of
      Cl_Receive p buffer j \<Rightarrow> (case socketThread s a of None \<Rightarrow> False
        | Some t \<Rightarrow> 0 \<le> threadFD t \<and> threadFD t \<in> open_fds s)
    | _ \<Rightarrow> True)"

text \<open>
  The last premise of \<open>Proc_Accept\<close> is \<^verbatim>\<open>pthread_join\<close>: when the round frees an element, its thread
  has returned. An access to an element that is not live is a fault of the thread.
\<close>

inductive proc_step :: "process \<Rightarrow> sv_event \<Rightarrow> process \<Rightarrow> bool" where
  Proc_Accept: "\<lbrakk>\<not> doneFlag s; fresh_fd e s; ae_malloc e = Some a; a \<notin> dom (socketThread s);
     accept_round e s = Inr s';
     \<forall>(b, c) \<in> set ts. socketThread s b \<noteq> None \<longrightarrow> socketThread s' b = None \<longrightarrow> thread_over c\<rbrakk> \<Longrightarrow>
    proc_step (s, g, ts) Sv_Silent (s', g, if ae_create e = None then ts else ts @ [(a, idle_client)])"
| Proc_Thread: "\<lbrakk>i < length ts; ts ! i = (a, c); thread_access a (cl_at c) s = Inr s'; fd_answers a (cl_at c) s; cl_env_ok env g c;
     cl_step env g (cl_at c) = Some (g', pc)\<rbrakk> \<Longrightarrow>
    proc_step (s, g, ts) (cl_event c) (s', g', ts[i := (a, cl_next env c pc)])"
| Proc_Fault: "\<lbrakk>i < length ts; ts ! i = (a, c); thread_access a (cl_at c) s = Inl e\<rbrakk> \<Longrightarrow>
    proc_step (s, g, ts) Sv_Silent (s, g, ts[i := (a, c\<lparr>cl_at := Cl_Fault e\<rparr>)])"

abbreviation proc_run :: "process \<Rightarrow> sv_event list \<Rightarrow> process \<Rightarrow> bool" where
  "proc_run \<equiv> run proc_step"

section \<open>Elements and threads\<close>

text \<open>
  Running threads have different elements; the element of a running thread is live, its descriptor
  is open, unless accepting it failed, and its flag says whether the session is finished; and a flag that is set is the work of
  a thread that is finished or over.
\<close>

definition thread_elem :: "server \<Rightarrow> nat \<Rightarrow> client \<Rightarrow> bool" where
  "thread_elem s a c \<longleftrightarrow> (case socketThread s a of None \<Rightarrow> False
     | Some t \<Rightarrow> thread_ID t \<noteq> None \<and> (0 \<le> threadFD t \<longrightarrow> threadFD t \<in> open_fds s) \<and> (isDone t \<longleftrightarrow> thread_finished c))"

definition elems_ok :: "server \<Rightarrow> (nat \<times> client) list \<Rightarrow> bool" where
  "elems_ok s ts \<longleftrightarrow> srv_good s \<and>
     (\<forall>i < length ts. \<forall>j < length ts. fst (ts ! i) = fst (ts ! j) \<longrightarrow> \<not> thread_over (snd (ts ! i)) \<longrightarrow>
        \<not> thread_over (snd (ts ! j)) \<longrightarrow> i = j) \<and>
     (\<forall>(a, c) \<in> set ts. \<not> thread_over c \<longrightarrow> thread_elem s a c) \<and>
     (\<forall>a. thread_done s a \<longrightarrow> (\<exists>c. (a, c) \<in> set ts \<and> (thread_finished c \<or> thread_over c)))"

lemma cl_step_kind:
  assumes "cl_step env g (cl_at c) = Some (g', pc)" and "\<forall>e. pc \<noteq> Cl_Fault e"
  shows "thread_finished (cl_next env c pc) \<longleftrightarrow> (\<exists>p pos. cl_at c = Cl_File p pos)"
    and "thread_over (cl_next env c pc) \<longleftrightarrow> thread_finished c" and "\<not> thread_over c"
  using assms
  by (cases "cl_at c"; auto simp: cl_step_def cl_start_def cl_receive_def cl_file_def cl_send_def thread_finished_def
      thread_over_def packet_next Let_def split: prod.splits sum.splits recv_answer.splits if_splits option.splits)+

lemma running_elem:
  assumes "elems_ok s ts" and "i < length ts" and "ts ! i = (a, c)" and "\<not> thread_over c"
  shows "thread_elem s a c"
  using assms nth_mem [of i ts] by (fastforce simp: elems_ok_def)

text \<open>The accesses of a thread find its element.\<close>

lemma access_ok:
  assumes "elems_ok s ts" and "i < length ts" and "ts ! i = (a, c)"
  shows "\<exists>s'. thread_access a (cl_at c) s = Inr s'"
  using running_elem [OF assms]
  by (cases "cl_at c") (auto simp: thread_access_def thread_over_def thread_elem_def thread_at_def set_thread_def split: option.splits)

text \<open>What they leave of the list and the other elements.\<close>

lemma access_effect:
  assumes "thread_access a (cl_at c) s = Inr s'" and "srv_good s" and "thread_elem s a c"
  shows "srv_good s'" and "open_fds s' = open_fds s" and "b \<noteq> a \<Longrightarrow> socketThread s' b = socketThread s b"
    and "\<exists>t t'. socketThread s a = Some t \<and> socketThread s' a = Some t' \<and> thread_ID t' = thread_ID t \<and>
      threadFD t' = threadFD t \<and> (isDone t' \<longleftrightarrow> isDone t \<or> (\<exists>p pos. cl_at c = Cl_File p pos))"
proof -
  obtain t where t: "socketThread s a = Some t" "thread_ID t \<noteq> None"
    using assms(3) by (auto simp: thread_elem_def split: option.splits)
  let ?s = "s\<lparr>socketThread := (socketThread s)(a \<mapsto> t\<lparr>isDone := True\<rparr>)\<rparr>"
  have "srv_good ?s" using assms(2) srv_good_done [OF _ t] by (auto simp: srv_good_def)
  moreover have "s' = (if \<exists>p pos. cl_at c = Cl_File p pos then ?s else s)"
    using assms(1) t by (cases "cl_at c") (auto simp: thread_access_def thread_at_def set_thread_def)
  ultimately show "srv_good s'" "open_fds s' = open_fds s" "b \<noteq> a \<Longrightarrow> socketThread s' b = socketThread s b"
    "\<exists>t t'. socketThread s a = Some t \<and> socketThread s' a = Some t' \<and> thread_ID t' = thread_ID t \<and>
      threadFD t' = threadFD t \<and> (isDone t' \<longleftrightarrow> isDone t \<or> (\<exists>p pos. cl_at c = Cl_File p pos))"
    using assms(2) t(1) by (simp_all split: if_splits)
qed

lemma elems_ok_thread:
  assumes ok: "elems_ok s ts" and i: "i < length ts" "ts ! i = (a, c)"
    and acc: "thread_access a (cl_at c) s = Inr s'" and step: "cl_step env g (cl_at c) = Some (g', pc)"
    and nf: "\<forall>e. pc \<noteq> Cl_Fault e"
  shows "elems_ok s' (ts[i := (a, cl_next env c pc)])"
proof -
  let ?c = "cl_next env c pc"
  note kind = cl_step_kind [OF step nf]
  have elem: "thread_elem s a c" by (rule running_elem [OF ok i kind(3)])
  have good: "srv_good s" using ok by (simp add: elems_ok_def)
  note eff = access_effect [OF acc good elem]
  have uniq: "j = i" if "j < length ts" "fst (ts ! j) = a" "\<not> thread_over (snd (ts ! j))" for j
    using ok i kind(3) that by (auto simp: elems_ok_def)
  have own: "\<not> thread_over ?c \<Longrightarrow> thread_elem s' a ?c"
    using elem eff(2,4) kind by (auto simp: thread_elem_def)
  have "thread_elem s' b d" if bd: "(b, d) \<in> set (ts[i := (a, ?c)])" "\<not> thread_over d" for b d
  proof -
    obtain j where j: "j < length ts" "(b, d) = ts[i := (a, ?c)] ! j" using bd(1) by (auto simp: in_set_conv_nth)
    show ?thesis
    proof (cases "j = i")
      case True
      then show ?thesis using j own bd(2) by simp
    next
      case False
      then have jd: "ts ! j = (b, d)" using j by simp
      then have "b \<noteq> a" using uniq [OF j(1)] bd(2) False by auto
      then show ?thesis
        using running_elem [OF ok j(1) jd bd(2)] eff(2,3) by (simp add: thread_elem_def split: option.splits)
    qed
  qed
  moreover have "\<exists>d. (b, d) \<in> set (ts[i := (a, ?c)]) \<and> (thread_finished d \<or> thread_over d)" if "thread_done s' b" for b
  proof (cases "b = a")
    case True
    then have "thread_finished ?c \<or> thread_over ?c"
      using that elem eff(4) kind by (auto simp: thread_done_def thread_elem_def)
    then show ?thesis using True i(1) set_update_memI [of i ts] by blast
  next
    case False
    then have "thread_done s b" using that eff(3) by (simp add: thread_done_def)
    then obtain d where d: "(b, d) \<in> set ts" "thread_finished d \<or> thread_over d"
      using ok by (auto simp: elems_ok_def)
    then obtain j where "j < length ts" "ts ! j = (b, d)" by (auto simp: in_set_conv_nth)
    moreover from this have "j \<noteq> i" using i(2) False by auto
    ultimately have "(b, d) \<in> set (ts[i := (a, ?c)])" by (metis length_list_update nth_list_update_neq nth_mem)
    then show ?thesis using d(2) by blast
  qed
  moreover have "l = j" if lj: "l < length ts" "j < length ts" "fst (ts[i := (a, ?c)] ! l) = fst (ts[i := (a, ?c)] ! j)"
    "\<not> thread_over (snd (ts[i := (a, ?c)] ! l))" "\<not> thread_over (snd (ts[i := (a, ?c)] ! j))" for l j
  proof -
    have "fst (ts ! l) = fst (ts ! j)" "\<not> thread_over (snd (ts ! l))" "\<not> thread_over (snd (ts ! j))"
      using lj i kind(3) by (cases "l = i"; cases "j = i"; simp)+
    then show ?thesis using ok lj(1,2) by (auto simp: elems_ok_def)
  qed
  ultimately show ?thesis using eff(1) by (auto simp: elems_ok_def)
qed

text \<open>A round of the accept loop: a new element, perhaps a new thread, and at most one element freed.\<close>

lemma accept_effect:
  assumes "srv_good s" and a: "ae_malloc e = Some a" "a \<notin> dom (socketThread s)" and round: "accept_round e s = Inr s'"
  shows "srv_good s'" and "socketThread s' a = Some (new_thread e)" and "open_fds s' = accepted_fds e s"
    and "socketThread s' b \<noteq> None \<Longrightarrow> b \<noteq> a \<Longrightarrow> socketThread s' b = socketThread s b"
    and "present_files s' = present_files s"
proof -
  obtain xs where inv: "srv_inv xs s" using assms(1) by (auto simp: srv_good_def)
  have r: "srv_inv (a # reaped s xs) s'" "socketThread s' a = Some (new_thread e)" "open_fds s' = accepted_fds e s"
    "\<forall>x \<in> set (reaped s xs). socketThread s' x = socketThread s x" "present_files s' = present_files s"
    using accept_round_ok [OF inv a] round by auto
  show "socketThread s' b = socketThread s b" if "socketThread s' b \<noteq> None" "b \<noteq> a"
  proof -
    have "b \<in> set (a # reaped s xs)" using r(1) that(1) by (auto simp: srv_inv_def)
    then show ?thesis using r(4) that(2) by simp
  qed
  show "srv_good s'" using r(1) by (auto simp: srv_good_def)
  show "socketThread s' a = Some (new_thread e)" "open_fds s' = accepted_fds e s" "present_files s' = present_files s"
    by (fact r)+
qed

lemma elems_ok_accept:
  assumes ok: "elems_ok s ts" and a: "ae_malloc e = Some a" "a \<notin> dom (socketThread s)"
    and round: "accept_round e s = Inr s'"
    and joined: "\<forall>(b, c) \<in> set ts. socketThread s b \<noteq> None \<longrightarrow> socketThread s' b = None \<longrightarrow> thread_over c"
  shows "elems_ok s' (if ae_create e = None then ts else ts @ [(a, idle_client)])"
proof -
  let ?ts = "if ae_create e = None then ts else ts @ [(a, idle_client)]"
  have good: "srv_good s" using ok by (simp add: elems_ok_def)
  note r = accept_effect(1-3) [OF good a round] and kept = accept_effect(4) [OF good a round]
  have idle: "\<not> thread_over idle_client" "\<not> thread_finished idle_client"
    by (simp_all add: idle_client_def thread_over_def thread_finished_def)
  have run: "thread_elem s b c \<and> b \<noteq> a" if "(b, c) \<in> set ts" "\<not> thread_over c" for b c
    using ok that a(2) by (auto simp: elems_ok_def thread_elem_def)
  have elem: "thread_elem s' b c" if bc: "(b, c) \<in> set ts" "\<not> thread_over c" for b c
  proof -
    have "socketThread s b \<noteq> None" using run [OF bc] by (auto simp: thread_elem_def split: option.splits)
    then have "socketThread s' b \<noteq> None" using joined bc by blast
    then have "socketThread s' b = socketThread s b" using kept run [OF bc] by simp
    then show ?thesis using run [OF bc] r(3) by (auto simp: thread_elem_def accepted_fds_def split: option.splits)
  qed
  have new: "thread_elem s' a idle_client" if "ae_create e \<noteq> None"
    using that r(2,3) idle by (auto simp: thread_elem_def new_thread_def accepted_fds_def Let_def)
  have "\<exists>c. (b, c) \<in> set ?ts \<and> (thread_finished c \<or> thread_over c)" if "thread_done s' b" for b
  proof -
    have "b \<noteq> a" using that r(2) by (auto simp: thread_done_def new_thread_def Let_def split: if_splits)
    moreover have "socketThread s' b \<noteq> None" using that by (auto simp: thread_done_def split: option.splits)
    ultimately have "thread_done s b" using that kept [of b] by (simp add: thread_done_def)
    then show ?thesis using ok by (auto simp: elems_ok_def)
  qed
  moreover have "thread_elem s' b c" if "(b, c) \<in> set ?ts" "\<not> thread_over c" for b c
    using that elem new by (auto split: if_splits)
  moreover have "i = j" if ij: "i < length ?ts" "j < length ?ts" "fst (?ts ! i) = fst (?ts ! j)"
    "\<not> thread_over (snd (?ts ! i))" "\<not> thread_over (snd (?ts ! j))" for i j
  proof -
    have old: "fst (ts ! l) \<noteq> a" if "l < length ts" "\<not> thread_over (snd (ts ! l))" for l
      using run [of "fst (ts ! l)" "snd (ts ! l)"] that by simp
    have both: "i = j" if "i < length ts" "j < length ts"
      using ok ij that by (auto simp: elems_ok_def nth_append split: if_splits)
    show ?thesis
    proof (cases "i < length ts \<and> j < length ts")
      case False
      then have "ae_create e \<noteq> None" using ij(1,2) by (auto split: if_splits)
      then show ?thesis
        using False ij old [of i] old [of j] by (auto simp: nth_append less_Suc_eq split: if_splits)
    qed (use both in blast)
  qed
  ultimately show ?thesis using r(1) by (auto simp: elems_ok_def)
qed

section \<open>The process and its sessions\<close>

text \<open>A client that has not started yet may as well have been there from the start.\<close>

lemma sv_run_more:
  assumes "sv_run s tr t"
  shows "sv_run (fst s, snd s @ [c]) tr (fst t, snd t @ [c])"
  using assms
proof (induction rule: run.induct)
  case (Run_Nil s)
  show ?case by (rule run.Run_Nil)
next
  case (Run_Snoc s tr t ev u)
  from Run_Snoc.hyps(2) have "sv_step (fst t, snd t @ [c]) ev (fst u, snd u @ [c])"
  proof cases
    case (Step_Client i cs env g g' pc)
    then show ?thesis using sv_step.Step_Client [of i "cs @ [c]" env g g' pc] by (simp add: nth_append list_update_append)
  qed
  with Run_Snoc.IH show ?case by (rule run.Run_Snoc)
qed

text \<open>The sessions of a process are the interleaved clients of \<^verbatim>\<open>Socket_Clients\<close>.\<close>

definition sessions_of :: "shared \<Rightarrow> sv_event list \<Rightarrow> process \<Rightarrow> bool" where
  "sessions_of g0 tr p \<longleftrightarrow> (case p of (s, g, ts) \<Rightarrow> elems_ok s ts \<and>
     (\<exists>tr'. sv_run (g0, replicate (length ts) idle_client) tr' (g, map snd ts) \<and> stores tr' = stores tr))"

lemma sessions_inv:
  assumes "sv_run (g0, replicate n idle_client) tr (g, cs)" and "dev_rel (sv_dev g0) st" and "0 \<le> sv_count g0" and "\<not> sv_mutex g0"
  shows "sv_inv st (sv_heap g0) tr (g, cs)"
  using sv_run_inv [OF assms] by (simp add: list_all_iff idle_client_def)

text \<open>No step of a thread ends in a fault.\<close>

lemma thread_no_fault:
  assumes sess: "sessions_of g0 tr p" and g0: "dev_rel (sv_dev g0) st" "0 \<le> sv_count g0" "\<not> sv_mutex g0"
    and p: "p = (s, g, ts)" and i: "i < length ts" "ts ! i = (a, c)" and env: "cl_env_ok env g c"
    and step: "cl_step env g (cl_at c) = Some (g', pc)"
  shows "\<forall>e. pc \<noteq> Cl_Fault e"
proof -
  obtain tr' where run: "sv_run (g0, replicate (length ts) idle_client) tr' (g, map snd ts)"
    using sess p by (auto simp: sessions_of_def)
  have "sv_run (g0, replicate (length ts) idle_client) (tr' @ [cl_event c]) (g', (map snd ts)[i := cl_next env c pc])"
    using sv_run_step [OF run _ _ env step] i by simp
  then have "sv_inv st (sv_heap g0) (tr' @ [cl_event c]) (g', (map snd ts)[i := cl_next env c pc])"
    by (rule sessions_inv [OF _ g0])
  moreover have "cl_next env c pc \<in> set ((map snd ts)[i := cl_next env c pc])" using i(1) by (simp add: set_update_memI)
  ultimately have "client_ok (sv_heap g') (cl_next env c pc)" by (simp add: sv_inv_def heap_ok_def)
  then show ?thesis by (auto simp: client_ok_def packet_next)
qed

lemma proc_step_sessions:
  assumes step: "proc_step p ev q" and sess: "sessions_of g0 tr p"
    and g0: "dev_rel (sv_dev g0) st" "0 \<le> sv_count g0" "\<not> sv_mutex g0"
  shows "sessions_of g0 (tr @ [ev]) q"
  using step
proof cases
  case (Proc_Accept s e a s' ts g)
  obtain tr' where run: "elems_ok s ts" "sv_run (g0, replicate (length ts) idle_client) tr' (g, map snd ts)" "stores tr' = stores tr"
    using sess Proc_Accept by (auto simp: sessions_of_def)
  have "elems_ok s' (if ae_create e = None then ts else ts @ [(a, idle_client)])"
    using elems_ok_accept [OF run(1)] Proc_Accept by blast
  moreover have "sv_run (g0, replicate (length ts) idle_client @ [idle_client]) tr' (g, map snd ts @ [idle_client])"
    using sv_run_more [OF run(2), of idle_client] by simp
  ultimately show ?thesis
    using run Proc_Accept by (auto simp: sessions_of_def simp flip: replicate_append_same)
next
  case (Proc_Thread i ts a c s s' env g g' pc)
  obtain tr' where run: "elems_ok s ts" "sv_run (g0, replicate (length ts) idle_client) tr' (g, map snd ts)" "stores tr' = stores tr"
    using sess Proc_Thread by (auto simp: sessions_of_def)
  have next_run: "sv_run (g0, replicate (length ts) idle_client) (tr' @ [cl_event c]) (g', (map snd ts)[i := cl_next env c pc])"
    using sv_run_step [OF run(2)] Proc_Thread by simp
  have "\<forall>e. pc \<noteq> Cl_Fault e" by (rule thread_no_fault [OF sess g0]) (use Proc_Thread in auto)
  then have "elems_ok s' (ts[i := (a, cl_next env c pc)])"
    using elems_ok_thread [OF run(1)] Proc_Thread by blast
  then show ?thesis
    using next_run run(3) Proc_Thread by (auto simp: sessions_of_def map_update)
next
  case (Proc_Fault i ts a c s e g)
  have "elems_ok s ts" using sess Proc_Fault by (auto simp: sessions_of_def)
  moreover have "\<not> thread_over c"
    using Proc_Fault(6) by (auto simp: thread_access_def thread_over_def split: cl_pc.splits)
  ultimately show ?thesis using access_ok Proc_Fault(4-6) by fastforce
qed

text \<open>A process that starts on a device that represents \<open>st\<close>.\<close>

definition process_start :: "device \<Rightarrow> process \<Rightarrow> bool" where
  "process_start st p \<longleftrightarrow> (case p of (s, g, ts) \<Rightarrow>
     srv_start s \<and> dev_rel (sv_dev g) st \<and> 0 \<le> sv_count g \<and> \<not> sv_mutex g \<and> ts = [])"

interpretation process: event_machine proc_step "\<lambda>tr q. (\<exists>st s0. process_start st (s0, g0, [])) \<and> sessions_of g0 tr q"
  "\<lambda>tr ev. tr @ [ev]" for g0
  by unfold_locales (auto simp: process_start_def intro: proc_step_sessions)

lemma proc_run_sessions:
  assumes "proc_run (s, g, []) tr q" and "process_start st (s, g, [])"
  shows "sessions_of g tr q"
proof -
  have "srv_start s" using assms(2) by (simp add: process_start_def)
  then have "srv_good s" "socketThread s = Map.empty"
    using srv_good_start by (auto simp: srv_start_def socket_setup_def SLIST_INIT_def store_def Let_def split: if_splits)
  then have "sessions_of g [] (s, g, [])"
    by (auto simp: sessions_of_def elems_ok_def thread_done_def intro!: exI [of _ "[]"] run.Run_Nil)
  moreover have "\<exists>st s0. process_start st (s0, g, [])" using assms(2) by blast
  ultimately show ?thesis using process.run_inv [OF assms(1), of g "[]"] by (simp add: snoc_events)
qed

section \<open>The thread list and the threads\<close>

lemma run_split_stores:
  assumes "tr' = tr1 @ tr2" and "stores tr1 \<noteq> []" and "stores tr' = stores tr"
  shows "\<exists>k < length (stores tr). stores tr1 = take (Suc k) (stores tr) \<and> last (stores tr1) = stores tr ! k"
proof -
  have st: "stores tr = stores tr1 @ stores tr2" using assms(1,3) by simp
  obtain k where k: "length (stores tr1) = Suc k" using assms(2) by (cases "stores tr1") auto
  then have "k < length (stores tr)" "stores tr1 = take (Suc k) (stores tr)" "last (stores tr1) = stores tr ! k"
    using st assms(2) by (simp_all add: nth_append last_conv_nth)
  then show ?thesis by blast
qed

lemma process_clients:
  assumes "process_start st (s, g, [])" and "proc_run (s, g, []) tr (s', g', ts)"
  shows "elems_ok s' ts" and "\<exists>tr'. sv_run (g, replicate (length ts) idle_client) tr' (g', map snd ts) \<and> stores tr' = stores tr"
    and "dev_rel (sv_dev g) st" and "0 \<le> sv_count g" and "\<not> sv_mutex g"
  using proc_run_sessions [OF assms(2,1)] assms(1) by (auto simp: sessions_of_def process_start_def)

lemma idle_clients: "list_all (\<lambda>c. cl_at c = Cl_Start \<and> cl_got c = []) (replicate n idle_client)"
  by (simp add: list_all_iff idle_client_def)

lemma process_exclusive:
  assumes "process_start st (s, g, [])" and "proc_run (s, g, []) tr (s', g', ts)"
    and "i < length ts" and "j < length ts" and "cl_holds (cl_at (snd (ts ! i)))" and "cl_holds (cl_at (snd (ts ! j)))"
  shows "i = j"
proof -
  note P = process_clients [OF assms(1,2)]
  obtain tr' where "sv_run (g, replicate (length ts) idle_client) tr' (g', map snd ts)" using P(2) by blast
  from clients_served [OF this P(3-5) idle_clients] show ?thesis using assms(3-6) by simp
qed

text \<open>A set flag that the next round acts on belongs to a thread that is about to return.\<close>

lemma freed_done:
  assumes good: "srv_good s" and a: "ae_malloc e = Some a" "a \<notin> dom (socketThread s)"
    and round: "accept_round e s = Inr s'" and freed: "socketThread s b \<noteq> None" "socketThread s' b = None"
  shows "thread_done s b"
proof -
  obtain xs where inv: "srv_inv xs s" using good by (auto simp: srv_good_def)
  have inv': "srv_inv (a # reaped s xs) s'" using accept_round_ok [OF inv a] round by auto
  have "b \<in> set xs" using inv freed(1) by (auto simp: srv_inv_def)
  moreover have "b \<notin> set (reaped s xs)" using inv' freed(2) by (auto simp: srv_inv_def)
  ultimately have "find (thread_done s) xs = Some b"
    by (cases "find (thread_done s) xs"; cases "the (find (thread_done s) xs) = b") (simp_all add: reaped_def)
  then show ?thesis by (auto simp: find_Some_iff)
qed

lemma freed_finished:
  assumes "elems_ok s ts" and "ae_malloc e = Some a" and "a \<notin> dom (socketThread s)" and "accept_round e s = Inr s'"
    and "socketThread s b \<noteq> None" and "socketThread s' b = None" and "(b, c) \<in> set ts" and "\<not> thread_over c"
  shows "thread_finished c"
proof -
  have "srv_good s" "thread_elem s b c" using assms(1,7,8) by (auto simp: elems_ok_def)
  then show ?thesis using freed_done [OF _ assms(2-6)] by (auto simp: thread_done_def thread_elem_def split: option.splits)
qed

lemma finish_step:
  assumes "i < length ts" and "ts ! i = (b, c)" and "thread_finished c"
  shows "\<exists>g' c'. proc_step (s, g, ts) Sv_Silent (s, g', ts[i := (b, c')]) \<and> thread_over c'"
proof -
  obtain sent where at: "cl_at c = Cl_Finished sent" using assms(3) by (auto simp: thread_finished_def split: cl_pc.splits)
  let ?env = "step_env None Recv_Error sample_env" and ?g = "g\<lparr>sv_mutex := False\<rparr>"
  have "proc_step (s, g, ts) (cl_event c) (s, ?g, ts[i := (b, cl_next ?env c (Cl_Done sent))])"
    using assms(1,2) at by (intro Proc_Thread) (auto simp: thread_access_def fd_answers_def cl_env_ok_def cl_step_def)
  then show ?thesis
    using at by (intro exI [of _ ?g] exI [of _ "cl_next ?env c (Cl_Done sent)"])
      (simp add: cl_event_def cl_next_def thread_over_def)
qed

text \<open>
  What a round that leads from \<open>s\<close> to \<open>s'\<close> waits for in \<^verbatim>\<open>pthread_join\<close>: a thread whose element it frees
  and that has not returned. When such threads are finished at most one exists, since a finished
  thread still has the mutex, and its last step lets the round go on.
\<close>

definition waits_for :: "server \<Rightarrow> server \<Rightarrow> nat \<times> client \<Rightarrow> bool" where
  "waits_for s s' x \<longleftrightarrow> socketThread s (fst x) \<noteq> None \<and> socketThread s' (fst x) = None \<and> \<not> thread_over (snd x)"

lemma finished_holds: "thread_finished c \<Longrightarrow> cl_holds (cl_at c)"
  by (cases "cl_at c") (simp_all add: thread_finished_def)

lemma waiting_returns:
  assumes fin: "\<And>i. i < length ts \<Longrightarrow> waits_for s s' (ts ! i) \<Longrightarrow> thread_finished (snd (ts ! i))"
    and excl: "\<And>i j. i < length ts \<Longrightarrow> j < length ts \<Longrightarrow> cl_holds (cl_at (snd (ts ! i))) \<Longrightarrow>
      cl_holds (cl_at (snd (ts ! j))) \<Longrightarrow> i = j"
  shows "\<exists>tr g' ts'. length tr \<le> 1 \<and> proc_run (s, g, ts) tr (s, g', ts') \<and> (\<forall>x \<in> set ts'. \<not> waits_for s s' x)"
proof (cases "\<forall>x \<in> set ts. \<not> waits_for s s' x")
  case True
  moreover have "length ([] :: sv_event list) \<le> 1" by simp
  ultimately show ?thesis using Run_Nil [of proc_step "(s, g, ts)"] by blast
next
  case False
  then obtain i where i: "i < length ts" "waits_for s s' (ts ! i)" unfolding all_set_conv_all_nth by blast
  obtain b c where bc: "ts ! i = (b, c)" by fastforce
  have "thread_finished c" using fin [OF i] bc by simp
  then obtain g' c' where last: "proc_step (s, g, ts) Sv_Silent (s, g', ts[i := (b, c')])" "thread_over c'"
    using finish_step [OF i(1) bc] by blast
  have "j = i" if "j < length ts" "waits_for s s' (ts ! j)" for j
    using excl [OF that(1) i(1)] fin [OF that] fin [OF i] finished_holds by blast
  then have "\<not> waits_for s s' (ts[i := (b, c')] ! j)" if "j < length ts" for j
    using that last(2) by (cases "j = i") (auto simp: waits_for_def [of _ _ "(b, c')"])
  then have "\<forall>x \<in> set (ts[i := (b, c')]). \<not> waits_for s s' x" by (simp add: all_set_conv_all_nth)
  moreover have "proc_run (s, g, ts) ([] @ [Sv_Silent]) (s, g', ts[i := (b, c')])"
    using last(1) by (rule Run_Snoc [OF Run_Nil])
  moreover have "length ([] @ [Sv_Silent]) \<le> 1" by simp
  ultimately show ?thesis by blast
qed

section \<open>Properties\<close>


text \<open>A process that has accepted one connection.\<close>

lemma listening_process: "process_start empty_device (listening_server, quiet_server, [])"
  using listening_start fresh_dev_rel by (simp add: process_start_def quiet_server_def)

lemma accepting_process:
  "\<exists>s'. proc_run (listening_server, quiet_server, []) [Sv_Silent] (s', quiet_server, [(10, idle_client)])"
proof -
  obtain s' where "accept_round (client_env 5 10) listening_server = Inr s'"
    using accept_round_ok [OF listening_inv, of "client_env 5 10" 10]
    by (auto simp: client_env_def listening_server_def boot_server_def)
  then have "proc_step (listening_server, quiet_server, []) Sv_Silent (s', quiet_server, [(10, idle_client)])"
    using Proc_Accept [of listening_server "client_env 5 10" 10 s' "[]" quiet_server]
    by (auto simp: client_env_def fresh_fd_def listening_server_def boot_server_def)
  then show ?thesis using Run_Snoc [OF Run_Nil, of proc_step] by fastforce
qed


text \<open>
  C32: The accept loop never waits for good. Whatever process state has been reached, when a
  connection is accepted and the allocation is granted the round takes place, after at most one
  step of a thread: \<^verbatim>\<open>pthread_join\<close> is only called for a thread that has set its flag, and that
  thread only has to release the mutex and return.
\<close>

theorem accept_loop_joins:
  assumes "process_start st (s, g, [])" and "proc_run (s, g, []) tr (s', g', ts)"
    and "\<not> doneFlag s'" and "fresh_fd e s'" and "ae_malloc e = Some a" and "a \<notin> dom (socketThread s')"
  shows "\<exists>s'' tr' g'' ts' ts''. accept_round e s' = Inr s'' \<and> length tr' \<le> 1 \<and> proc_run (s', g', ts) tr' (s', g'', ts') \<and>
    proc_step (s', g'', ts') Sv_Silent (s'', g'', ts'') \<and> (ae_create e \<noteq> None \<longrightarrow> (a, idle_client) \<in> set ts'')"
proof -
  have ok: "elems_ok s' ts" by (rule process_clients(1) [OF assms(1,2)])
  then obtain xs where "srv_inv xs s'" by (auto simp: elems_ok_def srv_good_def)
  from accept_round_ok [OF this assms(5,6)] obtain s'' where round: "accept_round e s' = Inr s''" by blast
  have "thread_finished (snd (ts ! i))" if "i < length ts" "waits_for s' s'' (ts ! i)" for i
    using freed_finished [OF ok assms(5,6) round, of "fst (ts ! i)" "snd (ts ! i)"] that by (simp add: waits_for_def)
  then obtain tr' g'' ts' where r: "length tr' \<le> 1" "proc_run (s', g', ts) tr' (s', g'', ts')"
    "\<forall>x \<in> set ts'. \<not> waits_for s' s'' x"
    using waiting_returns process_exclusive [OF assms(1,2)] by blast
  have "proc_step (s', g'', ts') Sv_Silent (s'', g'', if ae_create e = None then ts' else ts' @ [(a, idle_client)])"
    by (rule Proc_Accept [OF assms(3-6) round]) (use r(3) in \<open>auto simp: waits_for_def\<close>)
  then show ?thesis using round r(1,2) by (intro exI conjI) (assumption, assumption, assumption, assumption, simp)
qed

theorem accept_loop_joins_witness:
  "\<exists>s'' g'' ts''. accept_round (client_env 5 10) listening_server = Inr s'' \<and> (10, idle_client) \<in> set ts'' \<and>
     (\<exists>ts'. proc_step (listening_server, g'', ts') Sv_Silent (s'', g'', ts''))"
proof -
  have "\<not> doneFlag listening_server" "fresh_fd (client_env 5 10) listening_server" "ae_malloc (client_env 5 10) = Some 10"
    "10 \<notin> dom (socketThread listening_server)" "ae_create (client_env 5 10) \<noteq> None"
    by (simp_all add: client_env_def fresh_fd_def listening_server_def boot_server_def)
  then show ?thesis
    using accept_loop_joins [OF listening_process Run_Nil, of "client_env 5 10" 10] by blast
qed

end
