(* ===== verification/Socket_Ends.thy ===== *)
theory Socket_Ends
  imports Socket_Process
begin

text \<open>
  How the process of \<^verbatim>\<open>server/aesdsocket.c\<close> ends: its descriptors, which are never closed, a failed
  \<^verbatim>\<open>accept\<close>, which the code does not test, and the signals.
\<close>

section \<open>Descriptors\<close>

text \<open>A thread that runs on the \<open>-1\<close> of a failed \<^verbatim>\<open>accept\<close>.\<close>

definition deaf :: "server \<Rightarrow> nat \<times> client \<Rightarrow> bool" where
  "deaf s x \<longleftrightarrow> \<not> thread_over (snd x) \<and> (case socketThread s (fst x) of None \<Rightarrow> False | Some t \<Rightarrow> threadFD t < 0)"

text \<open>A thread that has received nothing.\<close>

definition heard_nothing :: "client \<Rightarrow> bool" where
  "heard_nothing c \<longleftrightarrow> cl_got c = [] \<and> (case cl_at c of Cl_Start \<Rightarrow> True | Cl_Receive p buffer j \<Rightarrow> True | _ \<Rightarrow> False)"

text \<open>
  At least \<open>n\<close> descriptors and one for every thread that is not deaf are open, the elements have
  different descriptors, and a deaf thread has received nothing.
\<close>

definition own_fds :: "server \<Rightarrow> bool" where
  "own_fds s \<longleftrightarrow> (\<forall>a b t u. socketThread s a = Some t \<longrightarrow> socketThread s b = Some u \<longrightarrow> 0 \<le> threadFD t \<longrightarrow>
     threadFD t \<in> open_fds s \<and> (threadFD t = threadFD u \<longrightarrow> a = b))"

definition fds_ok :: "nat \<Rightarrow> server \<Rightarrow> (nat \<times> client) list \<Rightarrow> bool" where
  "fds_ok n s ts \<longleftrightarrow> finite (open_fds s) \<and> n + length (filter (\<lambda>x. \<not> deaf s x) ts) \<le> card (open_fds s) \<and> own_fds s \<and>
     (\<forall>x \<in> set ts. deaf s x \<longrightarrow> heard_nothing (snd x))"

lemma own_fds_accept:
  assumes own: "own_fds s" and good: "srv_good s" and a: "ae_malloc e = Some a" "a \<notin> dom (socketThread s)"
    and round: "accept_round e s = Inr s'" and fd: "fresh_fd e s"
  shows "own_fds s'"
proof -
  note r = accept_effect(2,3) [OF good a round] and kept = accept_effect(4) [OF good a round]
  have new: "threadFD (new_thread e) = ae_fd e" by (simp add: new_thread_def Let_def)
  have old: "socketThread s b = Some t" if "socketThread s' b = Some t" "b \<noteq> a" for b t using kept [of b] that by simp
  have fds: "open_fds s \<subseteq> open_fds s'" "0 \<le> ae_fd e \<Longrightarrow> ae_fd e \<in> open_fds s' \<and> ae_fd e \<notin> open_fds s"
    using r(2) fd by (auto simp: accepted_fds_def fresh_fd_def)
  have opened: "threadFD t \<in> open_fds s" if "socketThread s b = Some t" "0 \<le> threadFD t" for b t
    using own that unfolding own_fds_def by blast
  have "threadFD t \<in> open_fds s' \<and> (threadFD t = threadFD u \<longrightarrow> b = d)"
    if t: "socketThread s' b = Some t" and u: "socketThread s' d = Some u" and "0 \<le> threadFD t" for b d t u
  proof (cases "b = a")
    case True
    then have "threadFD t = ae_fd e" using t r(1) new by simp
    then show ?thesis using True fds \<open>0 \<le> threadFD t\<close> opened [OF old [OF u]] by (cases "d = a") auto
  next
    case b: False
    note t = old [OF t b]
    have "threadFD t \<in> open_fds s" by (rule opened [OF t \<open>0 \<le> threadFD t\<close>])
    moreover have "threadFD u = ae_fd e" if "d = a" using that u r(1) new by simp
    moreover have "threadFD t = threadFD u \<longrightarrow> b = d" if "d \<noteq> a"
      using own t old [OF u that] \<open>0 \<le> threadFD t\<close> unfolding own_fds_def by blast
    ultimately show ?thesis using fds \<open>0 \<le> threadFD t\<close> by (cases "d = a") auto
  qed
  then show ?thesis unfolding own_fds_def by blast
qed

lemma deaf_accept:
  assumes ok: "elems_ok s ts" and a: "ae_malloc e = Some a" "a \<notin> dom (socketThread s)"
    and round: "accept_round e s = Inr s'"
    and joined: "\<forall>(b, c) \<in> set ts. socketThread s b \<noteq> None \<longrightarrow> socketThread s' b = None \<longrightarrow> thread_over c"
    and x: "x \<in> set ts"
  shows "deaf s' x \<longleftrightarrow> deaf s x"
proof (cases "thread_over (snd x)")
  case False
  have good: "srv_good s" using ok by (simp add: elems_ok_def)
  have "thread_elem s (fst x) (snd x)" using ok x False by (auto simp: elems_ok_def)
  then have here: "socketThread s (fst x) \<noteq> None" by (auto simp: thread_elem_def split: option.splits)
  then have "fst x \<noteq> a" using a(2) by auto
  moreover have "socketThread s' (fst x) \<noteq> None" using joined x here False by (cases x) auto
  ultimately show ?thesis using accept_effect(4) [OF good a round] by (simp add: deaf_def)
qed (simp add: deaf_def)

lemma fds_ok_accept:
  assumes ok: "elems_ok s ts" and fds: "fds_ok n s ts" and fd: "fresh_fd e s"
    and a: "ae_malloc e = Some a" "a \<notin> dom (socketThread s)" and round: "accept_round e s = Inr s'"
    and joined: "\<forall>(b, c) \<in> set ts. socketThread s b \<noteq> None \<longrightarrow> socketThread s' b = None \<longrightarrow> thread_over c"
  shows "fds_ok n s' (if ae_create e = None then ts else ts @ [(a, idle_client)])"
proof -
  have good: "srv_good s" using ok by (simp add: elems_ok_def)
  note r = accept_effect(2,3) [OF good a round]
  note same = deaf_accept [OF ok a round joined]
  have own: "own_fds s'" using own_fds_accept [OF _ good a round fd] fds by (simp add: fds_ok_def)
  have "filter (\<lambda>x. \<not> deaf s' x) ts = filter (\<lambda>x. \<not> deaf s x) ts" using same by (intro filter_cong) auto
  moreover have "deaf s' (a, idle_client) \<longleftrightarrow> ae_fd e < 0"
    using r(1) by (simp add: deaf_def idle_client_def thread_over_def new_thread_def Let_def)
  moreover have "heard_nothing idle_client" by (simp add: heard_nothing_def idle_client_def)
  moreover have "finite (open_fds s')" "card (open_fds s') = card (open_fds s) + (if ae_fd e < 0 then 0 else 1)"
    using fds fd r(2) by (auto simp: fds_ok_def fresh_fd_def accepted_fds_def)
  ultimately show ?thesis using fds own same by (auto simp: fds_ok_def)
qed

text \<open>A step of a thread leaves the descriptors of all elements.\<close>

lemma access_fds:
  assumes "thread_access a (cl_at c) s = Inr s'" and "srv_good s" and "thread_elem s a c"
  shows "map_option threadFD (socketThread s' b) = map_option threadFD (socketThread s b)"
  using access_effect(3) [OF assms, of b] access_effect(4) [OF assms] by (cases "b = a") auto

lemma deaf_iff: "deaf s x \<longleftrightarrow> \<not> thread_over (snd x) \<and> (\<exists>d < 0. map_option threadFD (socketThread s (fst x)) = Some d)"
  by (auto simp: deaf_def split: option.splits)

lemma own_fds_iff:
  "own_fds s \<longleftrightarrow> (\<forall>a b d e. map_option threadFD (socketThread s a) = Some d \<longrightarrow> map_option threadFD (socketThread s b) = Some e \<longrightarrow>
     0 \<le> d \<longrightarrow> d \<in> open_fds s \<and> (d = e \<longrightarrow> a = b))" (is "_ = ?fds")
proof
  assume ?fds
  then have "threadFD t \<in> open_fds s \<and> (threadFD t = threadFD u \<longrightarrow> a = b)"
    if "socketThread s a = Some t" "socketThread s b = Some u" "0 \<le> threadFD t" for a b t u
    using that by (elim allE [of _ a] allE [of _ b] allE [of _ "threadFD t"] allE [of _ "threadFD u"]) simp
  then show "own_fds s" unfolding own_fds_def by blast
qed (auto simp: own_fds_def)

lemma deaf_start:
  assumes "cl_step env g (cl_at c) = Some (g', pc)" and "\<forall>e. pc \<noteq> Cl_Fault e" and "heard_nothing c"
    and "\<forall>p b j. cl_at c \<noteq> Cl_Receive p b j"
  shows "heard_nothing (cl_next env c pc)"
proof -
  have "cl_at c = Cl_Start" using assms(3,4) by (cases "cl_at c") (auto simp: heard_nothing_def)
  then show ?thesis
    using assms(1-3) by (auto simp: heard_nothing_def cl_step_def cl_start_def cl_next_def split: prod.splits sum.splits)
qed

text \<open>No step changes whether a thread is deaf.\<close>

lemma deaf_thread:
  assumes ok: "elems_ok s ts" and fds: "fds_ok n s ts" and i: "i < length ts" "ts ! i = (a, c)"
    and acc: "thread_access a (cl_at c) s = Inr s'" and answers: "fd_answers a (cl_at c) s"
    and step: "cl_step env g (cl_at c) = Some (g', pc)" and nf: "\<forall>e. pc \<noteq> Cl_Fault e"
  shows "j < length ts \<Longrightarrow> deaf s' (ts[i := (a, cl_next env c pc)] ! j) \<longleftrightarrow> deaf s (ts ! j)"
    and "deaf s (a, c) \<Longrightarrow> heard_nothing (cl_next env c pc)"
proof -
  note kind = cl_step_kind [OF step nf]
  have good: "srv_good s" using ok by (simp add: elems_ok_def)
  note same = access_fds [OF acc good running_elem [OF ok i kind(3)]]
  have quiet: "heard_nothing (cl_next env c pc)" "\<not> thread_finished c" if "deaf s (a, c)"
  proof -
    have h: "heard_nothing c" using fds that nth_mem [OF i(1)] i(2) by (force simp: fds_ok_def)
    have "\<forall>p b j. cl_at c \<noteq> Cl_Receive p b j"
      using answers that by (auto simp: fd_answers_def deaf_def split: option.splits)
    then show "heard_nothing (cl_next env c pc)" by (rule deaf_start [OF step nf h])
    show "\<not> thread_finished c" using h by (cases "cl_at c") (auto simp: heard_nothing_def thread_finished_def)
  qed
  then show "deaf s (a, c) \<Longrightarrow> heard_nothing (cl_next env c pc)" by blast
  show "deaf s' (ts[i := (a, cl_next env c pc)] ! j) \<longleftrightarrow> deaf s (ts ! j)" if "j < length ts"
    using that i kind(2,3) same quiet(2) by (cases "j = i") (auto simp: deaf_iff)
qed

lemma fds_ok_thread:
  assumes ok: "elems_ok s ts" and fds: "fds_ok n s ts" and i: "i < length ts" "ts ! i = (a, c)"
    and acc: "thread_access a (cl_at c) s = Inr s'" and answers: "fd_answers a (cl_at c) s"
    and step: "cl_step env g (cl_at c) = Some (g', pc)" and nf: "\<forall>e. pc \<noteq> Cl_Fault e"
  shows "fds_ok n s' (ts[i := (a, cl_next env c pc)])"
proof -
  let ?ts = "ts[i := (a, cl_next env c pc)]"
  have good: "srv_good s" using ok by (simp add: elems_ok_def)
  have elem: "thread_elem s a c" by (rule running_elem [OF ok i cl_step_kind(3) [OF step nf]])
  note same = access_fds [OF acc good elem] and open_same = access_effect(2) [OF acc good elem]
  note deaf = deaf_thread [OF ok fds i acc answers step nf]
  have "length (filter (\<lambda>x. \<not> deaf s' x) ?ts) = length (filter (\<lambda>x. \<not> deaf s x) ts)"
    unfolding length_filter_conv_card using deaf(1) by (intro arg_cong [of _ _ card]) auto
  moreover have "own_fds s'" using fds same open_same by (simp add: fds_ok_def own_fds_iff)
  moreover have "heard_nothing (snd x)" if x: "x \<in> set ?ts" "deaf s' x" for x
  proof -
    obtain j where j: "j < length ts" "x = ?ts ! j" using x(1) by (auto simp: in_set_conv_nth)
    then have "deaf s (ts ! j)" using deaf(1) x(2) by simp
    then show ?thesis using fds j deaf(2) i by (cases "j = i") (auto simp: fds_ok_def)
  qed
  ultimately show ?thesis using fds open_same by (auto simp: fds_ok_def)
qed

text \<open>Along the runs of a process.\<close>

definition process_fds :: "nat \<Rightarrow> shared \<Rightarrow> sv_event list \<Rightarrow> process \<Rightarrow> bool" where
  "process_fds n g0 tr p \<longleftrightarrow> sessions_of g0 tr p \<and> (case p of (s, g, ts) \<Rightarrow> fds_ok n s ts)"

lemma proc_step_fds:
  assumes step: "proc_step p ev q" and inv: "process_fds n g0 tr p" and start: "process_start st (s0, g0, [])"
  shows "process_fds n g0 (tr @ [ev]) q"
proof -
  have g0: "dev_rel (sv_dev g0) st" "0 \<le> sv_count g0" "\<not> sv_mutex g0" using start by (simp_all add: process_start_def)
  have sess: "sessions_of g0 tr p" using inv by (simp add: process_fds_def)
  have next_sess: "sessions_of g0 (tr @ [ev]) q" by (rule proc_step_sessions [OF step sess g0])
  from step show ?thesis
  proof cases
    case (Proc_Accept s e a s' ts g)
    then have "elems_ok s ts" "fds_ok n s ts" using inv by (simp_all add: process_fds_def sessions_of_def)
    then show ?thesis
      using fds_ok_accept [OF _ _ Proc_Accept(5) Proc_Accept(6-9)] next_sess Proc_Accept(1,3) by (simp add: process_fds_def)
  next
    case (Proc_Thread i ts a c s s' env g g' pc)
    have ok: "elems_ok s ts" "fds_ok n s ts" using inv Proc_Thread by (simp_all add: process_fds_def sessions_of_def)
    have "\<forall>e. pc \<noteq> Cl_Fault e" by (rule thread_no_fault [OF sess g0]) (use Proc_Thread in auto)
    then have "fds_ok n s' (ts[i := (a, cl_next env c pc)])" using fds_ok_thread [OF ok] Proc_Thread by blast
    then show ?thesis using next_sess Proc_Thread(1,3) by (simp add: process_fds_def)
  next
    case (Proc_Fault i ts a c s e g)
    have "elems_ok s ts" using inv Proc_Fault by (simp add: process_fds_def sessions_of_def)
    then show ?thesis using access_ok Proc_Fault(4-6) by fastforce
  qed
qed

lemma fds_ok_start: "srv_start s \<Longrightarrow> finite (open_fds s) \<Longrightarrow> fds_ok (card (open_fds s)) s []"
  by (auto simp: fds_ok_def own_fds_def srv_start_def socket_setup_def SLIST_INIT_def store_def Let_def split: if_splits)

interpretation fds: event_machine proc_step "\<lambda>tr q. (\<exists>st s0. process_start st (s0, g0, [])) \<and> process_fds n g0 tr q"
  "\<lambda>tr ev. tr @ [ev]" for n g0
  by unfold_locales (auto intro: proc_step_fds)

lemma proc_run_fds:
  assumes "process_start st (s, g, [])" and "finite (open_fds s)" and "proc_run (s, g, []) tr q"
  shows "process_fds (card (open_fds s)) g tr q"
proof -
  have "process_fds (card (open_fds s)) g [] (s, g, [])"
    using proc_run_sessions [OF run.Run_Nil assms(1)] fds_ok_start assms(1,2) by (simp add: process_fds_def process_start_def)
  moreover have "\<exists>st s0. process_start st (s0, g, [])" using assms(1) by blast
  ultimately show ?thesis using fds.run_inv [OF assms(3), of g "card (open_fds s)" "[]"] by (simp add: snoc_events)
qed

lemma proc_step_deaf:
  assumes step: "proc_step (s, g, ts) ev (s', g', ts')" and inv: "process_fds n g0 tr (s, g, ts)"
    and start: "process_start st (s0, g0, [])" and i: "i < length ts"
  shows "i < length ts' \<and> (deaf s' (ts' ! i) \<longleftrightarrow> deaf s (ts ! i))"
proof -
  have g0: "dev_rel (sv_dev g0) st" "0 \<le> sv_count g0" "\<not> sv_mutex g0" using start by (simp_all add: process_start_def)
  have ok: "sessions_of g0 tr (s, g, ts)" "elems_ok s ts" "fds_ok n s ts" using inv by (simp_all add: process_fds_def sessions_of_def)
  from step show ?thesis
  proof cases
    case (Proc_Accept e a)
    then show ?thesis using deaf_accept [OF ok(2) Proc_Accept(6-9)] i by (auto simp: nth_append)
  next
    case (Proc_Thread j a c env pc)
    have nf: "\<forall>e. pc \<noteq> Cl_Fault e" by (rule thread_no_fault [OF ok(1) g0 refl]) (use Proc_Thread in auto)
    then show ?thesis using deaf_thread(1) [OF ok(2,3) _ _ _ _ _ nf] Proc_Thread i by simp
  next
    case (Proc_Fault j a c e)
    then show ?thesis using access_ok [OF ok(2)] by fastforce
  qed
qed

lemma proc_run_deaf:
  assumes "proc_run p tr' q" and "process_fds n g0 tr p" and "process_start st (s0, g0, [])"
    and "i < length (snd (snd p))" and "deaf (fst p) (snd (snd p) ! i)"
  shows "i < length (snd (snd q)) \<and> deaf (fst q) (snd (snd q) ! i) \<and> process_fds n g0 (tr @ tr') q"
  using assms
proof (induction rule: run.induct)
  case (Run_Snoc p tr' q ev r)
  obtain s g ts s' g' ts' where qr: "q = (s, g, ts)" "r = (s', g', ts')" by (cases q; cases r)
  have IH: "i < length ts" "deaf s (ts ! i)" "process_fds n g0 (tr @ tr') (s, g, ts)"
    using Run_Snoc qr by auto
  have step: "proc_step (s, g, ts) ev (s', g', ts')" using Run_Snoc.hyps(2) qr by simp
  have "process_fds n g0 ((tr @ tr') @ [ev]) (s', g', ts')" by (rule proc_step_fds [OF step IH(3) Run_Snoc.prems(2)])
  then show ?case using proc_step_deaf [OF step IH(3) Run_Snoc.prems(2) IH(1)] IH(2) qr by simp
qed simp

section \<open>The end of the process\<close>

text \<open>
  The process ends when a signal runs \<^verbatim>\<open>signalHandler\<close>, which calls \<^verbatim>\<open>_exit\<close>, or when \<^verbatim>\<open>recv\<close> fails in a
  thread, which calls \<^verbatim>\<open>exit\<close>; other threads may be anywhere. The result is the status, the server's
  state and the kernel's.
\<close>

inductive proc_end :: "bool \<Rightarrow> process \<Rightarrow> int \<Rightarrow> server \<Rightarrow> kernel \<Rightarrow> bool" for use_dev :: bool where
  End_Signal: "signalHandler use_dev n s = (Some r, s') \<Longrightarrow> proc_end use_dev (s, g, ts) r s' (sv_dev g)"
| End_Thread: "\<lbrakk>i < length ts; ts ! i = (a, c); thread_access a (cl_at c) s = Inr s';
     cl_step env g (cl_at c) = Some (g', Cl_Exit r)\<rbrakk> \<Longrightarrow> proc_end use_dev (s, g, ts) r s' (sv_dev g')"

lemma cl_step_exit:
  assumes "cl_step env g pc = Some (g', Cl_Exit r)"
  shows "g' = g \<and> r = 1 \<and> (\<exists>p b j. pc = Cl_Receive p b j)"
  using assms
  by (cases pc) (auto simp: cl_step_def cl_start_def cl_receive_def cl_file_def cl_send_def Let_def
      split: prod.splits sum.splits recv_answer.splits if_splits option.splits)

lemma finite_card_filter:
  assumes "\<And>x. x \<in> set xs \<Longrightarrow> P x \<Longrightarrow> Q x"
  shows "length (filter P xs) \<le> length (filter Q xs)"
  using assms by (induction xs) auto

section \<open>Properties\<close>

text \<open>
  C36: The server runs out of descriptors. Every session has a descriptor of its own, so that no client
  gets the reply of another; but neither the thread nor the accept loop closes it. In every
  reachable state at least one descriptor is open for each session that has ever received
  anything, finished ones included, besides those open at the start: a process with a limit of
  \<open>L\<close> descriptors serves fewer than \<open>L\<close> clients.
\<close>

theorem descriptors_run_out:
  assumes "process_start st (s, g, [])" and "finite (open_fds s)" and "proc_run (s, g, []) tr (s', g', ts)"
  shows "finite (open_fds s') \<and>
    card (open_fds s) + length (filter (\<lambda>(a, c). \<not> heard_nothing c) ts) \<le> card (open_fds s') \<and>
    (\<forall>a b t u. socketThread s' a = Some t \<longrightarrow> socketThread s' b = Some u \<longrightarrow> 0 \<le> threadFD t \<longrightarrow>
       threadFD t = threadFD u \<longrightarrow> a = b)"
proof -
  have ok: "fds_ok (card (open_fds s)) s' ts"
    using proc_run_fds [OF assms] by (simp add: process_fds_def)
  have "length (filter (\<lambda>(a, c). \<not> heard_nothing c) ts) \<le> length (filter (\<lambda>x. \<not> deaf s' x) ts)"
    using ok by (intro finite_card_filter) (auto simp: fds_ok_def)
  then show ?thesis using ok by (auto simp: fds_ok_def own_fds_def)
qed

text \<open>A process that has accepted a connection and received a packet on it.\<close>

lemma proc_run_thread:
  assumes "proc_run p tr (s, g, [(a, c)])" and "thread_access a (cl_at c) s = Inr s'" and "fd_answers a (cl_at c) s"
    and "cl_env_ok env g c" and "cl_step env g (cl_at c) = Some (g', pc)"
  shows "proc_run p (tr @ [cl_event c]) (s', g', [(a, cl_next env c pc)])"
  using Run_Snoc [OF assms(1)] Proc_Thread [of 0 "[(a, c)]" a c s s' env g g' pc] assms(2-5) by simp

lemma receiving_process:
  "\<exists>s' g' q. proc_run (listening_server, quiet_server, []) [Sv_Silent, Sv_Silent, Sv_Silent]
     (s', g', [(10, \<lparr>cl_got = [''hi'' @ [NEWLINE]], cl_at = Cl_Packet q\<rparr>)])"
proof -
  let ?z = "replicate BUFFER_SIZE NUL" and ?hi = "''hi'' @ [NEWLINE]"
  obtain s' where acc: "accept_round (client_env 5 10) listening_server = Inr s'"
    "socketThread s' 10 = Some (new_thread (client_env 5 10))" "open_fds s' = accepted_fds (client_env 5 10) listening_server"
    using accept_round_ok [OF listening_inv, of "client_env 5 10" 10]
    by (auto simp: client_env_def listening_server_def boot_server_def)
  have run1: "proc_run (listening_server, quiet_server, []) [Sv_Silent] (s', quiet_server, [(10, idle_client)])"
    using Run_Snoc [OF Run_Nil, of proc_step] Proc_Accept [of listening_server "client_env 5 10" 10 s' "[]" quiet_server] acc(1)
    by (fastforce simp: client_env_def fresh_fd_def listening_server_def boot_server_def)
  let ?h = "[1 \<mapsto> map Some ?z]" and ?c = "\<lparr>cl_got = [], cl_at = Cl_Receive (Ptr 1) (replicate BUFFER_SIZE NUL) 0\<rparr>"
  have "cl_start (Some 1) quiet_server = (quiet_server\<lparr>sv_heap := ?h\<rparr>, Cl_Receive (Ptr 1) ?z 0)"
    by (simp add: cl_start_def malloc_def mem_write_def quiet_server_def)
  then have run2: "proc_run (listening_server, quiet_server, []) [Sv_Silent, Sv_Silent] (s', quiet_server\<lparr>sv_heap := ?h\<rparr>, [(10, ?c)])"
    using proc_run_thread [OF run1, of s' "step_env (Some 1) Recv_Error sample_env"]
    by (simp add: idle_client_def thread_access_def fd_answers_def cl_env_ok_def step_env_def cl_step_def cl_event_def
        cl_next_def quiet_server_def)
  have "str_at (sv_heap (quiet_server\<lparr>sv_heap := ?h\<rparr>)) (Ptr 1) []" using str_at_zeros [of Map.empty 1] by simp
  then obtain st where st: "rx_round \<lparr>rx_heap = ?h, outputBuffer = Ptr 1, rx_buffer = ?z, rx_j = 0, data_count = 0\<rparr> ?hi (Some 1) =
      Inr (True, st)"
    using cl_receive_round [of "quiet_server\<lparr>sv_heap := ?h\<rparr>" "Ptr 1" "[]" 0 ?hi 1] by (auto simp: quiet_server_def chunk_fits_def)
  have "fd_answers 10 (Cl_Receive (Ptr 1) ?z 0) s'"
    using acc(2,3) by (simp add: fd_answers_def new_thread_def client_env_def accepted_fds_def Let_def)
  then show ?thesis
    using proc_run_thread [OF run2, of s' "step_env (Some 1) (Recv ?hi) sample_env"] st acc(2)
    by (auto simp: thread_access_def thread_at_def cl_env_ok_def step_env_def cl_step_def cl_receive_def cl_event_def
        cl_next_def quiet_server_def chunk_fits_def)
qed

theorem descriptors_run_out_witness:
  "\<exists>tr s' g' c. proc_run (listening_server, quiet_server, []) tr (s', g', [(10, c)]) \<and> card (open_fds listening_server) = 1 \<and>
     2 \<le> card (open_fds s')"
proof -
  obtain s' g' q where run: "proc_run (listening_server, quiet_server, []) [Sv_Silent, Sv_Silent, Sv_Silent]
     (s', g', [(10, \<lparr>cl_got = [''hi'' @ [NEWLINE]], cl_at = Cl_Packet q\<rparr>)])"
    using receiving_process by blast
  have fds: "open_fds listening_server = {3}" by (simp add: listening_server_def)
  then have "2 \<le> card (open_fds s')" using descriptors_run_out [OF listening_process _ run] by (simp add: heard_nothing_def)
  with run fds show ?thesis by (metis card_1_singleton_iff One_nat_def)
qed


text \<open>
  C34: A failed \<^verbatim>\<open>accept\<close> ends the server. When \<^verbatim>\<open>accept\<close> fails, for instance because the descriptors have
  run out, the loop still creates a thread, with the descriptor \<open>-1\<close>. Whatever happens then, this
  thread never receives anything; and as soon as it has run up to its \<^verbatim>\<open>recv\<close>, which cannot but
  fail, it ends the whole process with status 1, and every other session with it
  (\<^verbatim>\<open>aesdsocket.c\<close> lines 163 and 214).
\<close>

theorem failed_accept_ends_process:
  assumes "process_start st (s, g, [])" and "finite (open_fds s)" and "proc_run (s, g, []) tr (s', g', ts)"
    and "proc_step (s', g', ts) Sv_Silent (s'', g', ts @ [(a, idle_client)])"
    and "socketThread s'' a = Some t" and "threadFD t < 0" and "sv_heap g' b = None"
  shows "(\<forall>tr' s3 g3 ts3. proc_run (s'', g', ts @ [(a, idle_client)]) tr' (s3, g3, ts3) \<longrightarrow>
      length ts < length ts3 \<and> heard_nothing (snd (ts3 ! length ts))) \<and>
    (\<exists>g3 ts3. proc_run (s'', g', ts @ [(a, idle_client)]) [Sv_Silent] (s'', g3, ts3) \<and>
      proc_end use_dev (s'', g3, ts3) 1 s'' (sv_dev g3))"
proof
  let ?p = "(s'', g', ts @ [(a, idle_client)])"
  have run: "proc_run (s, g, []) (tr @ [Sv_Silent]) ?p" by (rule Run_Snoc [OF assms(3,4)])
  have fds: "process_fds (card (open_fds s)) g (tr @ [Sv_Silent]) ?p" by (rule proc_run_fds [OF assms(1,2) run])
  have deaf: "deaf s'' (a, idle_client)" using assms(5,6) by (simp add: deaf_def idle_client_def thread_over_def)
  show "\<forall>tr' s3 g3 ts3. proc_run ?p tr' (s3, g3, ts3) \<longrightarrow> length ts < length ts3 \<and> heard_nothing (snd (ts3 ! length ts))"
  proof (intro allI impI)
    fix tr' s3 g3 ts3 assume "proc_run ?p tr' (s3, g3, ts3)"
    from proc_run_deaf [OF this fds assms(1), of "length ts"] deaf
    show "length ts < length ts3 \<and> heard_nothing (snd (ts3 ! length ts))" by (auto simp: process_fds_def fds_ok_def)
  qed
  let ?h = "(sv_heap g')(b \<mapsto> map Some (replicate BUFFER_SIZE NUL))"
  let ?c = "\<lparr>cl_got = [], cl_at = Cl_Receive (Ptr b) (replicate BUFFER_SIZE NUL) 0\<rparr>"
  have "cl_start (Some b) g' = (g'\<lparr>sv_heap := ?h\<rparr>, Cl_Receive (Ptr b) (replicate BUFFER_SIZE NUL) 0)"
    by (simp add: cl_start_def malloc_def mem_write_def)
  then have "proc_step ?p (cl_event idle_client) (s'', g'\<lparr>sv_heap := ?h\<rparr>,
      (ts @ [(a, idle_client)])[length ts := (a, cl_next (step_env (Some b) Recv_Error sample_env) idle_client
        (Cl_Receive (Ptr b) (replicate BUFFER_SIZE NUL) 0))])"
    using assms(7) by (intro Proc_Thread)
      (auto simp: idle_client_def thread_access_def fd_answers_def cl_env_ok_def step_env_def cl_step_def)
  then have "proc_step ?p Sv_Silent (s'', g'\<lparr>sv_heap := ?h\<rparr>, ts @ [(a, ?c)])"
    by (simp add: cl_event_def cl_next_def idle_client_def)
  then have "proc_run ?p [Sv_Silent] (s'', g'\<lparr>sv_heap := ?h\<rparr>, ts @ [(a, ?c)])"
    using Run_Snoc [OF Run_Nil, of proc_step] by fastforce
  moreover have "proc_end use_dev (s'', g'\<lparr>sv_heap := ?h\<rparr>, ts @ [(a, ?c)]) 1 s'' (sv_dev (g'\<lparr>sv_heap := ?h\<rparr>))"
    using assms(5) by (intro End_Thread [of "length ts" _ a ?c _ _ "step_env None Recv_Error sample_env"])
      (auto simp: thread_access_def thread_at_def cl_step_def cl_receive_def step_env_def)
  ultimately show "\<exists>g3 ts3. proc_run ?p [Sv_Silent] (s'', g3, ts3) \<and> proc_end use_dev (s'', g3, ts3) 1 s'' (sv_dev g3)"
    by blast
qed

text \<open>A process with one connection, and then a failed \<^verbatim>\<open>accept\<close>.\<close>

theorem failed_accept_ends_process_witness:
  "\<exists>s1 ts1 s2 g3 ts3. proc_step (s1, quiet_server, ts1) Sv_Silent (s2, quiet_server, ts1 @ [(11, idle_client)]) \<and>
     proc_run (s2, quiet_server, ts1 @ [(11, idle_client)]) [Sv_Silent] (s2, g3, ts3) \<and>
     proc_end True (s2, g3, ts3) 1 s2 (sv_dev g3)"
proof -
  let ?ts = "[(10, idle_client)]"
  obtain s1 where s1: "accept_round (client_env 5 10) listening_server = Inr s1" "srv_inv [10] s1"
    "socketThread s1 10 = Some (new_thread (client_env 5 10))" "doneFlag s1 = doneFlag listening_server"
    using accept_round_ok [OF listening_inv, of "client_env 5 10" 10]
    by (auto simp: client_env_def listening_server_def boot_server_def reaped_def)
  have run: "proc_run (listening_server, quiet_server, []) [Sv_Silent] (s1, quiet_server, ?ts)"
    using Run_Snoc [OF Run_Nil, of proc_step] Proc_Accept [of listening_server "client_env 5 10" 10 s1 "[]" quiet_server] s1(1)
    by (fastforce simp: client_env_def fresh_fd_def listening_server_def boot_server_def)
  have dom: "dom (socketThread s1) = {10}" "\<not> thread_done s1 10"
    using s1(2,3) by (auto simp: srv_inv_def thread_done_def new_thread_def Let_def)
  have free: "11 \<notin> dom (socketThread s1)" "ae_malloc (client_env (-1) 11) = Some 11" using dom(1) by (simp_all add: client_env_def)
  obtain s2 where s2: "accept_round (client_env (-1) 11) s1 = Inr s2" "srv_inv [11, 10] s2"
    "socketThread s2 11 = Some (new_thread (client_env (-1) 11))"
    using accept_round_ok [OF s1(2) free(2,1)] dom(2) by (auto simp: reaped_def)
  have "10 \<in> dom (socketThread s2)" using s2(2) by (auto simp: srv_inv_def)
  then have "proc_step (s1, quiet_server, ?ts) Sv_Silent (s2, quiet_server, ?ts @ [(11, idle_client)])"
    using Proc_Accept [of s1 "client_env (-1) 11" 11 s2 ?ts quiet_server] free s2(1) s1(4)
    by (auto simp: client_env_def fresh_fd_def listening_server_def boot_server_def)
  note step = this
  have "finite (open_fds listening_server)" by (simp add: listening_server_def)
  moreover have "threadFD (new_thread (client_env (-1) 11)) < 0" by (simp add: new_thread_def client_env_def Let_def)
  moreover have "sv_heap quiet_server 1 = None" by (simp add: quiet_server_def)
  ultimately show ?thesis
    using failed_accept_ends_process [OF listening_process _ run step s2(3), of 1 True] step by blast
qed


end
