(* ===== verification/Socket_Liveness.thy ===== *)
theory Socket_Liveness
  imports Socket_Ends Driver_Liveness
begin

text \<open>
  Progress of the server's sessions: from every state of the process the sessions that have their
  packet can be finished by steps of their own threads, in a bounded number of steps. They form a
  \<open>finishing_machine\<close> whose environment grants allocations and the driver's requests.
\<close>

section \<open>Sessions with a packet\<close>

text \<open>How many steps a thread that has left its receive loop still takes.\<close>

fun cl_rank :: "cl_pc \<Rightarrow> nat" where
  "cl_rank (Cl_Packet p) = 4"
| "cl_rank (Cl_Locked p) = 3"
| "cl_rank (Cl_File p pos) = 2"
| "cl_rank (Cl_Finished sent) = 1"
| "cl_rank _ = 0"

definition serving :: "client \<Rightarrow> bool" where
  "serving c \<longleftrightarrow> 0 < cl_rank (cl_at c)"

definition threads_rank :: "process \<Rightarrow> nat" where
  "threads_rank p = (case p of (s, g, ts) \<Rightarrow> sum_list (map (\<lambda>x. cl_rank (cl_at (snd x))) ts))"

text \<open>The bytes a thread will still store, and whether it can be served: a seek command must have
  numbers \<^verbatim>\<open>sscanf\<close> can convert, the first not 10.\<close>

definition to_store :: "client \<Rightarrow> nat" where
  "to_store c = (if 2 < cl_rank (cl_at c) \<and> \<not> is_seek (packet c) then length (packet c) else 0)"

definition servable :: "client \<Rightarrow> bool" where
  "servable c \<longleftrightarrow> (2 < cl_rank (cl_at c) \<and> is_seek (packet c) \<longrightarrow>
     (\<exists>junk seek. sscanf_seek (packet c) junk = Inr seek \<and> unat (write_cmd seek) \<noteq> 10))"

inductive serve_step :: "process \<Rightarrow> sv_event \<Rightarrow> process \<Rightarrow> bool" where
  Serve: "\<lbrakk>i < length ts; ts ! i = (a, c); serving c; thread_access a (cl_at c) s = Inr s'; cl_env_ok env g c;
     cl_step env g (cl_at c) = Some (g', pc)\<rbrakk> \<Longrightarrow>
    serve_step (s, g, ts) (cl_event c) (s', g', ts[i := (a, cl_next env c pc)])"

lemma serve_is_proc: "serve_step p ev q \<Longrightarrow> proc_step p ev q"
proof (induction rule: serve_step.induct)
  case (Serve i ts a c s s' env g g' pc)
  then have "fd_answers a (cl_at c) s" by (cases "cl_at c") (simp_all add: serving_def fd_answers_def)
  then show ?case using Serve Proc_Thread by blast
qed

section \<open>Finite memory\<close>

lemma sessions_heap_finite:
  assumes "sessions_of g0 tr (s, g, ts)" and "process_start st (s0, g0, [])" and "finite (dom (sv_heap g0))"
  shows "finite (dom (sv_heap g))"
proof -
  obtain tr' where run: "sv_run (g0, replicate (length ts) idle_client) tr' (g, map snd ts)"
    using assms(1) by (auto simp: sessions_of_def)
  have "sv_inv st (sv_heap g0) tr' (g, map snd ts)"
    by (rule sessions_inv [OF run]) (use assms(2) in \<open>simp_all add: process_start_def\<close>)
  then have "blocks_ok (sv_heap g0) (sv_heap g) (map snd ts)" by (simp add: sv_inv_def)
  then have "dom (sv_heap g) \<subseteq> dom (sv_heap g0) \<union> (\<Union>x \<in> set ts. {b. cl_ptr (cl_at (snd x)) = Some (Ptr b)})"
    by (fastforce simp: blocks_ok_def split: if_splits)
  moreover have "finite {b. q = Some (Ptr b)}" for q :: "ptr option"
    by (cases q; cases "the q") simp_all
  ultimately show ?thesis using assms(3) by (meson finite_UN_I finite_UnI finite_set finite_subset)
qed

lemma write_commit_finite: "write_commit k ans = Inr k' \<Longrightarrow> finite (dom (kheap k)) \<Longrightarrow> finite (dom (kheap k'))"
  by (auto simp: write_commit_def rbind_eq_Inr_iff Let_def split: if_splits dest: write_evict_finite)

lemma aesd_write_finite:
  assumes "aesd_write k filp (Some ub) count ans = Inr (r, k')" and "finite (dom (kheap k))"
  shows "finite (dom (kheap k'))"
proof -
  obtain dev r0 l where r0: "file_dev k filp = Inr dev" "mutex_lock_interruptible (interrupted ans) (mx_lock dev) = Inr (r0, l)"
    using assms(1) by (auto simp: aesd_write_def rbind_eq_Inr_iff)
  show ?thesis
  proof (cases "r0 = 0")
    case True
    then obtain res k1 where k1: "write_fill (set_lock l k) ub count ans = Inr (res, k1)"
      using assms(1) r0 by (auto simp: aesd_write_def rbind_eq_Inr_iff)
    then have "finite (dom (kheap k1))" using write_fill_finite assms(2) by (fastforce simp: set_lock_def)
    then show ?thesis
      using assms(1) r0 True k1 write_commit_finite [of k1 ans]
      by (cases res) (auto simp: aesd_write_def rbind_eq_Inr_iff set_lock_def Let_def)
  qed (use assms r0 in \<open>simp add: aesd_write_def\<close>)
qed

lemma driver_wr_finite: "driver_wr k ans bs = Inr (n, k') \<Longrightarrow> finite (dom (kheap k)) \<Longrightarrow> finite (dom (kheap k'))"
  by (auto simp: driver_wr_def rbind_eq_Inr_iff dest: aesd_write_finite)

lemma write_pieces_finite:
  "write_pieces driver_wr k ps = Inr k' \<Longrightarrow> finite (dom (kheap k)) \<Longrightarrow> finite (dom (kheap k'))"
  by (induction driver_wr k ps rule: write_pieces.induct) (auto simp: rbind_eq_Inr_iff dest: driver_wr_finite)

lemma driver_sk_finite: "driver_sk k ans pos seek = Inr (n, k') \<Longrightarrow> kheap k' = kheap k"
  by (auto simp: driver_sk_def aesd_ioctl_def rbind_eq_Inr_iff set_lock_def split: if_splits prod.splits)

lemma cl_step_finite:
  assumes "cl_step env g pc = Some (g', pc')" and "finite (dom (kheap (sv_dev g)))"
  shows "finite (dom (kheap (sv_dev g')))"
proof (cases pc)
  case (Cl_Locked p)
  then show ?thesis
    using assms by (auto simp: cl_step_def cl_file_def file_update_def rbind_eq_Inr_iff
        split: sum.splits if_splits dest: write_pieces_finite driver_sk_finite)
qed (use assms in \<open>auto simp: cl_step_def cl_start_def cl_receive_def cl_send_def Let_def
    split: prod.splits sum.splits recv_answer.splits if_splits option.splits\<close>)

lemma proc_step_finite:
  assumes "proc_step p ev q" and "finite (dom (kheap (sv_dev (fst (snd p)))))"
  shows "finite (dom (kheap (sv_dev (fst (snd q)))))"
  using assms by cases (auto dest: cl_step_finite)

lemma proc_run_finite:
  assumes "proc_run p tr q" and "finite (dom (kheap (sv_dev (fst (snd p)))))"
  shows "finite (dom (kheap (sv_dev (fst (snd q)))))"
  using assms by (induction rule: run.induct) (auto dest: proc_step_finite)

section \<open>Steps of the sessions\<close>

lemma cl_step_rank:
  assumes "cl_step env g (cl_at c) = Some (g', pc)" and "serving c"
  shows "cl_rank pc < cl_rank (cl_at c)"
  using assms
  by (cases "cl_at c") (auto simp: serving_def cl_step_def cl_file_def cl_send_def Let_def
      split: prod.splits sum.splits if_splits option.splits)

lemma serving_next:
  assumes "serving c"
  shows "cl_next env c pc = c\<lparr>cl_at := pc\<rparr>" and "packet (cl_next env c pc) = packet c"
  using assms by (cases "cl_at c"; simp add: serving_def cl_next_def packet_def)+

lemma serve_rank:
  assumes "serve_step p ev q"
  shows "threads_rank q < threads_rank p"
  using assms
proof cases
  case (Serve i ts a c s s' env g g' pc)
  then show ?thesis
    using cl_step_rank [OF Serve(9,6)] serving_next(1) [OF Serve(6), of env pc]
      sum_list_map_upd [of i ts "\<lambda>x. cl_rank (cl_at (snd x))" "(a, cl_next env c pc)"]
    by (simp add: threads_rank_def)
qed

definition serving_inv :: "device \<Rightarrow> shared \<Rightarrow> sv_event list \<Rightarrow> process \<Rightarrow> bool" where
  "serving_inv st g0 tr p \<longleftrightarrow> sessions_of g0 tr p \<and> (case p of (s, g, ts) \<Rightarrow> finite (dom (kheap (sv_dev g))) \<and>
     length (snd (foldl device_write st (stores tr))) + sum_list (map (\<lambda>x. to_store (snd x)) ts) < 2 ^ 59 \<and>
     (\<forall>x \<in> set ts. servable (snd x)))"

lemma to_store_step:
  assumes "serving c" and "cl_step env g (cl_at c) = Some (g', pc)"
  shows "length (snd (after_store d (cl_event c))) + to_store (cl_next env c pc) \<le> length (snd d) + to_store c"
    and "servable c \<Longrightarrow> servable (cl_next env c pc)"
proof -
  note pk = serving_next [OF assms(1), of env pc]
  have le: "cl_rank pc < cl_rank (cl_at c)" by (rule cl_step_rank [OF assms(2,1)])
  show "length (snd (after_store d (cl_event c))) + to_store (cl_next env c pc) \<le> length (snd d) + to_store c"
    using le pk device_write_pending [of d "packet c"] by (cases "cl_at c") (auto simp: cl_event_def to_store_def)
  show "servable c \<Longrightarrow> servable (cl_next env c pc)"
    using le pk by (cases "cl_at c") (auto simp: servable_def)
qed

lemma serving_inv_step:
  assumes step: "serve_step p ev q" and inv: "serving_inv st g0 tr p" and start: "process_start st (s0, g0, [])"
  shows "serving_inv st g0 (tr @ [ev]) q"
proof -
  have g0: "dev_rel (sv_dev g0) st" "0 \<le> sv_count g0" "\<not> sv_mutex g0" using start by (simp_all add: process_start_def)
  have sess: "sessions_of g0 (tr @ [ev]) q"
    using proc_step_sessions [OF serve_is_proc [OF step] _ g0] inv by (simp add: serving_inv_def)
  from step show ?thesis
  proof cases
    case (Serve i ts a c s s' env g g' pc)
    have c: "(a, c) \<in> set ts" using Serve(4,5) nth_mem by force
    note ts = to_store_step [OF Serve(6,9)]
    have "\<forall>x \<in> set (ts[i := (a, cl_next env c pc)]). servable (snd x)"
      using inv c ts(2) Serve(1) by (force simp: serving_inv_def dest: set_update_subset_insert [THEN subsetD])
    moreover have "length (snd (foldl device_write st (stores (tr @ [ev])))) +
        sum_list (map (\<lambda>x. to_store (snd x)) (ts[i := (a, cl_next env c pc)])) < 2 ^ 59"
      using inv ts(1) [of "foldl device_write st (stores tr)"] Serve(1,2,4,5)
        sum_list_map_upd [OF Serve(4), of "\<lambda>x. to_store (snd x)" "(a, cl_next env c pc)"]
      by (simp add: serving_inv_def stores_device del: stores_append)
    moreover have "finite (dom (kheap (sv_dev g')))"
      using inv cl_step_finite [OF Serve(9)] Serve(1) by (simp add: serving_inv_def)
    ultimately show ?thesis using sess Serve(3) by (simp add: serving_inv_def)
  qed
qed

section \<open>Some session can always go on\<close>

lemma store_env:
  assumes rel: "dev_rel k d" and fin: "finite (dom (kheap k))" and room: "length (snd d) + length out < 2 ^ 59"
    and out: "\<not> is_seek out"
  shows "\<exists>env. file_env_ok env out k"
proof (cases "out = []")
  case True
  then show ?thesis using out by (intro exI [of _ "sample_env\<lparr>se_fopen := True, se_writes := []\<rparr>"]) (simp add: file_env_ok_def)
next
  case False
  obtain b where b: "b \<noteq> 16" "kheap k b = None" using free_address [OF fin] by blast
  have "unat (tmp_size (aesd_device k)) = length (snd d)" using rel by (simp add: dev_rel_def dev_data_def)
  moreover have "unat (of_nat (length out) :: size_t) = length out" using room by (intro unat_of_nat_64) simp
  ultimately have ok: "driver_wr_ok k (good_answers b) out"
    using b room by (simp add: driver_wr_ok_def answers_ok_def good_answers_def)
  obtain k' where "driver_wr k (good_answers b) out = Inr (length out, k')" using driver_wr_law [OF rel ok] by blast
  then have "pieces_ok driver_wr driver_wr_ok k (stdio_pieces out [(good_answers b, length out)])" using ok by simp
  then show ?thesis
    using out False
    by (intro exI [of _ "sample_env\<lparr>se_fopen := True, se_writes := [(good_answers b, length out)]\<rparr>"])
      (simp add: file_env_ok_def del: pieces_ok.simps stdio_pieces.simps)
qed

lemma serve_env:
  assumes inv: "serving_inv st g0 tr (s, g, ts)" and start: "process_start st (s0, g0, [])"
    and fin: "finite (dom (sv_heap g0))" and c: "(a, c) \<in> set ts" "serving c" and free: "cl_holds (cl_at c) \<or> \<not> sv_mutex g"
  shows "\<exists>env. cl_env_ok env g c \<and> cl_step env g (cl_at c) \<noteq> None"
proof -
  have sess: "sessions_of g0 tr (s, g, ts)" and can: "servable c" using inv c by (auto simp: serving_inv_def)
  obtain tr' where run: "sv_run (g0, replicate (length ts) idle_client) tr' (g, map snd ts)" "stores tr' = stores tr"
    using sess by (auto simp: sessions_of_def)
  let ?d = "foldl device_write st (stores tr)"
  have "sv_inv st (sv_heap g0) tr' (g, map snd ts)"
    by (rule sessions_inv [OF run(1)]) (use start in \<open>simp_all add: process_start_def\<close>)
  then have rel: "dev_rel (sv_dev g) ?d" using run(2) by (simp add: sv_inv_def)
  obtain b where b: "sv_heap g b = None"
    using free_address [OF sessions_heap_finite [OF sess start fin]] by blast
  have "to_store c \<le> sum_list (map (\<lambda>x. to_store (snd x)) ts)"
    using member_le_sum_list [of "to_store c" "map (\<lambda>x. to_store (snd x)) ts"] c(1) by force
  then have room: "length (snd ?d) + to_store c < 2 ^ 59" using inv by (simp add: serving_inv_def)
  show ?thesis
  proof (cases "cl_at c")
    case (Cl_Packet p)
    then show ?thesis using free by (auto simp: cl_env_ok_def cl_step_def)
  next
    case (Cl_Locked p)
    have "\<exists>env. file_env_ok env (packet c) (sv_dev g)"
    proof (cases "is_seek (packet c)")
      case True
      then obtain junk seek where "sscanf_seek (packet c) junk = Inr seek" "unat (write_cmd seek) \<noteq> 10"
        using can Cl_Locked by (auto simp: servable_def)
      then show ?thesis
        using True by (intro exI [of _ "sample_env\<lparr>se_fopen := True, se_junk := junk\<rparr>"]) (simp add: file_env_ok_def driver_sk_ok_def)
    next
      case False
      then show ?thesis
        using store_env [OF rel, of "packet c"] inv room Cl_Locked by (simp add: to_store_def serving_inv_def)
    qed
    then obtain env where "file_env_ok env (packet c) (sv_dev g)" ..
    then show ?thesis
      using Cl_Locked by (intro exI [of _ "step_env None Recv_Error env"]) (simp add: cl_env_ok_def cl_step_def step_env_def)
  next
    case (Cl_File p pos)
    then show ?thesis
      using b by (intro exI [of _ "step_env None Recv_Error (sample_env\<lparr>se_blksize := 1, se_send := Some b\<rparr>)"])
        (simp add: cl_env_ok_def cl_step_def step_env_def)
  qed (use c(2) in \<open>auto simp: serving_def cl_env_ok_def cl_step_def\<close>)
qed

lemma serve_progress:
  assumes inv: "serving_inv st g0 tr p" and start: "process_start st (s0, g0, [])" and fin: "finite (dom (sv_heap g0))"
    and some: "threads_rank p \<noteq> 0"
  shows "\<exists>ev q. serve_step p ev q"
proof -
  obtain s g ts where p: "p = (s, g, ts)" by (cases p)
  have sess: "sessions_of g0 tr (s, g, ts)" "elems_ok s ts" using inv p by (simp_all add: serving_inv_def sessions_of_def)
  obtain tr' where run: "sv_run (g0, replicate (length ts) idle_client) tr' (g, map snd ts)"
    using sess by (auto simp: sessions_of_def)
  have "sv_inv st (sv_heap g0) tr' (g, map snd ts)"
    by (rule sessions_inv [OF run]) (use start in \<open>simp_all add: process_start_def\<close>)
  then have holders: "length (filter (\<lambda>c. cl_holds (cl_at c)) (map snd ts)) = of_bool (sv_mutex g)" by (simp add: sv_inv_def)
  obtain x where x: "x \<in> set ts" "serving (snd x)" "cl_holds (cl_at (snd x)) \<or> \<not> sv_mutex g"
  proof (cases "sv_mutex g")
    case True
    then have "filter ((\<lambda>c. cl_holds (cl_at c)) \<circ> snd) ts \<noteq> []" using holders by (auto simp: filter_map)
    then obtain x where "x \<in> set ts" "cl_holds (cl_at (snd x))" by (auto simp: filter_empty_conv)
    moreover then have "serving (snd x)" by (cases "cl_at (snd x)") (auto simp: serving_def)
    ultimately show ?thesis using that by blast
  next
    case False
    obtain x where "x \<in> set ts" "cl_rank (cl_at (snd x)) \<noteq> 0" using some p by (auto simp: threads_rank_def)
    then show ?thesis using that False by (auto simp: serving_def)
  qed
  obtain i where i: "i < length ts" "ts ! i = x" using x(1) by (auto simp: in_set_conv_nth)
  obtain a c where ac: "x = (a, c)" by (cases x)
  obtain env g' pc where env: "cl_env_ok env g c" "cl_step env g (cl_at c) = Some (g', pc)"
    using serve_env [OF inv [unfolded p] start fin, of a c] x ac by auto
  obtain s' where "thread_access a (cl_at c) s = Inr s'" using access_ok [OF sess(2) i(1)] i(2) ac by auto
  then show ?thesis using Serve [of i ts a c s s' env g g' pc] i x(2) ac env p by auto
qed

interpretation sessions: finishing_machine serve_step
  "\<lambda>tr p. (\<exists>s0. process_start st (s0, g0, [])) \<and> finite (dom (sv_heap g0)) \<and> serving_inv st g0 tr p" "\<lambda>tr ev. tr @ [ev]"
  threads_rank "\<lambda>p. threads_rank p = 0" for st g0
  by unfold_locales (use serving_inv_step serve_rank serve_progress in blast)+

section \<open>Sessions end\<close>

text \<open>A session that is served ends with a reply, and keeps its packet and its place.\<close>

definition served :: "client \<Rightarrow> client \<Rightarrow> bool" where
  "served c c' \<longleftrightarrow> packet c' = packet c \<and> (serving c' \<or> (\<exists>reply. cl_at c' = Cl_Done reply))"

lemma serve_step_served:
  assumes step: "serve_step p ev q" and inv: "serving_inv st g0 tr p" and start: "process_start st (s0, g0, [])"
    and i: "i < length (snd (snd p))" and c: "served c (snd (snd (snd p) ! i))"
  shows "i < length (snd (snd q)) \<and> fst (snd (snd q) ! i) = fst (snd (snd p) ! i) \<and> served c (snd (snd (snd q) ! i)) \<and>
    length (snd (snd q)) = length (snd (snd p))"
  using step
proof cases
  case (Serve j ts a d s s' env g g' pc)
  have g0: "dev_rel (sv_dev g0) st" "0 \<le> sv_count g0" "\<not> sv_mutex g0" using start by (simp_all add: process_start_def)
  have "sessions_of g0 tr p" using inv by (simp add: serving_inv_def)
  then have nf: "\<forall>e. pc \<noteq> Cl_Fault e" by (rule thread_no_fault [OF _ g0]) (use Serve in auto)
  have "served c (cl_next env d pc)" if "served c d"
  proof -
    have "0 < cl_rank pc \<or> (\<exists>reply. pc = Cl_Done reply)"
      using Serve(6,9) nf by (cases "cl_at d") (auto simp: serving_def cl_step_def cl_file_def cl_send_def Let_def
        split: prod.splits sum.splits if_splits option.splits)
    then show ?thesis using that serving_next [OF Serve(6), of env pc] by (auto simp: served_def serving_def)
  qed
  then show ?thesis using Serve i c by (cases "j = i") auto
qed

lemma serve_run_served:
  assumes "run serve_step p tr' q" and "serving_inv st g0 tr p" and "process_start st (s0, g0, [])"
    and "i < length (snd (snd p))" and "served c (snd (snd (snd p) ! i))"
  shows "i < length (snd (snd q)) \<and> fst (snd (snd q) ! i) = fst (snd (snd p) ! i) \<and> served c (snd (snd (snd q) ! i)) \<and>
    length (snd (snd q)) = length (snd (snd p)) \<and> serving_inv st g0 (tr @ tr') q"
  using assms
proof (induction rule: run.induct)
  case (Run_Snoc p tr' q ev r)
  then have IH: "i < length (snd (snd q))" "fst (snd (snd q) ! i) = fst (snd (snd p) ! i)" "served c (snd (snd (snd q) ! i))"
    "length (snd (snd q)) = length (snd (snd p))" "serving_inv st g0 (tr @ tr') q"
    by blast+
  have "serving_inv st g0 ((tr @ tr') @ [ev]) r" by (rule serving_inv_step [OF Run_Snoc.hyps(2) IH(5) Run_Snoc.prems(2)])
  then show ?case using serve_step_served [OF Run_Snoc.hyps(2) IH(5) Run_Snoc.prems(2) IH(1,3)] IH by simp
qed simp

lemma serve_run_length: "run serve_step p tr q \<Longrightarrow> length (snd (snd q)) = length (snd (snd p))"
proof (induction rule: run.induct)
  case (Run_Snoc p tr q ev r)
  from Run_Snoc.hyps(2) have "length (snd (snd r)) = length (snd (snd q))" by cases simp
  then show ?case using Run_Snoc.IH by simp
qed simp

lemma threads_rank_bound: "threads_rank (s, g, ts) \<le> 4 * length (filter (\<lambda>x. serving (snd x)) ts)"
proof (induction ts)
  case (Cons x ts)
  have "cl_rank (cl_at (snd x)) \<le> 4" by (cases "cl_at (snd x)") simp_all
  then show ?case using Cons by (simp add: threads_rank_def serving_def)
qed (simp add: threads_rank_def)



end
