(* ===== verification/System_Calls.thy ===== *)
theory System_Calls
  imports AESD_Prelude
begin

text \<open>
  The functions of \<^verbatim>\<open>examples/systemcalls/systemcalls.c\<close>: \<^verbatim>\<open>do_system\<close>, \<^verbatim>\<open>do_exec\<close> and
  \<^verbatim>\<open>do_exec_redirect\<close>. What the shell, \<^verbatim>\<open>fork\<close>, \<^verbatim>\<open>waitpid\<close> and \<^verbatim>\<open>fopen\<close> answer, and what an executed
  program does with its arguments and its descriptors, are arguments. The wait status is the
  32-bit encoding of Linux, read by the macros of \<^verbatim>\<open>sys/wait.h\<close>.
\<close>

unbundle bit_operations_syntax

section \<open>Processes\<close>

text \<open>How a process ends: by \<^verbatim>\<open>exit\<close> with an \<^verbatim>\<open>int\<close>, or by a signal between 1 and 126.\<close>

datatype proc_end = Exited "32 word" | Killed nat

definition wait_status :: "proc_end \<Rightarrow> 32 word" where
  "wait_status t = (case t of Exited n \<Rightarrow> push_bit 8 (n AND 0xFF) | Killed sig \<Rightarrow> of_nat sig AND 0x7F)"

definition WIFEXITED :: "32 word \<Rightarrow> bool" where
  "WIFEXITED status \<longleftrightarrow> status AND 0x7F = 0"

definition WEXITSTATUS :: "32 word \<Rightarrow> 32 word" where
  "WEXITSTATUS status = drop_bit 8 (status AND 0xFF00)"

text \<open>The descriptors of a process, by the file each refers to.\<close>

type_synonym fd_table = "nat \<rightharpoonup> string"

abbreviation STDOUT_FILENO :: nat where "STDOUT_FILENO \<equiv> 1"

text \<open>
  An environment: the result of \<^verbatim>\<open>fork\<close> (\<open>True\<close> when a child exists), what executing a program
  with arguments and descriptors does (\<^term>\<open>None\<close> when \<^verbatim>\<open>execv\<close> fails), whether \<^verbatim>\<open>waitpid\<close>
  stored a status, the descriptor \<^verbatim>\<open>fopen\<close> gave the output file.
\<close>

record exec_env =
  ee_fork :: bool
  ee_exec :: "string \<Rightarrow> string list \<Rightarrow> fd_table \<Rightarrow> proc_end option"
  ee_wait :: bool
  ee_fopen :: "nat option"

section \<open>The functions\<close>

definition do_system :: "(string option \<Rightarrow> 32 word) \<Rightarrow> string option \<Rightarrow> bool" where
  "do_system system_call cmd = (let exit_status = system_call cmd in exit_status = 0)"

text \<open>
  The array of arguments: \<open>count\<close> strings from the variable arguments and a null pointer. Asking
  for an argument that was not passed, or for an array of no elements, is undefined.
\<close>

fun va_loop :: "nat \<Rightarrow> string list \<Rightarrow> string option list res" where
  "va_loop 0 args = Inr []"
| "va_loop (Suc n) [] = Inl Out_Of_Bounds"
| "va_loop (Suc n) (a # args) = rbind (va_loop n args) (\<lambda>cs. Inr (Some a # cs))"

definition command_array :: "int \<Rightarrow> string list \<Rightarrow> string option list res" where
  "command_array count args =
     (if count < 0 then Inl Out_Of_Bounds
      else rbind (va_loop (nat count) args) (\<lambda>cs. Inr (cs @ [None])))"

text \<open>
  \<^verbatim>\<open>execv\<close> with the array: the arguments end at the first null pointer; a null path fails.
\<close>

definition execv :: "exec_env \<Rightarrow> string option list \<Rightarrow> fd_table \<Rightarrow> proc_end option" where
  "execv env command fds =
     (case command of
        Some path # _ \<Rightarrow> ee_exec env path (map the (takeWhile (\<lambda>c. c \<noteq> None) command)) fds
      | _ \<Rightarrow> None)"

text \<open>The child of \<^verbatim>\<open>do_exec\<close>: it becomes the program, or exits with status 1.\<close>

definition exec_child :: "exec_env \<Rightarrow> string option list \<Rightarrow> fd_table \<Rightarrow> proc_end" where
  "exec_child env command fds = (case execv env command fds of None \<Rightarrow> Exited 1 | Some t \<Rightarrow> t)"

text \<open>The parent: without a status from \<^verbatim>\<open>waitpid\<close> it reads an uninitialised variable.\<close>

definition exec_parent :: "exec_env \<Rightarrow> proc_end \<Rightarrow> bool res" where
  "exec_parent env child =
     (if ee_wait env
      then (let status = wait_status child in Inr (WIFEXITED status \<and> WEXITSTATUS status = 0))
      else Inl Uninit_Read)"

definition do_exec :: "exec_env \<Rightarrow> fd_table \<Rightarrow> int \<Rightarrow> string list \<Rightarrow> bool res" where
  "do_exec env fds count args =
     rbind (command_array count args) (\<lambda>command.
       if \<not> ee_fork env then Inr False else exec_parent env (exec_child env command fds))"

text \<open>
  The child of \<^verbatim>\<open>do_exec_redirect\<close>: \<^verbatim>\<open>dup2\<close> of a descriptor onto itself does nothing, and
  \<^verbatim>\<open>fclose\<close> closes the file's own descriptor.
\<close>

definition dup2_table :: "nat \<Rightarrow> nat \<Rightarrow> fd_table \<Rightarrow> fd_table" where
  "dup2_table old new fds = (if old = new then fds else fds(new := fds old))"

definition redirect_child :: "exec_env \<Rightarrow> string \<Rightarrow> string option list \<Rightarrow> fd_table \<Rightarrow> proc_end" where
  "redirect_child env outputfile command fds =
     (case ee_fopen env of
        None \<Rightarrow> Exited 1
      | Some fd \<Rightarrow>
          (let fds1 = fds(fd \<mapsto> outputfile);
               fds2 = dup2_table fd STDOUT_FILENO fds1;
               fds3 = fds2(fd := None)
           in exec_child env command fds3))"

definition do_exec_redirect :: "exec_env \<Rightarrow> fd_table \<Rightarrow> string \<Rightarrow> int \<Rightarrow> string list \<Rightarrow> bool res" where
  "do_exec_redirect env fds outputfile count args =
     rbind (command_array count args) (\<lambda>command.
       if \<not> ee_fork env then Inr False
       else exec_parent env (redirect_child env outputfile command fds))"

section \<open>The wait status\<close>

lemma wait_masks: "(127 :: 32 word) = mask 7" "(255 :: 32 word) = mask 8" "(65280 :: 32 word) = push_bit 8 (mask 8)"
  by (simp_all add: mask_eq_exp_minus_1)

lemma WIFEXITED_exited: "WIFEXITED (wait_status (Exited n))"
  unfolding WIFEXITED_def wait_status_def proc_end.case wait_masks
  by (rule bit_eqI) (auto simp: bit_simps)

lemma WEXITSTATUS_exited: "WEXITSTATUS (wait_status (Exited n)) = n AND 0xFF"
  unfolding WEXITSTATUS_def wait_status_def proc_end.case wait_masks
  by (rule bit_eqI) (auto simp: bit_simps)

lemma WIFEXITED_killed:
  assumes "1 \<le> sig" and "sig < 127"
  shows "\<not> WIFEXITED (wait_status (Killed sig))"
proof -
  have "(of_nat sig :: 32 word) AND 127 = of_nat sig"
    using assms(2) unfolding wait_masks take_bit_eq_mask [symmetric]
    by (simp add: take_bit_of_nat take_bit_nat_eq_self)
  moreover have "(of_nat sig :: 32 word) \<noteq> 0"
    using assms by (simp add: word_unat_eq_iff unat_of_nat take_bit_eq_mod)
  ultimately show ?thesis by (simp add: WIFEXITED_def wait_status_def)
qed

section \<open>Properties\<close>

text \<open>A child that ends by \<^verbatim>\<open>exit\<close> or by a signal the kernel has.\<close>

definition proc_end_ok :: "proc_end \<Rightarrow> bool" where
  "proc_end_ok t = (case t of Exited n \<Rightarrow> True | Killed sig \<Rightarrow> 1 \<le> sig \<and> sig < 127)"

definition succeeds :: "proc_end \<Rightarrow> bool" where
  "succeeds t = (case t of Exited n \<Rightarrow> n AND 0xFF = 0 | Killed sig \<Rightarrow> False)"

lemma exec_parent_result: "ee_wait env \<Longrightarrow> proc_end_ok t \<Longrightarrow> exec_parent env t = Inr (succeeds t)"
  using WIFEXITED_exited WEXITSTATUS_exited WIFEXITED_killed
  by (cases t) (simp_all add: exec_parent_def proc_end_ok_def succeeds_def Let_def)

lemma va_loop_all: "va_loop (length args) (args @ rest) = Inr (map Some args)"
  by (induction args) auto

lemma command_array_all: "command_array (int (length args)) (args @ rest) = Inr (map Some args @ [None])"
  by (simp add: command_array_def va_loop_all)

lemma execv_command:
  "execv env (map Some (path # args) @ [None]) fds = ee_exec env path (path # args) fds"
proof -
  have "takeWhile (\<lambda>c. c \<noteq> None) (map Some args @ [None]) = map Some args" by (induction args) auto
  then show ?thesis by (simp add: execv_def comp_def)
qed

text \<open>
  C37: \<^verbatim>\<open>do_exec\<close>. With as many arguments as announced, a child and a status, the result is true
  exactly when the program could be executed with its arguments and ended by an exit whose
  status is 0 modulo 256; a failed fork and a failed execution are false.
\<close>

theorem do_exec_result:
  assumes "ee_wait env" and "\<forall>t. ee_exec env path (path # args) fds = Some t \<longrightarrow> proc_end_ok t"
  shows "do_exec env fds (int (length (path # args))) (path # args @ rest) =
    Inr (ee_fork env \<and> (case ee_exec env path (path # args) fds of None \<Rightarrow> False | Some t \<Rightarrow> succeeds t))"
proof -
  have cmd: "command_array (int (length (path # args))) (path # args @ rest) = Inr (map Some (path # args) @ [None])"
    using command_array_all [of "path # args" rest] by simp
  have "exec_parent env (Exited 1) = Inr False"
    using exec_parent_result [OF assms(1), of "Exited 1"] by (simp add: proc_end_ok_def succeeds_def)
  then show ?thesis
    unfolding do_exec_def cmd exec_child_def execv_command rbind_Inr
    using exec_parent_result [OF assms(1)] assms(2)
    by (cases "ee_exec env path (path # args) fds") auto
qed

text \<open>An instance: a system whose only program \<^verbatim>\<open>/bin/true\<close> exits with status 0.\<close>

definition sample_exec :: exec_env where
  "sample_exec = \<lparr>ee_fork = True,
     ee_exec = (\<lambda>path args fds. if path = ''/bin/true'' then Some (Exited 0) else None),
     ee_wait = True, ee_fopen = Some 3\<rparr>"

definition sample_fds :: fd_table where
  "sample_fds = [0 \<mapsto> ''tty'', 1 \<mapsto> ''tty'', 2 \<mapsto> ''tty'']"

theorem do_exec_result_witness:
  "do_exec sample_exec sample_fds 1 [''/bin/true''] = Inr True \<and>
   do_exec sample_exec sample_fds 1 [''/bin/no''] = Inr False"
  using do_exec_result [of sample_exec "''/bin/true''" "[]" sample_fds "[]"]
    do_exec_result [of sample_exec "''/bin/no''" "[]" sample_fds "[]"]
  by (simp add: sample_exec_def proc_end_ok_def succeeds_def)

text \<open>
  \<^verbatim>\<open>do_exec_redirect\<close>. When the output file gets a descriptor of its own, the call is
  \<^verbatim>\<open>do_exec\<close> with standard output on the file and the file's descriptor closed again. When it
  cannot be opened the result is false. When the file itself gets descriptor 1 (standard
  output was closed), the program runs without a standard output.
\<close>

theorem do_exec_redirect_result:
  assumes "ee_wait env"
  shows "do_exec_redirect env fds outputfile (int (length (path # args))) (path # args) =
    (case ee_fopen env of
       None \<Rightarrow> Inr False
     | Some fd \<Rightarrow> do_exec env
         (if fd = STDOUT_FILENO then fds(STDOUT_FILENO := None) else fds(STDOUT_FILENO \<mapsto> outputfile, fd := None))
         (int (length (path # args))) (path # args))"
proof -
  have cmd: "command_array (int (length (path # args))) (path # args) = Inr (map Some (path # args) @ [None])"
    using command_array_all [of "path # args" "[]"] by simp
  have "exec_parent env (Exited 1) = Inr False"
    using exec_parent_result [OF assms, of "Exited 1"] by (simp add: proc_end_ok_def succeeds_def)
  moreover have "(dup2_table fd STDOUT_FILENO (fds(fd \<mapsto> outputfile)))(fd := None) =
      (if fd = STDOUT_FILENO then fds(STDOUT_FILENO := None) else fds(STDOUT_FILENO \<mapsto> outputfile, fd := None))" for fd
    by (auto simp: dup2_table_def fun_eq_iff)
  ultimately show ?thesis
    unfolding do_exec_redirect_def do_exec_def cmd rbind_Inr redirect_child_def Let_def
    by (cases "ee_fopen env") auto
qed

theorem do_exec_redirect_result_witness:
  "do_exec_redirect sample_exec sample_fds ''out'' 1 [''/bin/true''] = Inr True"
  using do_exec_redirect_result [of sample_exec sample_fds "''out''" "''/bin/true''" "[]"]
  by (simp add: sample_exec_def do_exec_def command_array_def execv_def exec_child_def exec_parent_def
      WIFEXITED_def WEXITSTATUS_def wait_status_def numeral_2_eq_2)

text \<open>
  Calls outside the contract. Fewer arguments than announced read past the variable
  arguments, and a failing \<^verbatim>\<open>waitpid\<close> leaves the status uninitialised (its result is not
  tested).
\<close>

theorem do_exec_misuse:
  "(int (length args) < count \<longrightarrow> do_exec env fds count args = Inl Out_Of_Bounds) \<and>
   (ee_fork env \<and> \<not> ee_wait env \<longrightarrow> do_exec env fds (int (length args)) args = Inl Uninit_Read)"
proof -
  have "va_loop n args = Inl Out_Of_Bounds" if "length args < n" for n
    using that
  proof (induction args arbitrary: n)
    case Nil
    then show ?case by (cases n) auto
  next
    case (Cons a args)
    then show ?case by (cases n) auto
  qed
  moreover have "command_array (int (length args)) args = Inr (map Some args @ [None])"
    using command_array_all [of args "[]"] by simp
  ultimately show ?thesis
    by (auto simp: do_exec_def command_array_def exec_parent_def)
qed

theorem do_exec_misuse_witness:
  "do_exec sample_exec sample_fds 2 [''/bin/true''] = Inl Out_Of_Bounds"
  using do_exec_misuse [of "[''/bin/true'']" 2 sample_exec sample_fds] by simp

end
