(* ===== verification/Threading.thy ===== *)
theory Threading
  imports AESD_Prelude
begin

text \<open>
  The functions of \<^verbatim>\<open>examples/threading/threading.c\<close> and the structure of \<^verbatim>\<open>threading.h\<close>: a thread
  that sleeps, takes a mutex, sleeps and releases it, and the function that starts it. The
  threads run interleaved over shared mutexes; each step of a thread is one call of its
  function's body. What the thread library answers is an argument of the step.
\<close>

section \<open>Threads\<close>

record thread_data =
  mutex :: nat
  wait_to_obtain_ms :: int
  wait_to_release_ms :: int
  thread_complete_success :: bool

text \<open>Where a thread is: before its calls in order, or returned with a pointer.\<close>

datatype pc = Obtain_sleep | Lock_call | Release_sleep | Unlock_call | Returned ptr

text \<open>
  The state: who holds each mutex, the allocated structures, and the threads by identifier,
  each with its place and the address of its structure.
\<close>

record thread_state =
  holder :: "nat \<Rightarrow> nat option"
  datas :: "nat \<rightharpoonup> thread_data"
  threads :: "nat \<rightharpoonup> (pc \<times> nat)"

text \<open>The argument of \<^verbatim>\<open>usleep\<close> is a product of type \<^verbatim>\<open>int\<close>.\<close>

definition usleep_arg :: "int \<Rightarrow> unit res" where
  "usleep_arg ms = guard_res Signed_Overflow (- (2 ^ 31) \<le> ms * 1000 \<and> ms * 1000 < 2 ^ 31)"

definition set_success :: "nat \<Rightarrow> thread_data \<Rightarrow> bool \<Rightarrow> thread_state \<Rightarrow> thread_state" where
  "set_success a d b s = s\<lparr>datas := (datas s)(a \<mapsto> d\<lparr>thread_complete_success := b\<rparr>)\<rparr>"

definition goto :: "nat \<Rightarrow> pc \<Rightarrow> nat \<Rightarrow> thread_state \<Rightarrow> thread_state" where
  "goto t p a s = s\<lparr>threads := (threads s)(t \<mapsto> (p, a))\<rparr>"

text \<open>
  One step of thread \<open>t\<close>, \<open>err\<close> being the result of the mutex call it makes. A lock of a held
  mutex waits; an unlock that reports an error leaves the mutex as it was.
\<close>

definition threadfunc_step :: "nat \<Rightarrow> int \<Rightarrow> thread_state \<Rightarrow> thread_state res" where
  "threadfunc_step t err s =
     (case threads s t of
        None \<Rightarrow> Inl Blocks
      | Some (p, a) \<Rightarrow>
          (case datas s a of
             None \<Rightarrow> Inl Wild_Pointer
           | Some d \<Rightarrow>
               (case p of
                  Obtain_sleep \<Rightarrow> rbind (usleep_arg (wait_to_obtain_ms d)) (\<lambda>_. Inr (goto t Lock_call a s))
                | Lock_call \<Rightarrow>
                    if err \<noteq> 0 then Inr (goto t (Returned NULL) a (set_success a d False s))
                    else if holder s (mutex d) \<noteq> None then Inl Blocks
                    else Inr (goto t Release_sleep a (s\<lparr>holder := (holder s)(mutex d := Some t)\<rparr>))
                | Release_sleep \<Rightarrow> rbind (usleep_arg (wait_to_release_ms d)) (\<lambda>_. Inr (goto t Unlock_call a s))
                | Unlock_call \<Rightarrow>
                    if err \<noteq> 0 then Inr (goto t (Returned (Ptr a)) a (set_success a d False s))
                    else Inr (goto t (Returned (Ptr a)) a
                      (set_success a d True (s\<lparr>holder := (holder s)(mutex d := None)\<rparr>)))
                | Returned r \<Rightarrow> Inl Blocks)))"

text \<open>
  Starting a thread: \<open>al\<close> is the address \<^verbatim>\<open>malloc\<close> returns, \<open>created\<close> the identifier of the new
  thread. The result has the value stored through \<^verbatim>\<open>thread\<close>.
\<close>

definition start_thread_obtaining_mutex ::
  "nat option \<Rightarrow> nat option \<Rightarrow> nat \<Rightarrow> int \<Rightarrow> int \<Rightarrow> thread_state \<Rightarrow> (bool \<times> nat option \<times> thread_state) res" where
  "start_thread_obtaining_mutex al created m obtain_ms release_ms s =
     (case al of
        None \<Rightarrow> Inl Null_Deref
      | Some a \<Rightarrow>
          (let d = \<lparr>mutex = m, wait_to_obtain_ms = obtain_ms, wait_to_release_ms = release_ms,
                    thread_complete_success = False\<rparr>;
               s1 = s\<lparr>datas := (datas s)(a \<mapsto> d)\<rparr>
           in (case created of
                 None \<Rightarrow> Inr (False, None, s1)
               | Some t \<Rightarrow> Inr (True, Some t, goto t Obtain_sleep a s1))))"

section \<open>Interleaving\<close>

text \<open>
  Any number of calls of the start function and of thread steps, with fresh addresses and
  thread identifiers.
\<close>

inductive th_step :: "thread_state \<Rightarrow> thread_state \<Rightarrow> bool" where
  th_start: "datas s a = None \<Longrightarrow> threads s t = None \<Longrightarrow> created = None \<or> created = Some t \<Longrightarrow>
    start_thread_obtaining_mutex (Some a) created m o_ms r_ms s = Inr (ok, stored, s') \<Longrightarrow> th_step s s'"
| th_run: "threadfunc_step t err s = Inr s' \<Longrightarrow> th_step s s'"

definition th_init :: "thread_state \<Rightarrow> bool" where
  "th_init s \<longleftrightarrow> holder s = (\<lambda>m. None) \<and> datas s = Map.empty \<and> threads s = Map.empty"

definition in_section :: "pc \<Rightarrow> bool" where
  "in_section p \<longleftrightarrow> p = Release_sleep \<or> p = Unlock_call"

text \<open>
  Threads have their own structures; a thread between its lock and its unlock holds the mutex
  its structure names; a structure whose success flag is set belongs to a thread that
  returned it.
\<close>

definition th_inv :: "thread_state \<Rightarrow> bool" where
  "th_inv s \<longleftrightarrow>
     (\<forall>t p a. threads s t = Some (p, a) \<longrightarrow>
        (\<exists>d. datas s a = Some d \<and> (in_section p \<longrightarrow> holder s (mutex d) = Some t) \<and>
           (thread_complete_success d \<longrightarrow> p = Returned (Ptr a)))) \<and>
     (\<forall>t t' p p' a. threads s t = Some (p, a) \<longrightarrow> threads s t' = Some (p', a) \<longrightarrow> t = t') \<and>
     (\<forall>m t. holder s m = Some t \<longrightarrow> threads s t \<noteq> None)"

lemmas th_step_defs = threadfunc_step_def goto_def set_success_def

lemma th_inv_start:
  assumes inv: "th_inv s" and fresh: "datas s a = None" "threads s t = None" "created = None \<or> created = Some t"
    and run: "start_thread_obtaining_mutex (Some a) created m o_ms r_ms s = Inr (ok, stored, s')"
  shows "th_inv s'"
proof -
  have "\<nexists>t' p. threads s t' = Some (p, a)" "\<nexists>m. holder s m = Some t"
    using inv fresh(1,2) unfolding th_inv_def by (metis option.distinct(1))+
  with inv fresh run show ?thesis
    by (auto simp: start_thread_obtaining_mutex_def th_inv_def goto_def in_section_def Let_def
        split: option.splits if_splits)
qed

text \<open>A move of one thread that changes its own structure and, at most, its own hold of mutexes.\<close>

lemma th_inv_move:
  assumes inv: "th_inv s" and t: "threads s t = Some (p, a)" and d: "datas s a = Some d"
    and d': "in_section p' \<longrightarrow> h' (mutex d') = Some t" "thread_complete_success d' \<longrightarrow> p' = Returned (Ptr a)"
    and keep: "\<And>m t'. t' \<noteq> t \<Longrightarrow> holder s m = Some t' \<Longrightarrow> h' m = Some t'"
    and new: "\<And>m t'. h' m = Some t' \<Longrightarrow> t' = t \<or> holder s m = Some t'"
  shows "th_inv (s\<lparr>holder := h', datas := (datas s)(a \<mapsto> d'), threads := (threads s)(t \<mapsto> (p', a))\<rparr>)"
    (is "th_inv ?s'")
proof -
  have other: "t' = t" if "threads s t' = Some (q, a)" for t' q
    using inv t that unfolding th_inv_def by blast
  have "\<exists>e. datas ?s' b = Some e \<and> (in_section q \<longrightarrow> holder ?s' (mutex e) = Some u) \<and>
      (thread_complete_success e \<longrightarrow> q = Returned (Ptr b))" if u: "threads ?s' u = Some (q, b)" for u q b
  proof (cases "u = t")
    case True
    with u d' show ?thesis by auto
  next
    case False
    then have s: "threads s u = Some (q, b)" using u by simp
    then have "b \<noteq> a" using other False by blast
    moreover obtain e where "datas s b = Some e" "in_section q \<longrightarrow> holder s (mutex e) = Some u"
      "thread_complete_success e \<longrightarrow> q = Returned (Ptr b)"
      using inv s unfolding th_inv_def by blast
    ultimately show ?thesis using keep [OF False] by auto
  qed
  moreover have "u = u'" if "threads ?s' u = Some (q, b)" "threads ?s' u' = Some (q', b)" for u u' q q' b
    using that inv other unfolding th_inv_def by (auto split: if_splits)
  moreover have "threads ?s' u \<noteq> None" if "holder ?s' m = Some u" for m u
    using that inv new [of m u] unfolding th_inv_def by auto
  ultimately show ?thesis unfolding th_inv_def by blast
qed

lemma th_inv_run:
  assumes inv: "th_inv s" and run: "threadfunc_step t err s = Inr s'"
  shows "th_inv s'"
proof -
  obtain p a d where t: "threads s t = Some (p, a)" "datas s a = Some d"
    using run by (auto simp: threadfunc_step_def split: option.splits)
  note move = th_inv_move [OF inv t]
  have ok: "in_section p \<longrightarrow> holder s (mutex d) = Some t" "thread_complete_success d \<longrightarrow> p = Returned (Ptr a)"
    using inv t unfolding th_inv_def by fastforce+
  have same: "(datas s)(a \<mapsto> d) = datas s" using t(2) by (simp add: map_upd_triv)
  show ?thesis
  proof (cases p)
    case Obtain_sleep
    then have "s' = s\<lparr>holder := holder s, datas := (datas s)(a \<mapsto> d), threads := (threads s)(t \<mapsto> (Lock_call, a))\<rparr>"
      using run t same by (auto simp: th_step_defs rbind_eq_Inr_iff)
    with move [of Lock_call "holder s" d] ok Obtain_sleep show ?thesis by (simp add: in_section_def)
  next
    case Lock_call
    show ?thesis
    proof (cases "err = 0")
      case False
      then have "s' = s\<lparr>holder := holder s, datas := (datas s)(a \<mapsto> d\<lparr>thread_complete_success := False\<rparr>),
          threads := (threads s)(t \<mapsto> (Returned NULL, a))\<rparr>"
        using run t Lock_call by (auto simp: th_step_defs)
      with move [of "Returned NULL" "holder s" "d\<lparr>thread_complete_success := False\<rparr>"] show ?thesis
        by (simp add: in_section_def)
    next
      case True
      then have free: "holder s (mutex d) = None" and s': "s' = s\<lparr>holder := (holder s)(mutex d := Some t),
          datas := (datas s)(a \<mapsto> d), threads := (threads s)(t \<mapsto> (Release_sleep, a))\<rparr>"
        using run t Lock_call same by (auto simp: th_step_defs split: if_splits)
      show ?thesis
        unfolding s' using ok Lock_call free by (intro move) (auto split: if_splits)
    qed
  next
    case Release_sleep
    then have "s' = s\<lparr>holder := holder s, datas := (datas s)(a \<mapsto> d), threads := (threads s)(t \<mapsto> (Unlock_call, a))\<rparr>"
      using run t same by (auto simp: th_step_defs rbind_eq_Inr_iff)
    with move [of Unlock_call "holder s" d] ok Release_sleep show ?thesis by (simp add: in_section_def)
  next
    case Unlock_call
    then have own: "holder s (mutex d) = Some t" using ok by (simp add: in_section_def)
    show ?thesis
    proof (cases "err = 0")
      case False
      then have "s' = s\<lparr>holder := holder s, datas := (datas s)(a \<mapsto> d\<lparr>thread_complete_success := False\<rparr>),
          threads := (threads s)(t \<mapsto> (Returned (Ptr a), a))\<rparr>"
        using run t Unlock_call by (auto simp: th_step_defs)
      with move [of "Returned (Ptr a)" "holder s" "d\<lparr>thread_complete_success := False\<rparr>"] show ?thesis
        by (simp add: in_section_def)
    next
      case True
      then have s': "s' = s\<lparr>holder := (holder s)(mutex d := None),
          datas := (datas s)(a \<mapsto> d\<lparr>thread_complete_success := True\<rparr>), threads := (threads s)(t \<mapsto> (Returned (Ptr a), a))\<rparr>"
        using run t Unlock_call by (auto simp: th_step_defs)
      show ?thesis
        unfolding s' using own by (intro move) (auto simp: in_section_def split: if_splits)
    qed
  next
    case (Returned r)
    then show ?thesis using run t by (simp add: threadfunc_step_def)
  qed
qed

interpretation th_machine: invariant_machine th_init th_step th_inv
proof unfold_locales
  fix s t
  show "th_inv s" if "th_init s" using that by (simp add: th_init_def th_inv_def)
  show "th_inv t" if "th_inv s" "th_step s t"
    using that(2,1) by (induction rule: th_step.induct) (auto intro: th_inv_start th_inv_run)
qed

section \<open>Properties\<close>

text \<open>
  C38: Mutual exclusion. In every state threads reach that are started and run in any
  interleaving, with any results of the thread library, two threads whose structures name
  the same mutex are never both between their lock and their unlock; and a structure's
  success flag is set only once its thread returned it after its unlock succeeded.
\<close>

theorem threads_exclude_each_other:
  assumes "reachable th_init th_step s" and "threads s t = Some (p, a)" and "datas s a = Some d"
  shows "(in_section p \<longrightarrow> (\<forall>u q b e. threads s u = Some (q, b) \<and> datas s b = Some e \<and> in_section q \<and>
      mutex e = mutex d \<longrightarrow> u = t)) \<and>
    (thread_complete_success d \<longrightarrow> p = Returned (Ptr a))"
proof -
  have inv: "th_inv s" by (rule th_machine.reachable_inv [OF assms(1)])
  have own: "holder s (mutex e) = Some u" if "threads s u = Some (q, b)" "datas s b = Some e" "in_section q" for u q b e
    using inv that unfolding th_inv_def by fastforce
  have "u = t" if "in_section p" "threads s u = Some (q, b)" "datas s b = Some e" "in_section q" "mutex e = mutex d" for u q b e
    using own [OF assms(2,3) that(1)] own [OF that(2-4)] that(5) by simp
  moreover have "thread_complete_success d \<longrightarrow> p = Returned (Ptr a)"
    using inv assms(2,3) unfolding th_inv_def by fastforce
  ultimately show ?thesis by blast
qed

definition no_threads :: thread_state where
  "no_threads = \<lparr>holder = (\<lambda>m. None), datas = Map.empty, threads = Map.empty\<rparr>"

definition one_data :: thread_data where
  "one_data = \<lparr>mutex = 0, wait_to_obtain_ms = 10, wait_to_release_ms = 20, thread_complete_success = False\<rparr>"

definition one_thread :: "pc \<Rightarrow> thread_state" where
  "one_thread p = no_threads\<lparr>datas := [5 \<mapsto> one_data], threads := [1 \<mapsto> (p, 5)]\<rparr>"

lemma one_thread_started:
  "start_thread_obtaining_mutex (Some 5) (Some 1) 0 10 20 no_threads = Inr (True, Some 1, one_thread Obtain_sleep)"
  by (simp add: start_thread_obtaining_mutex_def one_thread_def one_data_def no_threads_def goto_def)

theorem threads_exclude_each_other_witness:
  "\<exists>s. reachable th_init th_step s \<and> threads s 1 = Some (Release_sleep, 5) \<and>
     \<not> (\<exists>u q b e. u \<noteq> 1 \<and> threads s u = Some (q, b) \<and> datas s b = Some e \<and> in_section q \<and> mutex e = 0)"
proof -
  let ?s = "(one_thread Release_sleep)\<lparr>holder := (\<lambda>m. None)(0 := Some 1)\<rparr>"
  have "th_step no_threads (one_thread Obtain_sleep)"
    by (rule th_start [OF _ _ _ one_thread_started]) (simp_all add: no_threads_def)
  moreover have "reachable th_init th_step no_threads"
    by (rule reach_start) (simp add: th_init_def no_threads_def)
  moreover have "th_step (one_thread Obtain_sleep) (one_thread Lock_call)"
    by (rule th_run [of 1 0]) (simp add: th_step_defs one_thread_def one_data_def usleep_arg_def)
  moreover have "th_step (one_thread Lock_call) ?s"
    by (rule th_run [of 1 0]) (simp add: th_step_defs one_thread_def one_data_def no_threads_def)
  ultimately have r: "reachable th_init th_step ?s"
    by (meson reach_step)
  have t: "threads ?s 1 = Some (Release_sleep, 5)" "datas ?s 5 = Some one_data"
    by (simp_all add: one_thread_def)
  have "in_section Release_sleep" "mutex one_data = 0" by (simp_all add: in_section_def one_data_def)
  then have "\<not> (\<exists>u q b e. u \<noteq> 1 \<and> threads ?s u = Some (q, b) \<and> datas ?s b = Some e \<and> in_section q \<and> mutex e = 0)"
    using threads_exclude_each_other [OF r t] by metis
  with r t(1) show ?thesis by blast
qed

fun run_thread :: "nat \<Rightarrow> int list \<Rightarrow> thread_state \<Rightarrow> thread_state res" where
  "run_thread t [] s = Inr s"
| "run_thread t (e # es) s = rbind (threadfunc_step t e s) (run_thread t es)"

text \<open>
  C39: A thread's life. Starting a thread with a structure at a free address returns true with
  its identifier; run alone on a free mutex, with waits whose microseconds fit an \<^verbatim>\<open>int\<close> and
  calls that succeed, it ends after its four calls, returns its structure with the success
  flag set, and leaves the mutex free. A failing lock returns a null pointer instead, which
  loses the structure.
\<close>

theorem started_thread_completes:
  assumes "holder s m = None" and "- 2147483 \<le> o_ms" and "o_ms \<le> 2147483" and "- 2147483 \<le> r_ms" and "r_ms \<le> 2147483"
  shows "\<exists>s1. start_thread_obtaining_mutex (Some a) (Some t) m o_ms r_ms s = Inr (True, Some t, s1) \<and>
    (\<exists>s2 d. run_thread t [0, 0, 0, 0] s1 = Inr s2 \<and> threads s2 t = Some (Returned (Ptr a), a) \<and>
       datas s2 a = Some d \<and> thread_complete_success d \<and> holder s2 = holder s) \<and>
    (\<forall>err. err \<noteq> 0 \<longrightarrow> (\<exists>s2. run_thread t [0, err] s1 = Inr s2 \<and>
       threads s2 t = Some (Returned NULL, a) \<and> datas s2 a \<noteq> None))"
proof -
  let ?d = "\<lparr>mutex = m, wait_to_obtain_ms = o_ms, wait_to_release_ms = r_ms, thread_complete_success = False\<rparr>"
  let ?s1 = "goto t Obtain_sleep a (s\<lparr>datas := (datas s)(a \<mapsto> ?d)\<rparr>)"
  have u: "usleep_arg o_ms = Inr ()" "usleep_arg r_ms = Inr ()"
    using assms by (simp_all add: usleep_arg_def)
  have "(holder s)(m := None) = holder s" using assms(1) by (simp add: fun_upd_idem)
  then show ?thesis
    using assms(1) u
    by (intro exI [of _ ?s1]) (simp add: start_thread_obtaining_mutex_def th_step_defs)
qed

theorem started_thread_completes_witness:
  "\<exists>s1 s2 d. start_thread_obtaining_mutex (Some 5) (Some 1) 0 10 20 no_threads = Inr (True, Some 1, s1) \<and>
     run_thread 1 [0, 0, 0, 0] s1 = Inr s2 \<and> datas s2 5 = Some d \<and> thread_complete_success d"
  using started_thread_completes [of no_threads 0 10 20 5 1]
  by (auto simp: no_threads_def simp del: run_thread.simps)

end
