(* ===== verification/Writer.thy ===== *)
theory Writer
  imports AESD_Prelude
begin

text \<open>
  The program of \<^verbatim>\<open>finder-app/writer.c\<close>: it replaces the content of a file by a string and a
  newline. The answers of the file operations are arguments. The stream is buffered: what
  \<^verbatim>\<open>fprintf\<close> accepts reaches the file when the stream is flushed, at the latest by \<^verbatim>\<open>fclose\<close>,
  whose result the program does not look at.
\<close>

section \<open>The program\<close>

type_synonym files = "string \<rightharpoonup> byte list"

text \<open>
  \<open>we_open\<close>: the file could be opened for writing; \<open>we_print\<close>: \<^verbatim>\<open>fprintf\<close> reported no error;
  \<open>we_flushed\<close>: the number of bytes that reached the file by the time it is closed.
\<close>

record writer_env =
  we_open :: bool
  we_print :: bool
  we_flushed :: nat

definition fopen_w :: "writer_env \<Rightarrow> string \<Rightarrow> files \<Rightarrow> files option" where
  "fopen_w env path fs = (if we_open env then Some (fs(path \<mapsto> [])) else None)"

definition fclose_w :: "writer_env \<Rightarrow> string \<Rightarrow> byte list \<Rightarrow> files \<Rightarrow> files" where
  "fclose_w env path pending fs = fs(path \<mapsto> take (we_flushed env) pending)"

definition main_writer :: "writer_env \<Rightarrow> string list \<Rightarrow> files \<Rightarrow> int \<times> files" where
  "main_writer env argv fs =
     (if length argv \<noteq> 3 then (1, fs)
      else
        let file_path = argv ! 1; writestr = argv ! 2
        in case fopen_w env file_path fs of
             None \<Rightarrow> (1, fs)
           | Some fs1 \<Rightarrow>
               (let pending = writestr @ [NEWLINE]
                in if \<not> we_print env then (1, fclose_w env file_path pending fs1)
                   else (let fs2 = fclose_w env file_path pending fs1 in (0, fs2))))"

section \<open>Properties\<close>

text \<open>
  Usage and open errors. Any number of arguments other than two, or a file that cannot be
  opened, gives exit status 1 and leaves every file as it was; whatever happens, no file but
  the named one changes.
\<close>

theorem writer_errors:
  "(length argv \<noteq> 3 \<or> \<not> we_open env \<longrightarrow> main_writer env argv fs = (1, fs)) \<and>
   (path \<noteq> argv ! 1 \<longrightarrow> snd (main_writer env argv fs) path = fs path)"
  by (auto simp: main_writer_def fopen_w_def fclose_w_def Let_def)

definition good_writer :: writer_env where
  "good_writer = \<lparr>we_open = True, we_print = True, we_flushed = 100\<rparr>"

theorem writer_errors_witness:
  "main_writer good_writer [''writer'', ''f''] [''f'' \<mapsto> ''old''] = (1, [''f'' \<mapsto> ''old''])"
  using writer_errors [of "[''writer'', ''f'']" good_writer "[''f'' \<mapsto> ''old'']" "''f''"] by simp

text \<open>
  C40: What the file holds. With a file that can be opened, exit status 0 means that
  \<^verbatim>\<open>fprintf\<close> accepted the string; the file then holds exactly the string and a newline, its old
  content gone, if and only if the buffer was flushed whole. A flush cut short still gives
  exit status 0.
\<close>

theorem writer_result:
  assumes "we_open env"
  shows "(fst (main_writer env [prog, path, str] fs) = 0 \<longleftrightarrow> we_print env) \<and>
    (snd (main_writer env [prog, path, str] fs) path = Some (str @ [NEWLINE]) \<longleftrightarrow> length str < we_flushed env)"
proof -
  have "take n (str @ [NEWLINE]) = str @ [NEWLINE] \<longleftrightarrow> length str < n" for n
    unfolding take_all_iff by (simp add: Suc_le_eq)
  then show ?thesis
    using assms by (simp add: main_writer_def fopen_w_def fclose_w_def Let_def)
qed

theorem writer_result_witness:
  "fst (main_writer good_writer [''writer'', ''f'', ''new''] [''f'' \<mapsto> ''old'']) = 0 \<and>
   snd (main_writer good_writer [''writer'', ''f'', ''new''] [''f'' \<mapsto> ''old'']) ''f'' = Some (''new'' @ [NEWLINE])"
  using writer_result [of good_writer "''writer''" "''f''" "''new''" "[''f'' \<mapsto> ''old'']"]
  by (simp add: good_writer_def)

end
