(* ===== verification/Autotest.thy ===== *)
theory Autotest
  imports AESD_Prelude
begin

text \<open>
  The programs that validate the test set-up: the functions of
  \<^verbatim>\<open>examples/autotest-validate/autotest-validate.c\<close>, the \<^verbatim>\<open>main\<close> of
  \<^verbatim>\<open>autotest-validate-main.c\<close> with what it prints, and the test of
  \<^verbatim>\<open>student-test/assignment1/Test_validate_username.c\<close>. The assertions of the Unity library are
  modelled as far as the outcome of a test: a failure ends it with a message.
\<close>

definition this_function_returns_true :: bool where
  "this_function_returns_true = True"

definition this_function_returns_false :: bool where
  "this_function_returns_false = False"

definition my_username :: string where
  "my_username = ''todo-please-enter-your-username-here-in-my_username''"

definition git_username :: string where
  "git_username = ''akshita-bhasin''"

definition truth_name :: "bool \<Rightarrow> string" where
  "truth_name b = (if b then ''true'' else ''false'')"

text \<open>What the program prints; without a \<^verbatim>\<open>return\<close> the value of \<^verbatim>\<open>main\<close> is 0.\<close>

definition main_autotest :: "string list \<Rightarrow> int \<times> string" where
  "main_autotest argv =
     (0, ''this_function_returns_true returned '' @ truth_name this_function_returns_true @ [NEWLINE] @
         ''this_function_returns_false returned '' @ truth_name this_function_returns_false @ [NEWLINE])"

datatype test_result = Passed | Failed string

definition TEST_ASSERT_TRUE_MESSAGE :: "bool \<Rightarrow> string \<Rightarrow> test_result" where
  "TEST_ASSERT_TRUE_MESSAGE condition message = (if condition then Passed else Failed message)"

definition test_validate_my_username :: test_result where
  "test_validate_my_username = TEST_ASSERT_TRUE_MESSAGE False ''AESD students, please fix me!''"

text \<open>The set-up as it is committed: the user name is a placeholder and the test always fails.\<close>

lemma autotest_unfinished:
  "main_autotest argv = (0, ''this_function_returns_true returned true'' @ [NEWLINE] @
     ''this_function_returns_false returned false'' @ [NEWLINE])"
  "my_username \<noteq> git_username" "test_validate_my_username = Failed ''AESD students, please fix me!''"
  by (simp_all add: main_autotest_def this_function_returns_true_def this_function_returns_false_def truth_name_def
      my_username_def git_username_def test_validate_my_username_def TEST_ASSERT_TRUE_MESSAGE_def)

end
