(* ===== verification/Spec2Isabelle.thy ===== *)
theory Spec2Isabelle
  imports Driver_Types Concurrency_Properties Queue_Trace Socket_Liveness System_Calls Threading Writer Autotest
begin

text \<open>
  \<^bold>\<open>A verification of the AESD assignments: character driver, socket server and examples\<close>

  The repository holds a Linux character driver that remembers the last ten newline-terminated
  write commands (\<^verbatim>\<open>aesd-char-driver/\<close>), a multi-threaded TCP server that appends packets to the
  device and sends its content back (\<^verbatim>\<open>server/\<close>), and small user-space exercises (\<^verbatim>\<open>examples/\<close>,
  \<^verbatim>\<open>finder-app/\<close>). The server writes to, seeks in and reads from the driver's device; the driver
  stores its commands in the circular buffer; the server keeps its threads in a list of
  \<^verbatim>\<open>queue.h\<close>.

  \<^bold>\<open>Conventions.\<close> C integers keep their width: \<^verbatim>\<open>size_t\<close>, \<^verbatim>\<open>loff_t\<close>, \<^verbatim>\<open>uint8_t\<close>, \<^verbatim>\<open>uint32_t\<close> are
  words, \<^verbatim>\<open>int\<close> is an integer whose overflow is a fault. Memory is a map from addresses to blocks
  of cells that may be uninitialised. A computation yields \<open>Inl\<close> of a fault (an access out of
  bounds, through a null or dangling pointer, of uninitialised memory, a signed overflow, a
  call that never returns) or \<open>Inr\<close> of its result; return codes such as \<^verbatim>\<open>-EINVAL\<close> are results.
  A loop whose end is not syntactically evident is a \<^verbatim>\<open>partial_function\<close> with value \<open>None\<close> when
  it runs forever, and the theorems about it state that it ends. What the kernel, the C library
  and other processes answer (addresses of allocations, bytes received, failures) is an
  argument of the model; the results the code ignores are ignored.

  \<^bold>\<open>The theories.\<close>
  \<^item> \<^verbatim>\<open>AESD_Prelude\<close>: types, faults, arrays, block memory, the locating of a position in a list of
    pieces, reachability, runs, and the locales \<open>invariant_machine\<close>, \<open>event_machine\<close> and
    \<open>finishing_machine\<close>, which extends the second with a rank that every step lowers.
  \<^item> \<^verbatim>\<open>Circular_Buffer\<close> (\<^verbatim>\<open>aesd-circular-buffer.c/.h\<close>): the ring's structures, \<^verbatim>\<open>init\<close>,
    \<^verbatim>\<open>find_entry_offset_for_fpos\<close>, \<^verbatim>\<open>add_entry\<close>. The ring interprets the locale \<open>bounded_fifo\<close>;
    the search is shown to end and to agree with \<open>locate\<close>.
  \<^item> \<^verbatim>\<open>Device_Interface\<close>: the abstract device (the last ten commands and the pending bytes) and the
    locale \<open>char_device\<close> its users rely on.
  \<^item> \<^verbatim>\<open>Char_Driver\<close> (\<^verbatim>\<open>main.c\<close>, \<^verbatim>\<open>aesdchar.h\<close>, \<^verbatim>\<open>aesd_ioctl.h\<close>): open, release, read, write, llseek,
    ioctl, module initialisation and clean-up over one device and the kernel heap.
  \<^item> \<^verbatim>\<open>Driver_Refinement\<close>: the relation \<open>dev_rel\<close> between a kernel state and an abstract device, the
    proofs that reads and writes refine it, and the interpretation of \<open>char_device\<close>.
  \<^item> \<^verbatim>\<open>Driver_Safety\<close>: seeking, failing allocations, ownership of heap blocks, clean-up, and the
    file operations as a step relation with its invariant.
  \<^item> \<^verbatim>\<open>Driver_Properties\<close>: theorems of the buffer and the driver with instances.
  \<^item> \<^verbatim>\<open>Driver_Types\<close>: the type of the ring under every answer of the kernel, failing ones included; C8.
  \<^item> \<^verbatim>\<open>Driver_Tasks\<close> (\<^verbatim>\<open>aesd_read\<close>, \<^verbatim>\<open>aesd_write\<close>, \<^verbatim>\<open>aesd_llseek\<close> and \<^verbatim>\<open>aesd_ioctl\<close> in \<^verbatim>\<open>main.c\<close>): the handlers cut
    into steps at their accesses to shared state, any number of calls interleaved; the steps run
    one after the other are the handlers.
  \<^item> \<^verbatim>\<open>Driver_Concurrency\<close>, \<^verbatim>\<open>Driver_Readers\<close>, \<^verbatim>\<open>Driver_Seekers\<close>, \<^verbatim>\<open>Driver_Schedules\<close>: the invariant of
    every interleaving (an interpretation of the locale \<open>event_machine\<close>), what readers see when
    nothing is evicted, what seeks find, and schedules that lead to the races. \<^verbatim>\<open>Driver_Liveness\<close>: the
    steps that calls have left, that one of them can always go on, and the mutex that a failed
    allocation leaves without an owner; the two kinds of run interpret \<open>finishing_machine\<close>.
    \<^verbatim>\<open>Concurrency_Properties\<close>: C10 to C16 and C19.
  \<^item> \<^verbatim>\<open>Queue_Links\<close>, \<^verbatim>\<open>Queue_SList\<close> (\<^verbatim>\<open>server/queue.h\<close>): link cells, chains, every \<^verbatim>\<open>SLIST\<close> macro;
    the locale \<open>list_ops\<close> and its interpretation; C22.
  \<^item> \<^verbatim>\<open>Queue_STailq\<close>, \<^verbatim>\<open>Queue_DList\<close>, \<^verbatim>\<open>Queue_Tailq\<close> (\<^verbatim>\<open>server/queue.h\<close>): the \<^verbatim>\<open>STAILQ\<close>, \<^verbatim>\<open>LIST\<close> and
    \<^verbatim>\<open>TAILQ\<close> macros on the same cells with the address of the last link, back links, and both; each
    interprets \<open>list_ops\<close>, the tail queues also the locale \<open>fifo_ops\<close> that extends it; C23 to C25.
  \<^item> \<^verbatim>\<open>Queue_Checks\<close> (\<^verbatim>\<open>QMD_LIST_CHECK\<close>, \<^verbatim>\<open>QMD_TAILQ_CHECK\<close> in \<^verbatim>\<open>server/queue.h\<close>): the consistency checks of a
    debugging kernel and the macros with them, which interpret the same locales; C26.
  \<^item> \<^verbatim>\<open>Queue_Trace\<close> (\<^verbatim>\<open>QUEUE_MACRO_DEBUG\<close> in \<^verbatim>\<open>server/queue.h\<close>): the macros that record the places of the last
    two changes and overwrite the links of removed elements; they interpret the same locales; C27
    and C28.
  \<^item> \<^verbatim>\<open>C_Library\<close>: allocation, strings and number conversion as the user programs use them.
  \<^item> \<^verbatim>\<open>Socket_Receive\<close>, \<^verbatim>\<open>Socket_Session\<close> (\<^verbatim>\<open>threadHandler\<close> in \<^verbatim>\<open>aesdsocket.c\<close>): the receive loop, the
    session on the data file as a client of the locale \<open>seekable_device\<close>, which the driver
    interprets.
  \<^item> \<^verbatim>\<open>Socket_Server\<close> (the rest of \<^verbatim>\<open>aesdsocket.c\<close>): the thread list, the accept loop, the signal
    handler, \<^verbatim>\<open>exitFunction\<close>, \<^verbatim>\<open>main\<close>.
  \<^item> \<^verbatim>\<open>Socket_Properties\<close>: theorems of the server with instances.
  \<^item> \<^verbatim>\<open>Socket_Threads\<close>, \<^verbatim>\<open>Socket_Sharing\<close>, \<^verbatim>\<open>Socket_Clients\<close>: \<^verbatim>\<open>threadHandler\<close> cut into steps, which run
    one after the other are the function; any number of sessions interleaved on one heap, one
    counter, one mutex and the driver.
  \<^item> \<^verbatim>\<open>Socket_Process\<close>: the accept loop of \<^verbatim>\<open>ConfigureSocket\<close> together with the threads it creates, which
    share the elements of its list; its sessions are those of \<^verbatim>\<open>Socket_Clients\<close>; C31 and C32.
  \<^item> \<^verbatim>\<open>Socket_Ends\<close>, \<^verbatim>\<open>Socket_Liveness\<close>: what becomes of the process: its descriptors, a failed \<^verbatim>\<open>accept\<close>,
    signals (C34 to C36); the sessions as a \<open>finishing_machine\<close> with the invariant of the process and
    the room the driver has left, which all end (C33).
  \<^item> \<^verbatim>\<open>System_Calls\<close> (\<^verbatim>\<open>systemcalls.c\<close>): running programs and the wait status; C37.
  \<^item> \<^verbatim>\<open>Threading\<close> (\<^verbatim>\<open>threading.c/.h\<close>): interleaved threads on mutexes; C38 and C39.
  \<^item> \<^verbatim>\<open>Writer\<close> (\<^verbatim>\<open>writer.c\<close>): C40. \<^verbatim>\<open>Autotest\<close>: the programs that validate the test set-up.

  \<^bold>\<open>What is shown.\<close> The ring keeps the last ten entries (C1), the position search is right (C2);
  writes and reads of the driver refine the abstract device and reading to the end returns
  exactly the stored commands (C3 to C6); in every reachable state every call returns, with the
  one exception of C17 (C7, C9), and no answer of the kernel spoils the type of the ring (C8).
  Concurrent calls: writes are serialised by the mutex (C10); reads, which take no lock, return what
  the device held at some moment as long as no command is evicted (C11) and copy freed memory in
  some schedule otherwise (C15); seeks find what the handler finds on the device at a moment without a
  write under way (C12); every call ends under every schedule, and none gets stuck (C14); the byte
  count loses updates, and an llseek to the end then stops short (C16). C17 to C19 and C21 state what the code does in other cases its authors
  did not mean: an entry read past the array, positions computed from slots, a mutex that a failed
  allocation leaves locked for ever, an end position that counts evicted bytes. C20 is the module's
  memory. The four list structures of \<^verbatim>\<open>queue.h\<close> implement lists and queues of elements, their loops
  end, and the pointer tricks (the address of the last link, a link cell read as a head) are right
  (C22 to C25); the consistency checks accept exactly the sound lists (C26); tracing and trashing keep
  the queues and catch a second removal (C27), though the records miss alterations (C28). A session
  of the server stores its packet and replies with the device's content, or replies from a
  requested position (C30), on top of a receive loop that is right for chunks below 100 bytes and
  leaves its block for others (C29). The server as a whole serves its sessions one after the
  other, each with its own packet last, never uses an element of its thread list that it has freed
  (C31), never waits for good when it joins a thread (C32), and can finish every session that has
  its packet (C33). A failed \<^verbatim>\<open>accept\<close> ends it (C34), which must come to pass since its descriptors are
  never closed (C36); whenever it ends, the packets stored so far are in the device (C35).

  \<^bold>\<open>Bounds.\<close> Commands are shorter than \<open>2 ^ 59\<close> bytes (no block of a 57-bit address space reaches
  that), so ten of them stay below \<open>2 ^ 63\<close> and file positions do not overflow. The receive loop's
  counters are 32-bit; its theorems ask for \<open>100\<close> times the number of chunks to fit.

  \<^bold>\<open>Granularity.\<close> In interleavings of the driver's handlers the search of the ring, the fill of
  the pending buffer, the release of the evicted command and the commit are one step each, and
  allocations succeed, except in C19. In interleavings of the server a round of the accept loop, a
  round of the receive loop, the branch on the packet and the reply are one step each; the last two
  are inside the mutex. A round that joins a thread takes place once the thread has returned. The
  kernel's descriptors are modelled as far as the server relies on them: \<^verbatim>\<open>accept\<close> returns one that was
  not open, and \<^verbatim>\<open>recv\<close> gives bytes on open ones only.

  \<^bold>\<open>Not modelled.\<close> Logging (\<^verbatim>\<open>PDEBUG\<close>, \<^verbatim>\<open>syslog\<close>), the registration of the module's entry points,
  shell scripts and build files.
\<close>

end
